(* ===== verification/Prelude.thy ===== *)
theory Prelude
  imports
    Main
    "HOL-Library.Word"
    "HOL-Library.Multiset"
    "HOL-Library.Monad_Syntax"
    "HOL-Library.List_Lexorder"
    "HOL-Library.Char_ord"
    "HOL-Library.Product_Lexorder"
begin

unbundle bit_operations_syntax

text \<open>
  Shared vocabulary of the development.

  Go strings are byte sequences and Isabelle's \<^typ>\<open>char\<close> is a byte, so a Go string is a
  \<^typ>\<open>string\<close> and Go's \<open><\<close> on strings is the lexicographic order of \<^typ>\<open>char list\<close>.
  This theory holds the pieces of the Go standard library that several packages use
  (\<open>strconv.Itoa\<close>, \<open>strings.Join\<close>, \<open>sort.Slice\<close>, \<open>sort.Strings\<close>), an option-valued fold for
  loops whose body may panic, and the facts about them that the components share.
\<close>

named_theorems go_simps "unfolding rules for the translated Go operations"
named_theorems go_pres "preservation facts for the translated Go operations"

section \<open>Decimal rendering\<close>

definition digit_char :: "nat \<Rightarrow> char" where
  "digit_char d = char_of (48 + d)"

fun utoa :: "nat \<Rightarrow> string" where
  "utoa n = (if n < 10 then [digit_char n] else utoa (n div 10) @ [digit_char (n mod 10)])"

declare utoa.simps [simp del]

definition itoa :: "int \<Rightarrow> string" where
  "itoa i = (if i < 0 then CHR ''-'' # utoa (nat (- i)) else utoa (nat i))"

definition is_digit_char :: "char \<Rightarrow> bool" where
  "is_digit_char c \<longleftrightarrow> 48 \<le> (of_char c :: nat) \<and> (of_char c :: nat) < 58"

section \<open>strings.Join\<close>

fun strings_join :: "string list \<Rightarrow> string \<Rightarrow> string" where
  "strings_join [] sep = []"
| "strings_join [x] sep = x"
| "strings_join (x # y # ys) sep = x @ sep @ strings_join (y # ys) sep"

section \<open>sort.Slice\<close>

text \<open>
  \<open>sort.Slice(xs, less)\<close> and \<open>sort.SliceStable\<close> as insertion into a sorted list. Go leaves the
  order of elements that compare equal under an unstable sort unspecified, and the model
  picks one; the theorems that mention such an order either show that the keys are distinct
  or hold for every order of the equal elements.
\<close>

fun insert_by :: "('a \<Rightarrow> 'a \<Rightarrow> bool) \<Rightarrow> 'a \<Rightarrow> 'a list \<Rightarrow> 'a list" where
  "insert_by lt x [] = [x]"
| "insert_by lt x (y # ys) = (if lt y x then y # insert_by lt x ys else x # y # ys)"

definition sort_slice :: "('a \<Rightarrow> 'a \<Rightarrow> bool) \<Rightarrow> 'a list \<Rightarrow> 'a list" where
  "sort_slice lt xs = foldr (insert_by lt) xs []"

section \<open>Loops whose body may fail\<close>

fun fold_opt :: "('a \<Rightarrow> 's \<Rightarrow> 's option) \<Rightarrow> 'a list \<Rightarrow> 's \<Rightarrow> 's option" where
  "fold_opt f [] s = Some s"
| "fold_opt f (x # xs) s = (case f x s of None \<Rightarrow> None | Some s' \<Rightarrow> fold_opt f xs s')"

section \<open>Generic lemmas\<close>

lemma of_char_digit_char: "d < 10 \<Longrightarrow> (of_char (digit_char d) :: nat) = 48 + d"
  by (simp add: digit_char_def)

lemma digit_char_inj: "d < 10 \<Longrightarrow> e < 10 \<Longrightarrow> digit_char d = digit_char e \<longleftrightarrow> d = e"
  by (metis add_left_cancel of_char_digit_char)

lemma digit_char_is_digit [simp]: "d < 10 \<Longrightarrow> is_digit_char (digit_char d)"
  by (simp add: is_digit_char_def of_char_digit_char)

lemma utoa_not_Nil [simp]: "utoa n \<noteq> []" "[] \<noteq> utoa n"
  by (subst utoa.simps, simp)+

lemma utoa_digits: "c \<in> set (utoa n) \<Longrightarrow> is_digit_char c"
proof (induction n rule: utoa.induct)
  case (1 n)
  show ?case
  proof (cases "n < 10")
    case True
    with 1 show ?thesis by (simp add: utoa.simps [of n])
  next
    case False
    with 1 show ?thesis by (auto simp: utoa.simps [of n])
  qed
qed

lemma utoa_inj: "utoa m = utoa n \<Longrightarrow> m = n"
proof (induction m arbitrary: n rule: utoa.induct)
  case (1 m)
  show ?case
  proof (cases "m < 10 \<or> n < 10")
    case True
    with "1.prems" show ?thesis
      by (auto simp: utoa.simps [of m] utoa.simps [of n] digit_char_inj dest: sym split: if_splits)
  next
    case False
    with "1.prems" have "utoa (m div 10) = utoa (n div 10)" and "m mod 10 = n mod 10"
      by (auto simp: utoa.simps [of m] utoa.simps [of n] digit_char_inj)
    with "1.IH" False have "m div 10 = n div 10" by simp
    with \<open>m mod 10 = n mod 10\<close> show ?thesis by (metis div_mult_mod_eq)
  qed
qed

lemma minus_not_digit [simp]: "\<not> is_digit_char CHR ''-''"
  by (simp add: is_digit_char_def)

lemma itoa_inj [simp]: "itoa i = itoa j \<longleftrightarrow> i = j"
proof
  assume eq: "itoa i = itoa j"
  have no_minus: "CHR ''-'' # s \<noteq> utoa n" for s n
    using utoa_digits [of "CHR ''-''" n] by (auto dest: sym)
  show "i = j"
  proof (cases "(i < 0) = (j < 0)")
    case True
    with eq have "nat (if i < 0 then - i else i) = nat (if j < 0 then - j else j)"
      by (auto simp: itoa_def dest: utoa_inj split: if_splits)
    with True show ?thesis by (auto split: if_splits)
  next
    case False
    with eq no_minus show ?thesis by (auto simp: itoa_def dest: sym split: if_splits)
  qed
qed simp

lemma itoa_not_Nil [simp]: "itoa i \<noteq> []"
  by (simp add: itoa_def)

lemma mset_insert_by [simp]: "mset (insert_by lt x xs) = add_mset x (mset xs)"
  by (induction xs) auto

lemma set_insert_by [simp]: "set (insert_by lt x xs) = insert x (set xs)"
  by (induction xs) auto

lemma sort_slice_Nil [simp]: "sort_slice lt [] = []"
  by (simp add: sort_slice_def)

lemma sort_slice_Cons [simp]: "sort_slice lt (x # xs) = insert_by lt x (sort_slice lt xs)"
  by (simp add: sort_slice_def)

lemma mset_sort_slice [simp]: "mset (sort_slice lt xs) = mset xs"
  by (induction xs) auto

lemma set_sort_slice [simp]: "set (sort_slice lt xs) = set xs"
  by (metis mset_sort_slice set_mset_mset)

lemma length_sort_slice [simp]: "length (sort_slice lt xs) = length xs"
  by (metis mset_sort_slice size_mset)

lemma insert_by_key: "insert_by (\<lambda>a b. k a < k b) x xs = insort_key k x xs"
  for k :: "'a \<Rightarrow> 'b::linorder"
  by (induction xs) (auto simp: not_less)

lemma sort_slice_key: "sort_slice (\<lambda>a b. k a < k b) xs = sort_key k xs"
  for k :: "'a \<Rightarrow> 'b::linorder"
  by (induction xs) (auto simp: insert_by_key)

lemma sort_key_perm:
  fixes k :: "'a \<Rightarrow> 'b::linorder"
  assumes "mset xs = mset ys" and "inj_on k (set xs)"
  shows "sort_key k xs = sort_key k ys"
proof -
  have "sort (map k xs) = map k (sort_key k xs)"
    by (rule properties_for_sort) (simp_all add: mset_map)
  moreover have "sort (map k xs) = map k (sort_key k ys)"
    by (rule properties_for_sort) (simp_all add: mset_map assms(1))
  ultimately have "map k (sort_key k xs) = map k (sort_key k ys)" by simp
  moreover have "inj_on k (set (sort_key k xs) \<union> set (sort_key k ys))"
    using assms mset_eq_setD by fastforce
  ultimately show ?thesis by (rule map_inj_on)
qed

lemma sort_slice_perm:
  fixes k :: "'a \<Rightarrow> 'b::linorder"
  assumes "mset xs = mset ys" and "inj_on k (set xs)"
  shows "sort_slice (\<lambda>a b. k a < k b) xs = sort_slice (\<lambda>a b. k a < k b) ys"
  unfolding sort_slice_key by (rule sort_key_perm [OF assms])

text \<open>Sequencing of a state-passing run that may fail.\<close>

lemma bind_run:
  assumes "\<exists>x s1. f = Some (x, s1) \<and> Q x s1"
    and "\<And>x s1. f = Some (x, s1) \<Longrightarrow> Q x s1 \<Longrightarrow> \<exists>r s'. g x s1 = Some (r, s') \<and> P r s'"
  shows "\<exists>r s'. Option.bind f (\<lambda>(x, s). g x s) = Some (r, s') \<and> P r s'"
  using assms by auto

lemma fold_opt_append: "fold_opt f (xs @ ys) s = Option.bind (fold_opt f xs s) (fold_opt f ys)"
  by (induction xs arbitrary: s) (auto split: option.splits)

lemma fold_opt_invariant:
  assumes "fold_opt f xs s = Some s'" and "P s"
    and "\<And>x t t'. x \<in> set xs \<Longrightarrow> P t \<Longrightarrow> f x t = Some t' \<Longrightarrow> P t'"
  shows "P s'"
  using assms
proof (induction xs arbitrary: s)
  case (Cons x xs)
  then obtain t where "f x s = Some t" and "fold_opt f xs t = Some s'"
    by (auto split: option.splits)
  with Cons.prems(2,3) Cons.IH [of t] show ?case by (meson list.set_intros)
qed simp

lemma fold_opt_total:
  assumes "P s" and "\<And>x t. x \<in> set xs \<Longrightarrow> P t \<Longrightarrow> \<exists>t'. f x t = Some t' \<and> P t'"
  shows "\<exists>s'. fold_opt f xs s = Some s' \<and> P s'"
  using assms
proof (induction xs arbitrary: s)
  case (Cons x xs)
  then obtain t where t: "f x s = Some t" and "P t" by (meson list.set_intros(1))
  with Cons.IH [of t] Cons.prems(2) show ?case by auto
qed simp

end
