(* ===== verification/Lattice.thy ===== *)
theory Lattice
  imports Prelude "HOL-Library.Option_ord"
begin

text \<open>
  \<^verbatim>\<open>pkg/types/lattice.go\<close>: the elements of the inference lattice, the canonical key that decides
  hash-cons identity, and the rendering used by the reports.

  The Go struct \<open>Type\<close> becomes a datatype with one field per struct field. Pointers to types
  inside a type are the types themselves; the interner's invariant (theory \<open>Interner\<close>) makes
  HOL equality of interned types coincide with pointer equality. A nil dereference or an
  index out of range while writing a key or a rendering is \<^const>\<open>None\<close>.

  The main result of this theory is that a key can be read back: two well-formed types with
  the same key agree in kind, refinement bits, class name, shape and, recursively, in the
  keys of all their parts.
\<close>

section \<open>Data\<close>

datatype kind =
    KindNever | KindNone | KindBool | KindInt | KindFloat | KindComplex | KindStr | KindBytes
  | KindClass | KindList | KindTuple | KindDict | KindSet | KindCallable | KindUnion
  | KindProto | KindDyn

fun kind_iota :: "kind \<Rightarrow> nat" where
  "kind_iota KindNever = 0"
| "kind_iota KindNone = 1"
| "kind_iota KindBool = 2"
| "kind_iota KindInt = 3"
| "kind_iota KindFloat = 4"
| "kind_iota KindComplex = 5"
| "kind_iota KindStr = 6"
| "kind_iota KindBytes = 7"
| "kind_iota KindClass = 8"
| "kind_iota KindList = 9"
| "kind_iota KindTuple = 10"
| "kind_iota KindDict = 11"
| "kind_iota KindSet = 12"
| "kind_iota KindCallable = 13"
| "kind_iota KindUnion = 14"
| "kind_iota KindProto = 15"
| "kind_iota KindDyn = 16"

type_synonym refine = "8 word"

definition RefineAsciiOnly :: refine where "RefineAsciiOnly = 1"
definition RefineNonNegative :: refine where "RefineNonNegative = 2"
definition RefineKnownLen :: refine where "RefineKnownLen = 4"
definition RefineExactType :: refine where "RefineExactType = 8"

datatype class_ref = ClassRef (cname: string) (MRO: "string list") (cid: nat)

datatype param_kind = ParamPosOnly | ParamPosOrKw | ParamKwOnly

fun param_kind_iota :: "param_kind \<Rightarrow> nat" where
  "param_kind_iota ParamPosOnly = 0"
| "param_kind_iota ParamPosOrKw = 1"
| "param_kind_iota ParamKwOnly = 2"

datatype 't param =
  Param (pname: string) (ptype: 't) (pkind: param_kind) (hasDefault: bool)

datatype 't signature =
  Signature (params: "'t param list") (star: "'t option") (starstar: "'t option") (ret: 't)
    (mayRaise: bool) (mayYield: bool)

datatype ty =
  Type (kind: kind) (tclass: "class_ref option") (elems: "ty list") (tsig: "ty signature option")
    (variadic: bool) (refine: refine) (tid: nat)

definition Has :: "ty \<Rightarrow> refine \<Rightarrow> bool" where
  "Has t r \<longleftrightarrow> refine t AND r = r"

definition IsDyn :: "ty \<Rightarrow> bool" where
  "IsDyn t \<longleftrightarrow> kind t = KindDyn"

definition IsNever :: "ty \<Rightarrow> bool" where
  "IsNever t \<longleftrightarrow> kind t = KindNever"

section \<open>The canonical key\<close>

definition kind_byte :: "kind \<Rightarrow> char" where
  "kind_byte k = char_of (65 + kind_iota k)"

definition param_kind_byte :: "param_kind \<Rightarrow> char" where
  "param_kind_byte k = char_of (48 + param_kind_iota k)"

definition sig_writeKey :: "string option signature \<Rightarrow> string option" where
  "sig_writeKey s = do {
     ps \<leftarrow> those (map (\<lambda>p. do {
            k \<leftarrow> ptype p;
            Some (param_kind_byte (pkind p) #
              (if hasDefault p then ''='' else []) @ k @ '';'')
          }) (params s));
     st \<leftarrow> (case star s of None \<Rightarrow> Some [] | Some k \<Rightarrow> map_option (\<lambda>k. CHR ''*'' # k) k);
     ss \<leftarrow> (case starstar s of None \<Rightarrow> Some [] | Some k \<Rightarrow> map_option (\<lambda>k. ''**'' @ k) k);
     r \<leftarrow> ret s;
     Some (concat ps @ st @ ss @ ''->'' @ r @
       (if mayRaise s then ''!'' else []) @ (if mayYield s then ''~'' else []))
   }"

definition body_key ::
  "kind \<Rightarrow> class_ref option \<Rightarrow> string option list \<Rightarrow> string option signature option \<Rightarrow> bool \<Rightarrow> string option"
where
  "body_key k c es s v =
     (case k of
        KindClass \<Rightarrow> map_option (\<lambda>c. CHR '':'' # cname c) c
      | KindProto \<Rightarrow> map_option (\<lambda>c. CHR '':'' # cname c) c
      | KindList \<Rightarrow> map_option (\<lambda>es. ''<'' @ strings_join es '','' @ ''>'') (those es)
      | KindSet \<Rightarrow> map_option (\<lambda>es. ''<'' @ strings_join es '','' @ ''>'') (those es)
      | KindDict \<Rightarrow>
          (case es of
             a # b # _ \<Rightarrow> do { a \<leftarrow> a; b \<leftarrow> b; Some (''<'' @ a @ '','' @ b @ ''>'') }
           | _ \<Rightarrow> None)
      | KindTuple \<Rightarrow> map_option (\<lambda>es. ''('' @ strings_join es '','' @ (if v then ''...'' else []) @ '')'') (those es)
      | KindUnion \<Rightarrow> map_option (\<lambda>es. ''{'' @ strings_join es ''|'' @ ''}'') (those es)
      | KindCallable \<Rightarrow> do { s \<leftarrow> s; b \<leftarrow> sig_writeKey s; Some (''['' @ b @ '']'') }
      | _ \<Rightarrow> Some [])"

primrec writeKey :: "ty \<Rightarrow> string option" where
  "writeKey (Type k c es s v r i) =
     map_option
       (\<lambda>b. kind_byte k #
          (if r \<noteq> 0 then [CHR ''#'', char_of (48 + unat r)] else []) @ b)
       (body_key k c (map writeKey es) (map_option (map_signature writeKey) s) v)"

definition key :: "ty \<Rightarrow> string option" where
  "key t = writeKey t"

definition sortKeys :: "ty list \<Rightarrow> ty list" where
  "sortKeys ts = sort_slice (\<lambda>a b. key a < key b) ts"

section \<open>Rendering\<close>

definition refineString :: "refine \<Rightarrow> string" where
  "refineString r =
     (let names =
        (if r AND RefineAsciiOnly \<noteq> 0 then [''ascii''] else []) @
        (if r AND RefineNonNegative \<noteq> 0 then [''nonneg''] else []) @
        (if r AND RefineKnownLen \<noteq> 0 then [''knownlen''] else []) @
        (if r AND RefineExactType \<noteq> 0 then [''exact''] else [])
      in ''{'' @ strings_join names '','' @ ''}'')"

definition sig_String :: "string option signature \<Rightarrow> string option" where
  "sig_String s = do {
     ps \<leftarrow> those (map (\<lambda>p. map_option (\<lambda>q. if hasDefault p then q @ ''=?'' else q) (ptype p)) (params s));
     st \<leftarrow> (case star s of None \<Rightarrow> Some [] | Some q \<Rightarrow> map_option (\<lambda>q. [''*'' @ q]) q);
     ss \<leftarrow> (case starstar s of None \<Rightarrow> Some [] | Some q \<Rightarrow> map_option (\<lambda>q. [''**'' @ q]) q);
     r \<leftarrow> ret s;
     Some (''('' @ strings_join (ps @ st @ ss) '', '' @ '') -> '' @ r @
       (if mayRaise s then '' !raise'' else []) @ (if mayYield s then '' ~yield'' else []))
   }"

definition baseString ::
  "kind \<Rightarrow> class_ref option \<Rightarrow> string option list \<Rightarrow> string option signature option \<Rightarrow> bool \<Rightarrow> string option"
where
  "baseString k c es s v =
     (case k of
        KindNever \<Rightarrow> Some ''Never''
      | KindNone \<Rightarrow> Some ''None''
      | KindBool \<Rightarrow> Some ''bool''
      | KindInt \<Rightarrow> Some ''int''
      | KindFloat \<Rightarrow> Some ''float''
      | KindComplex \<Rightarrow> Some ''complex''
      | KindStr \<Rightarrow> Some ''str''
      | KindBytes \<Rightarrow> Some ''bytes''
      | KindDyn \<Rightarrow> Some ''Dyn''
      | KindClass \<Rightarrow> map_option cname c
      | KindProto \<Rightarrow> map_option cname c
      | KindList \<Rightarrow> (case es of e # _ \<Rightarrow> map_option (\<lambda>e. ''list['' @ e @ '']'') e | [] \<Rightarrow> None)
      | KindSet \<Rightarrow> (case es of e # _ \<Rightarrow> map_option (\<lambda>e. ''set['' @ e @ '']'') e | [] \<Rightarrow> None)
      | KindDict \<Rightarrow>
          (case es of
             a # b # _ \<Rightarrow> do { a \<leftarrow> a; b \<leftarrow> b; Some (''dict['' @ a @ '', '' @ b @ '']'') }
           | _ \<Rightarrow> None)
      | KindTuple \<Rightarrow> do {
          parts \<leftarrow> those es;
          if v then (case parts of p # _ \<Rightarrow> Some (''tuple['' @ p @ '', ...]'') | [] \<Rightarrow> None)
          else Some (''tuple['' @ strings_join parts '', '' @ '']'')
        }
      | KindUnion \<Rightarrow> map_option (\<lambda>parts. strings_join parts '' | '') (those es)
      | KindCallable \<Rightarrow> Option.bind s sig_String)"

primrec type_String :: "ty \<Rightarrow> string option" where
  "type_String (Type k c es s v r i) =
     map_option (\<lambda>b. if r = 0 then b else b @ refineString r)
       (baseString k c (map type_String es) (map_option (map_signature type_String) s) v)"

section \<open>Well-formed types\<close>

text \<open>The fields a kind does not use are empty, the others have the arity the constructors
  of \<^verbatim>\<open>interner.go\<close> give them, and class names contain none of the characters that end a key
  inside another one. A name may be a dotted path.\<close>

definition key_delims :: "char list" where
  "key_delims = '',>)|};*-!~]''"

definition name_ok :: "string \<Rightarrow> bool" where
  "name_ok n \<longleftrightarrow> set n \<inter> set key_delims = {} \<and> (n = [] \<or> last n \<noteq> CHR ''.'')"

definition shape_ok :: "kind \<Rightarrow> class_ref option \<Rightarrow> 't list \<Rightarrow> 's option \<Rightarrow> bool \<Rightarrow> bool" where
  "shape_ok k c es s v \<longleftrightarrow>
     (case c of None \<Rightarrow> k \<noteq> KindClass \<and> k \<noteq> KindProto
              | Some c \<Rightarrow> (k = KindClass \<or> k = KindProto) \<and> name_ok (cname c)) \<and>
     (es = [] \<or> k \<in> {KindList, KindSet, KindDict, KindTuple, KindUnion}) \<and>
     (k = KindDict \<longrightarrow> length es = 2) \<and>
     ((s \<noteq> None) = (k = KindCallable)) \<and>
     (v \<longrightarrow> k = KindTuple \<and> length es = 1)"

primrec wf_ty :: "ty \<Rightarrow> bool" where
  "wf_ty (Type k c es s v r i) \<longleftrightarrow>
     shape_ok k c es s v \<and> list_all (\<lambda>b. b) (map wf_ty es) \<and>
     pred_option (pred_signature (\<lambda>b. b)) (map_option (map_signature wf_ty) s)"

lemma wf_ty_iff:
  "wf_ty t \<longleftrightarrow> shape_ok (kind t) (tclass t) (elems t) (tsig t) (variadic t) \<and>
     (\<forall>e\<in>set (elems t). wf_ty e) \<and> (\<forall>s. tsig t = Some s \<longrightarrow> (\<forall>e\<in>set_signature s. wf_ty e))"
  by (cases t) (auto simp: list_all_iff option.pred_set signature.pred_set signature.set_map)

section \<open>Reading a key back\<close>

text \<open>\<open>key_stop x\<close>: what may follow the key of a type inside a larger key.\<close>

definition key_stop :: "string \<Rightarrow> bool" where
  "key_stop x \<longleftrightarrow> x = [] \<or> hd x \<in> set key_delims \<or> take 4 x = ''...)''"

lemma key_stop_simps [simp]:
  "key_stop []" "key_stop (CHR '','' # x)" "key_stop (CHR ''>'' # x)" "key_stop (CHR '')'' # x)"
  "key_stop (CHR ''|'' # x)" "key_stop (CHR ''}'' # x)" "key_stop (CHR '';'' # x)"
  "key_stop (CHR ''*'' # x)" "key_stop (CHR ''-'' # x)" "key_stop (CHR ''!'' # x)"
  "key_stop (CHR ''~'' # x)" "key_stop (CHR '']'' # x)"
  "key_stop (CHR ''.'' # CHR ''.'' # CHR ''.'' # CHR '')'' # x)"
  by (simp_all add: key_stop_def key_delims_def)

lemma not_key_stop: "key_stop (CHR ''#'' # x) \<Longrightarrow> False"
  by (simp add: key_stop_def key_delims_def)

text \<open>A name cannot run into what follows it.\<close>

lemma name_no_overrun:
  assumes "name_ok (n @ z)" and "z \<noteq> []" and "key_stop (z @ y)"
  shows False
proof -
  obtain c z' where z: "z = c # z'" using assms(2) by (cases z) auto
  have delim: "d \<notin> set key_delims" if "d \<in> set z" for d
    using assms(1) that by (auto simp: name_ok_def)
  with assms(3) z have "take 4 (z @ y) = ''...)''" by (auto simp: key_stop_def)
  then have t: "take (length z) (take 4 (z @ y)) = take (length z) ''...)''" by simp
  have "length z \<le> 3"
  proof (rule ccontr)
    assume "\<not> length z \<le> 3"
    then have "take 4 z = ''...)''" using \<open>take 4 (z @ y) = ''...)''\<close> by simp
    then have "CHR '')'' \<in> set (take 4 z)" by simp
    then have "CHR '')'' \<in> set z" by (meson in_set_takeD)
    with delim show False by (fastforce simp: key_delims_def)
  qed
  with t have "z = take (length z) ''...)''" by simp
  moreover have "length z \<noteq> 0" using assms(2) by simp
  with \<open>length z \<le> 3\<close> have "length z = 1 \<or> length z = 2 \<or> length z = 3" by linarith
  ultimately have "last z = CHR ''.''" 
    by (metis last_ConsL last_ConsR list.distinct(1) numeral_2_eq_2 numeral_3_eq_3 One_nat_def
        take_Suc_Cons take_0)
  with assms(1,2) show False by (auto simp: name_ok_def)
qed

lemma name_read:
  assumes "name_ok n" "name_ok m" "key_stop x" "key_stop y" "n @ x = m @ y"
  shows "n = m \<and> x = y"
proof -
  obtain z where "n = m @ z \<and> z @ x = y \<or> n @ z = m \<and> x = z @ y"
    using assms(5) by (auto simp: append_eq_append_conv2)
  with assms name_no_overrun show ?thesis by (cases "z = []") auto
qed

text \<open>\<open>reads k l\<close>: in any two contexts that may follow a key, \<open>k\<close> and \<open>l\<close> are told apart.\<close>

definition reads :: "string \<Rightarrow> string \<Rightarrow> bool" where
  "reads k l \<longleftrightarrow> (\<forall>x y. key_stop x \<longrightarrow> key_stop y \<longrightarrow> k @ x = l @ y \<longrightarrow> k = l \<and> x = y)"

lemma readsD: "reads k l \<Longrightarrow> k @ x = l @ y \<Longrightarrow> key_stop x \<Longrightarrow> key_stop y \<Longrightarrow> k = l \<and> x = y"
  by (auto simp: reads_def)

definition kind_char :: "char \<Rightarrow> bool" where
  "kind_char c \<longleftrightarrow> 65 \<le> (of_char c :: nat) \<and> (of_char c :: nat) \<le> 81"

definition headed :: "string \<Rightarrow> bool" where
  "headed k \<longleftrightarrow> k \<noteq> [] \<and> kind_char (hd k)"

lemma strings_join_Cons: "strings_join (k # ks) c = k @ (if ks = [] then [] else c @ strings_join ks c)"
  by (cases ks) auto

text \<open>A separated list of keys closed by something that is neither the separator nor the
  start of a key.\<close>

lemma join_read:
  assumes "\<forall>k\<in>set ks. headed k" and "\<forall>l\<in>set ls. headed l"
    and "\<forall>k\<in>set ks. \<forall>l\<in>set ls. reads k l"
    and "c \<in> {CHR '','', CHR ''|''}"
    and "key_stop X" "X \<noteq> []" "hd X \<noteq> c" "key_stop Y" "Y \<noteq> []" "hd Y \<noteq> c"
    and "\<not> kind_char (hd X)" "\<not> kind_char (hd Y)"
    and "strings_join ks [c] @ X = strings_join ls [c] @ Y"
  shows "ks = ls \<and> X = Y"
  using assms
proof (induction ks arbitrary: ls)
  case Nil
  from Nil(2,11,13) show ?case
    by (cases ls; cases "hd ls") (auto simp: strings_join_Cons headed_def)
next
  case (Cons k ks)
  show ?case
  proof (cases ls)
    case Nil
    with Cons.prems(1,12,13) show ?thesis by (cases k) (auto simp: strings_join_Cons headed_def)
  next
    case (Cons l ls')
    let ?x = "(if ks = [] then [] else [c] @ strings_join ks [c]) @ X"
    let ?y = "(if ls' = [] then [] else [c] @ strings_join ls' [c]) @ Y"
    have stops: "key_stop ?x" "key_stop ?y" using Cons.prems(4-12) by auto
    have "k @ ?x = l @ ?y" using Cons.prems(13) Cons by (simp add: strings_join_Cons)
    moreover have "reads k l" using Cons.prems(3) Cons by simp
    ultimately have eq: "k = l" "?x = ?y" using readsD stops by blast+
    have *: "ks = [] \<longleftrightarrow> ls' = []"
      using eq(2) Cons.prems(6,7,9,10) by (auto split: if_splits)
    have "ks = ls' \<and> X = Y"
    proof (cases "ks = []")
      case True
      with * eq(2) show ?thesis by simp
    next
      case False
      with * eq(2) have "strings_join ks [c] @ X = strings_join ls' [c] @ Y" by simp
      with Cons.prems Cons show ?thesis by (intro Cons.IH) auto
    qed
    with eq(1) Cons show ?thesis by simp
  qed
qed

text \<open>The rendering of a signature, over the keys of its parts.\<close>

definition param_key :: "string param \<Rightarrow> string" where
  "param_key p = param_kind_byte (pkind p) #
     (if hasDefault p then ''='' else []) @ ptype p @ '';''"

definition opt_key :: "string \<Rightarrow> string option \<Rightarrow> string" where
  "opt_key pre k = (case k of None \<Rightarrow> [] | Some k \<Rightarrow> pre @ k)"

definition tail_key :: "string signature \<Rightarrow> string" where
  "tail_key s = opt_key ''*'' (star s) @ opt_key ''**'' (starstar s) @ ''->'' @ ret s @
     (if mayRaise s then ''!'' else []) @ (if mayYield s then ''~'' else [])"

definition sig_key :: "string signature \<Rightarrow> string" where
  "sig_key s = concat (map param_key (params s)) @ tail_key s"

definition nameless :: "'t signature \<Rightarrow> 't signature" where
  "nameless s = Signature (map (\<lambda>p. Param [] (ptype p) (pkind p) (hasDefault p)) (params s))
     (star s) (starstar s) (ret s) (mayRaise s) (mayYield s)"

lemma those_map_Some [simp]: "those (map (\<lambda>x. Some (f x)) xs) = Some (map f xs)"
  by (induction xs) auto

lemma sig_writeKey_Some: "sig_writeKey (map_signature Some s) = Some (sig_key s)"
  by (cases s)
    (auto simp: sig_writeKey_def sig_key_def tail_key_def param_key_def [abs_def] opt_key_def
      param.map_sel o_def split: option.splits)

lemma param_kind_byte_inj [simp]: "param_kind_byte a = param_kind_byte b \<longleftrightarrow> a = b"
  by (cases a; cases b) (simp_all add: param_kind_byte_def)

lemma param_kind_byte_neq [simp]:
  "param_kind_byte a \<noteq> CHR ''*''" "param_kind_byte a \<noteq> CHR ''-''"
  "CHR ''*'' \<noteq> param_kind_byte a" "CHR ''-'' \<noteq> param_kind_byte a"
  by (cases a; simp add: param_kind_byte_def char_of_eq_iff take_bit_eq_mod
      eq_commute [of "CHR ''*''"] eq_commute [of "CHR ''-''"])+

lemma kind_byte_inj [simp]: "kind_byte a = kind_byte b \<longleftrightarrow> a = b"
  by (cases a; cases b) (simp_all add: kind_byte_def)

lemma kind_char_kind_byte [simp]: "kind_char (kind_byte k)"
  by (cases k) (simp_all add: kind_byte_def kind_char_def)

lemma headed_simps: "headed k \<Longrightarrow> \<exists>c k'. k = c # k' \<and> kind_char c"
  by (cases k) (auto simp: headed_def)

lemma not_kind_char [simp]:
  "\<not> kind_char CHR ''*''" "\<not> kind_char CHR ''-''" "\<not> kind_char CHR ''=''" "\<not> kind_char CHR ''>''"
  "\<not> kind_char CHR '')''" "\<not> kind_char CHR ''}''" "\<not> kind_char CHR ''.''"
  by (simp_all add: kind_char_def)

lemma params_read:
  assumes "\<forall>p\<in>set ps. headed (ptype p)" and "\<forall>q\<in>set qs. headed (ptype q)"
    and "\<forall>p\<in>set ps. \<forall>q\<in>set qs. reads (ptype p) (ptype q)"
    and "X \<noteq> []" "hd X \<in> {CHR ''*'', CHR ''-''}" "Y \<noteq> []" "hd Y \<in> {CHR ''*'', CHR ''-''}"
    and "concat (map param_key ps) @ X = concat (map param_key qs) @ Y"
  shows "map (\<lambda>p. Param [] (ptype p) (pkind p) (hasDefault p)) ps =
    map (\<lambda>p. Param [] (ptype p) (pkind p) (hasDefault p)) qs \<and> X = Y"
  using assms
proof (induction ps arbitrary: qs)
  case Nil
  then show ?case by (cases qs) (auto simp: param_key_def)
next
  case (Cons p ps)
  show ?case
  proof (cases qs)
    case Nil
    with Cons.prems show ?thesis by (auto simp: param_key_def)
  next
    case (Cons q qs')
    let ?x = "'';'' @ concat (map param_key ps) @ X" and ?y = "'';'' @ concat (map param_key qs') @ Y"
    have "headed (ptype p)" "headed (ptype q)" using Cons.prems(1,2) Cons by auto
    then obtain a p' b q' where hd: "ptype p = a # p'" "kind_char a" "ptype q = b # q'" "kind_char b"
      by (metis headed_simps)
    have "(if hasDefault p then ''='' else []) @ ptype p @ ?x =
        (if hasDefault q then ''='' else []) @ ptype q @ ?y"
      and kind: "pkind p = pkind q"
      using Cons.prems(8) Cons by (simp_all add: param_key_def [of p] param_key_def [of q])
    with hd have "hasDefault p = hasDefault q" "ptype p @ ?x = ptype q @ ?y"
      by (auto split: if_splits)
    moreover have "reads (ptype p) (ptype q)" using Cons.prems(3) Cons by simp
    ultimately have "ptype p = ptype q" "?x = ?y" using readsD [of "ptype p" "ptype q" ?x ?y] by auto
    moreover from this(2) Cons.prems Cons
    have "map (\<lambda>p. Param [] (ptype p) (pkind p) (hasDefault p)) ps =
        map (\<lambda>p. Param [] (ptype p) (pkind p) (hasDefault p)) qs' \<and> X = Y"
      by (intro Cons.IH) auto
    ultimately show ?thesis using Cons kind \<open>hasDefault p = hasDefault q\<close> by simp
  qed
qed

lemma opt_key_simps [simp]: "opt_key p None = []" "opt_key p (Some k) = p @ k"
  by (simp_all add: opt_key_def)

lemma flags_read:
  assumes "(if a then ''!'' else []) @ (if b then ''~'' else []) @ '']'' @ x =
    (if a' then ''!'' else []) @ (if b' then ''~'' else []) @ '']'' @ y"
  shows "a = a' \<and> b = b' \<and> x = y"
  using assms by (cases a; cases b; cases a'; cases b') auto

lemma tail_read:
  assumes h: "\<forall>k\<in>set_option (star s) \<union> set_option (starstar s). headed k"
      "\<forall>k\<in>set_option (star u) \<union> set_option (starstar u). headed k"
    and r: "\<forall>k\<in>set_option (star s). \<forall>l\<in>set_option (star u). reads k l"
      "\<forall>k\<in>set_option (starstar s). \<forall>l\<in>set_option (starstar u). reads k l"
      "reads (ret s) (ret u)"
    and eq: "tail_key s @ '']'' @ x = tail_key u @ '']'' @ y"
  shows "star s = star u \<and> starstar s = starstar u \<and> ret s = ret u \<and>
    mayRaise s = mayRaise u \<and> mayYield s = mayYield u \<and> x = y"
proof -
  let ?f = "\<lambda>s x. (if mayRaise s then ''!'' else []) @ (if mayYield s then ''~'' else []) @ '']'' @ x"
  let ?r = "\<lambda>s x. ''->'' @ ret s @ ?f s x"
  let ?ss = "\<lambda>s x. opt_key ''**'' (starstar s) @ ?r s x"
  have stop_f: "key_stop (?f s x)" for s :: "string signature" and x by simp
  have stop_r: "key_stop (?r s x)" for s x by simp
  have stop_ss: "key_stop (?ss s x)" for s x by (cases "starstar s") auto
  have eq0: "opt_key ''*'' (star s) @ ?ss s x = opt_key ''*'' (star u) @ ?ss u y"
    using eq by (simp add: tail_key_def)
  have "star s = star u \<and> ?ss s x = ?ss u y"
  proof (cases "star s"; cases "star u")
    fix k l assume "star s = Some k" "star u = Some l"
    with eq0 r(1) show ?thesis using readsD [of k l "?ss s x" "?ss u y"] stop_ss by simp
  qed (use eq0 h in \<open>cases "starstar s"; cases "starstar u"; auto simp: headed_def neq_Nil_conv\<close>)+
  moreover from this have "starstar s = starstar u \<and> ?r s x = ?r u y"
  proof (cases "starstar s"; cases "starstar u")
    fix k l assume "starstar s = Some k" "starstar u = Some l"
    with calculation r(2) show ?thesis using readsD [of k l "?r s x" "?r u y"] stop_r by simp
  qed auto
  moreover from this have "ret s = ret u \<and> ?f s x = ?f u y"
    using readsD [OF r(3), of "?f s x" "?f u y"] stop_f by simp
  ultimately show ?thesis using flags_read by blast
qed

lemma set_param_eq [simp]: "set_param p = {ptype p}"
  by (cases p) simp

lemma set_sig: "set_signature s = ptype ` set (params s) \<union> set_option (star s) \<union>
    set_option (starstar s) \<union> {ret s}"
  by (cases s) auto

lemma sig_read:
  assumes "\<forall>k\<in>set_signature s \<union> set_signature u. headed k"
    and "\<forall>k\<in>set_signature s. \<forall>l\<in>set_signature u. reads k l"
    and "sig_key s @ '']'' @ x = sig_key u @ '']'' @ y"
  shows "nameless s = nameless u \<and> x = y"
proof -
  have tail_hd: "tail_key s @ z \<noteq> [] \<and> hd (tail_key s @ z) \<in> {CHR ''*'', CHR ''-''}"
    for s :: "string signature" and z
    by (cases "star s"; cases "starstar s") (simp_all add: tail_key_def)
  have "map (\<lambda>p. Param [] (ptype p) (pkind p) (hasDefault p)) (params s) =
      map (\<lambda>p. Param [] (ptype p) (pkind p) (hasDefault p)) (params u) \<and>
      tail_key s @ '']'' @ x = tail_key u @ '']'' @ y"
    using assms tail_hd by (intro params_read) (auto simp: sig_key_def set_sig)
  moreover from this have "star s = star u \<and> starstar s = starstar u \<and> ret s = ret u \<and>
      mayRaise s = mayRaise u \<and> mayYield s = mayYield u \<and> x = y"
    using assms by (intro tail_read) (auto simp: set_sig)
  ultimately show ?thesis by (simp add: nameless_def)
qed

text \<open>The key of a well-formed type as a total function of the keys of its parts.\<close>

definition body_str :: "kind \<Rightarrow> class_ref option \<Rightarrow> string list \<Rightarrow> string signature option \<Rightarrow> bool \<Rightarrow> string" where
  "body_str k c es s v =
     (if k = KindClass \<or> k = KindProto then '':'' @ cname (the c)
      else if k = KindList \<or> k = KindSet \<or> k = KindDict then ''<'' @ strings_join es '','' @ ''>''
      else if k = KindTuple then ''('' @ strings_join es '','' @ (if v then ''...'' else []) @ '')''
      else if k = KindUnion then ''{'' @ strings_join es ''|'' @ ''}''
      else if k = KindCallable then ''['' @ sig_key (the s) @ '']''
      else [])"

definition bits_str :: "refine \<Rightarrow> string" where
  "bits_str r = (if r \<noteq> 0 then [CHR ''#'', char_of (48 + unat r)] else [])"

primrec key_str :: "ty \<Rightarrow> string" where
  "key_str (Type k c es s v r i) =
     kind_byte k # bits_str r @ body_str k c (map key_str es) (map_option (map_signature key_str) s) v"

lemma those_map_Some' [simp]: "those (map Some xs) = Some xs"
  by (induction xs) auto

lemma body_key_Some:
  assumes "shape_ok k c es s v"
  shows "body_key k c (map Some es) (map_option (map_signature Some) s) v = Some (body_str k c es s v)"
proof (cases k)
  case KindDict
  with assms obtain a b where "es = [a, b]"
    by (auto simp: shape_ok_def length_Suc_conv numeral_2_eq_2)
  with KindDict show ?thesis by (simp add: body_key_def body_str_def)
qed (use assms in \<open>auto simp: body_key_def body_str_def shape_ok_def sig_writeKey_Some
      split: option.splits\<close>)

lemma shape_ok_map: "shape_ok k c (map f es) (map_option g s) v = shape_ok k c es s v"
  by (simp add: shape_ok_def)

lemma key_total: "wf_ty t \<Longrightarrow> key t = Some (key_str t)"
proof (induction t)
  case (Type k c es s v r i)
  have wf: "wf_ty e" if "e \<in> set es \<or> (\<exists>s'. s = Some s' \<and> e \<in> set_signature s')" for e
    using Type.prems that unfolding wf_ty_iff [of "Type k c es s v r i"] by auto
  have es: "map writeKey es = map Some (map key_str es)"
    using Type.IH(1) wf by (simp add: key_def)
  have s: "map_option (map_signature writeKey) s =
      map_option (map_signature Some) (map_option (map_signature key_str) s)"
    using Type.IH(2) wf by (cases s) (auto simp: key_def signature.map_comp intro!: signature.map_cong)
  have "shape_ok k c (map key_str es) (map_option (map_signature key_str) s) v"
    using Type.prems by (simp add: shape_ok_map)
  from body_key_Some [OF this] show ?case
    by (simp add: key_def es s bits_str_def del: map_map)
qed

lemma headed_key_str [simp]: "headed (key_str t)"
  by (cases t) (simp add: headed_def)

lemma body_not_hash:
  assumes "key_stop x"
  shows "body_str k c es s v @ x = [] \<or> hd (body_str k c es s v @ x) \<noteq> CHR ''#''"
proof -
  have "x = [] \<or> hd x \<noteq> CHR ''#''"
    using assms by (cases x) (auto simp: key_stop_def key_delims_def)
  then show ?thesis by (auto simp: body_str_def)
qed

lemma bits_read:
  assumes "bits_str r @ B = bits_str q @ C" and "B = [] \<or> hd B \<noteq> CHR ''#''" and "C = [] \<or> hd C \<noteq> CHR ''#''"
  shows "r = q \<and> B = C"
proof -
  have "r = q" if "char_of (48 + unat r) = (char_of (48 + unat q) :: char)"
  proof -
    have "(of_nat (48 + unat r) :: 8 word) = of_nat (48 + unat q)"
      using that unfolding word_of_nat_eq_iff by (simp add: take_bit_eq_mod)
    then show ?thesis by simp
  qed
  with assms show ?thesis by (auto simp: bits_str_def split: if_splits)
qed

lemma body_read:
  assumes sh: "shape_ok k c es s v" "shape_ok k c' es' s' v'"
    and h: "\<forall>e\<in>set es \<union> set es'. headed e" "\<forall>a\<in>set es. \<forall>b\<in>set es'. reads a b"
    and hs: "\<forall>e\<in>\<Union> (set_signature ` set_option s) \<union> \<Union> (set_signature ` set_option s'). headed e"
      "\<forall>a\<in>\<Union> (set_signature ` set_option s). \<forall>b\<in>\<Union> (set_signature ` set_option s'). reads a b"
    and st: "key_stop x" "key_stop y"
    and eq: "body_str k c es s v @ x = body_str k c' es' s' v' @ y"
  shows "map_option cname c = map_option cname c' \<and> es = es' \<and>
    map_option nameless s = map_option nameless s' \<and> v = v' \<and> x = y"
proof -
  consider (cls) "k = KindClass \<or> k = KindProto" | (seq) "k = KindList \<or> k = KindSet \<or> k = KindDict"
    | (tup) "k = KindTuple" | (uni) "k = KindUnion" | (call) "k = KindCallable"
    | (base) "k \<notin> {KindClass, KindProto, KindList, KindSet, KindDict, KindTuple, KindUnion, KindCallable}"
    by blast
  then show ?thesis
  proof cases
    case cls
    with sh obtain d d' where "c = Some d" "c' = Some d'" "name_ok (cname d)" "name_ok (cname d')"
      "es = []" "es' = []" "s = None" "s' = None" "\<not> v" "\<not> v'"
      by (auto simp: shape_ok_def split: option.splits)
    with cls eq st name_read [of "cname d" "cname d'" x y] show ?thesis by (auto simp: body_str_def)
  next
    case seq
    then have "es = es' \<and> ''>'' @ x = ''>'' @ y"
      using h eq by (intro join_read [where c = "CHR '',''"]) (auto simp: body_str_def)
    with seq sh show ?thesis by (auto simp: shape_ok_def split: option.splits)
  next
    case tup
    then have "es = es' \<and> (if v then ''...'' else []) @ '')'' @ x = (if v' then ''...'' else []) @ '')'' @ y"
      using h eq by (intro join_read [where c = "CHR '',''"]) (auto simp: body_str_def)
    with tup sh show ?thesis by (auto simp: shape_ok_def split: option.splits if_splits)
  next
    case uni
    then have "es = es' \<and> ''}'' @ x = ''}'' @ y"
      using h eq by (intro join_read [where c = "CHR ''|''"]) (auto simp: body_str_def)
    with uni sh show ?thesis by (auto simp: shape_ok_def split: option.splits)
  next
    case call
    with sh obtain u u' where u: "s = Some u" "s' = Some u'" by (auto simp: shape_ok_def)
    with call eq hs have "nameless u = nameless u' \<and> x = y"
      by (intro sig_read) (auto simp: body_str_def)
    with u call sh show ?thesis by (auto simp: shape_ok_def split: option.splits)
  next
    case base
    with sh eq show ?thesis by (auto simp: shape_ok_def body_str_def split: option.splits)
  qed
qed

text \<open>Agreement of two types at the top level, with their parts given by their keys.\<close>

definition same_top :: "ty \<Rightarrow> ty \<Rightarrow> bool" where
  "same_top t u \<longleftrightarrow> kind t = kind u \<and> refine t = refine u \<and> variadic t = variadic u \<and>
     map_option cname (tclass t) = map_option cname (tclass u) \<and>
     map key_str (elems t) = map key_str (elems u) \<and>
     map_option (nameless \<circ> map_signature key_str) (tsig t) =
       map_option (nameless \<circ> map_signature key_str) (tsig u)"

lemma sig_key_nameless: "sig_key (nameless s) = sig_key s"
  by (simp add: sig_key_def nameless_def tail_key_def param_key_def [abs_def] o_def)

lemma same_top_key_str:
  assumes "same_top a b"
  shows "key_str a = key_str b"
proof (cases a; cases b)
  fix k c es s v r i k' c' es' s' v' r' i'
  assume t: "a = Type k c es s v r i" "b = Type k' c' es' s' v' r' i'"
  have "cname (the c) = cname (the c')"
    using assms t by (cases c; cases c') (auto simp: same_top_def)
  moreover have "sig_key (the (map_option (map_signature key_str) s)) =
      sig_key (the (map_option (map_signature key_str) s'))"
    using assms t by (cases s; cases s') (auto simp: same_top_def dest!: arg_cong [of _ _ sig_key] simp: sig_key_nameless)
  ultimately show ?thesis using assms t by (simp add: same_top_def body_str_def)
qed

lemma key_str_read:
  assumes "wf_ty t" and "wf_ty u" and "key_stop x" and "key_stop y"
    and "key_str t @ x = key_str u @ y"
  shows "same_top t u \<and> x = y"
  using assms
proof (induction t arbitrary: u x y)
  case (Type k c es s v r i)
  obtain k' c' es' s' v' r' i' where u: "u = Type k' c' es' s' v' r' i'" by (cases u)
  let ?S = "map_option (map_signature key_str) s" and ?S' = "map_option (map_signature key_str) s'"
  let ?b = "body_str k c (map key_str es) ?S v" and ?b' = "body_str k' c' (map key_str es') ?S' v'"
  have wf: "wf_ty e" if "e \<in> set es \<or> (\<exists>s'. s = Some s' \<and> e \<in> set_signature s')" for e
    using Type.prems(1) that unfolding wf_ty_iff [of "Type k c es s v r i"] by auto
  have wf': "wf_ty e" if "e \<in> set es' \<or> (\<exists>s. s' = Some s \<and> e \<in> set_signature s)" for e
    using Type.prems(2) that unfolding u wf_ty_iff [of "Type k' c' es' s' v' r' i'"] by auto
  have rd: "reads (key_str a) (key_str b)"
    if "a \<in> set es \<or> (\<exists>s'. s = Some s' \<and> a \<in> set_signature s')" and "wf_ty b" for a b
    using that wf Type.IH same_top_key_str unfolding reads_def by (metis option.set_intros)
  have k: "k = k'" and bits: "bits_str r @ ?b @ x = bits_str r' @ ?b' @ y"
    using Type.prems(5) by (auto simp: u)
  have r: "r = r'" and b: "?b @ x = ?b' @ y"
    using bits_read [OF bits body_not_hash body_not_hash] Type.prems(3,4) by blast+
  have "map_option cname c = map_option cname c' \<and> map key_str es = map key_str es' \<and>
      map_option nameless ?S = map_option nameless ?S' \<and> v = v' \<and> x = y"
  proof (rule body_read [of k])
    show "shape_ok k c (map key_str es) ?S v" "shape_ok k c' (map key_str es') ?S' v'"
      using Type.prems(1,2) k by (simp_all add: u shape_ok_map)
    show "?b @ x = body_str k c' (map key_str es') ?S' v' @ y" using b k by simp
    show "\<forall>a\<in>set (map key_str es). \<forall>b\<in>set (map key_str es'). reads a b" using rd wf' by auto
    show "\<forall>a\<in>\<Union> (set_signature ` set_option ?S). \<forall>b\<in>\<Union> (set_signature ` set_option ?S'). reads a b"
      using rd wf' by (auto simp: signature.set_map)
  qed (use Type.prems(3,4) in \<open>auto simp: signature.set_map\<close>)
  with k r show ?case by (simp add: same_top_def u option.map_comp o_def)
qed

end
