(* ===== verification/Interner.thy ===== *)
theory Interner
  imports Lattice
begin

text \<open>
  \<^verbatim>\<open>pkg/types/interner.go\<close>: the hash-consing table of the lattice, its class table, the type
  constructors and the refinement operations.

  The struct \<open>Interner\<close> is a record. The map \<open>byKey\<close> is a partial function, the class table an
  association list (its length is \<open>len(in.classes)\<close>), the two memo tables partial functions on
  id pairs. The base singletons are an extension of the record: \<open>NewInterner\<close> interns them in
  the bare table and then adds the fields. Every operation takes the state and returns the
  result with the new state; \<^const>\<open>None\<close> is a Go panic.

  The invariant \<open>wf\<close> says that the table is closed under parts and that the key decides
  identity; \<open>intern_spec\<close> shows that interning a template returns the one table entry that
  agrees with it, and the locale \<open>consing\<close> turns this into the statement that structural
  equality is pointer equality.
\<close>

section \<open>State\<close>

record hashcons =
  byKey :: "string \<Rightarrow> ty option"
  byID :: "ty list"
  classes :: "(string \<times> class_ref) list"
  joinMemo :: "nat \<times> nat \<Rightarrow> ty option"
  meetMemo :: "nat \<times> nat \<Rightarrow> ty option"

record interner = hashcons +
  in_never :: ty
  in_none :: ty
  in_bool :: ty
  in_int :: ty
  in_float :: ty
  in_complex :: ty
  in_str :: ty
  in_bytes :: ty
  in_dyn :: ty

section \<open>Interning\<close>

definition with_id :: "nat \<Rightarrow> ty \<Rightarrow> ty" where
  "with_id i t = Type (kind t) (tclass t) (elems t) (tsig t) (variadic t) (refine t) i"

definition intern :: "ty \<Rightarrow> 'z hashcons_scheme \<Rightarrow> (ty \<times> 'z hashcons_scheme) option" where
  "intern t s = do {
     k \<leftarrow> key t;
     case byKey s k of
       Some existing \<Rightarrow> Some (existing, s)
     | None \<Rightarrow>
         let t = with_id (length (byID s)) t
         in Some (t, s\<lparr>byKey := (byKey s)(k \<mapsto> t), byID := byID s @ [t]\<rparr>)
   }"

definition atom :: "kind \<Rightarrow> ty" where
  "atom k = Type k None [] None False 0 0"

definition NewInterner :: "interner option" where
  "NewInterner = do {
     let s = \<lparr>byKey = (\<lambda>_. None), byID = [], classes = [], joinMemo = (\<lambda>_. None), meetMemo = (\<lambda>_. None)\<rparr>;
     (never, s) \<leftarrow> intern (atom KindNever) s;
     (none, s) \<leftarrow> intern (atom KindNone) s;
     (bool, s) \<leftarrow> intern (atom KindBool) s;
     (int, s) \<leftarrow> intern (atom KindInt) s;
     (float, s) \<leftarrow> intern (atom KindFloat) s;
     (complex, s) \<leftarrow> intern (atom KindComplex) s;
     (str, s) \<leftarrow> intern (atom KindStr) s;
     (bytes, s) \<leftarrow> intern (atom KindBytes) s;
     (dyn, s) \<leftarrow> intern (atom KindDyn) s;
     Some (hashcons.extend s (interner.fields never none bool int float complex str bytes dyn))
   }"

definition Lookup :: "nat \<Rightarrow> 'z hashcons_scheme \<Rightarrow> ty option" where
  "Lookup i s = (if length (byID s) \<le> i then None else Some (byID s ! i))"

definition interner_Len :: "'z hashcons_scheme \<Rightarrow> nat" where
  "interner_Len s = length (byID s)"

section \<open>Classes and constructors\<close>

definition classRef :: "string \<Rightarrow> string list \<Rightarrow> 'z hashcons_scheme \<Rightarrow> class_ref \<times> 'z hashcons_scheme" where
  "classRef name mro s =
     (case map_of (classes s) name of
        Some ref \<Rightarrow> (ref, s)
      | None \<Rightarrow>
          let mro = (if mro = [] then [name] else mro);
              ref = ClassRef name mro (length (classes s))
          in (ref, s\<lparr>classes := (name, ref) # classes s\<rparr>))"

definition Class :: "string \<Rightarrow> string list \<Rightarrow> 'z hashcons_scheme \<Rightarrow> (ty \<times> 'z hashcons_scheme) option" where
  "Class name mro s =
     (let (ref, s) = classRef name mro s
      in intern (Type KindClass (Some ref) [] None False 0 0) s)"

definition Proto :: "string \<Rightarrow> 'z hashcons_scheme \<Rightarrow> (ty \<times> 'z hashcons_scheme) option" where
  "Proto name s =
     (let (ref, s) = classRef name [name] s
      in intern (Type KindProto (Some ref) [] None False 0 0) s)"

definition ListN :: "ty list \<Rightarrow> 'z hashcons_scheme \<Rightarrow> (ty \<times> 'z hashcons_scheme) option" where
  "ListN es s = intern (Type KindList None es None False 0 0) s"

definition List :: "ty \<Rightarrow> 'z hashcons_scheme \<Rightarrow> (ty \<times> 'z hashcons_scheme) option" where
  "List e s = ListN [e] s"

definition Set :: "ty \<Rightarrow> 'z hashcons_scheme \<Rightarrow> (ty \<times> 'z hashcons_scheme) option" where
  "Set e s = intern (Type KindSet None [e] None False 0 0) s"

definition Dict :: "ty \<Rightarrow> ty \<Rightarrow> 'z hashcons_scheme \<Rightarrow> (ty \<times> 'z hashcons_scheme) option" where
  "Dict k v s = intern (Type KindDict None [k, v] None False 0 0) s"

definition Tuple :: "ty list \<Rightarrow> 'z hashcons_scheme \<Rightarrow> (ty \<times> 'z hashcons_scheme) option" where
  "Tuple ps s = intern (Type KindTuple None ps None False 0 0) s"

definition TupleVar :: "ty \<Rightarrow> 'z hashcons_scheme \<Rightarrow> (ty \<times> 'z hashcons_scheme) option" where
  "TupleVar e s = intern (Type KindTuple None [e] None True 0 0) s"

definition Callable :: "ty signature \<Rightarrow> 'z hashcons_scheme \<Rightarrow> (ty \<times> 'z hashcons_scheme) option" where
  "Callable sig s = intern (Type KindCallable None [] (Some sig) False 0 0) s"

section \<open>Refinement bits\<close>

definition WithRefine :: "ty \<Rightarrow> refine \<Rightarrow> 'z hashcons_scheme \<Rightarrow> (ty \<times> 'z hashcons_scheme) option" where
  "WithRefine t r s =
     (if refine t AND r = r then Some (t, s)
      else intern (Type (kind t) (tclass t) (elems t) (tsig t) (variadic t) (refine t OR r) 0) s)"

definition WithoutRefine :: "ty \<Rightarrow> refine \<Rightarrow> 'z hashcons_scheme \<Rightarrow> (ty \<times> 'z hashcons_scheme) option" where
  "WithoutRefine t r s =
     (if refine t AND r = 0 then Some (t, s)
      else intern (Type (kind t) (tclass t) (elems t) (tsig t) (variadic t) (refine t AND NOT r) 0) s)"

definition stripRefine :: "ty \<Rightarrow> 'z hashcons_scheme \<Rightarrow> (ty \<times> 'z hashcons_scheme) option" where
  "stripRefine t s =
     WithoutRefine t (RefineAsciiOnly OR RefineNonNegative OR RefineKnownLen OR RefineExactType) s"

section \<open>The invariant\<close>

text \<open>\<open>parts t\<close>: the types a type is built from.\<close>

definition parts :: "ty \<Rightarrow> ty set" where
  "parts t = set (elems t) \<union> \<Union> (set_signature ` set_option (tsig t))"

text \<open>\<open>template_ok s t\<close>: what the constructors may hand to \<^const>\<open>intern\<close> in state \<open>s\<close>.\<close>

definition template_ok :: "'z hashcons_scheme \<Rightarrow> ty \<Rightarrow> bool" where
  "template_ok s t \<longleftrightarrow>
     shape_ok (kind t) (tclass t) (elems t) (tsig t) (variadic t) \<and>
     parts t \<subseteq> set (byID s) \<and>
     (\<forall>c. tclass t = Some c \<longrightarrow> map_of (classes s) (cname c) = Some c)"

definition hc_wf :: "'z hashcons_scheme \<Rightarrow> bool" where
  "hc_wf s \<longleftrightarrow>
     (\<forall>i<length (byID s). tid (byID s ! i) = i) \<and>
     (\<forall>k t. byKey s k = Some t \<longleftrightarrow> t \<in> set (byID s) \<and> key t = Some k) \<and>
     (\<forall>t\<in>set (byID s). wf_ty t \<and> template_ok s t) \<and>
     (\<forall>n c. map_of (classes s) n = Some c \<longrightarrow> cname c = n)"

text \<open>\<open>hc_ext s s'\<close>: \<open>s'\<close> is a later state; table entries, class registrations and memo entries
  are never removed or changed.\<close>

definition hc_ext :: "'z hashcons_scheme \<Rightarrow> 'z hashcons_scheme \<Rightarrow> bool" where
  "hc_ext s s' \<longleftrightarrow>
     (\<exists>new. byID s' = byID s @ new) \<and> map_of (classes s) \<subseteq>\<^sub>m map_of (classes s') \<and>
     joinMemo s \<subseteq>\<^sub>m joinMemo s' \<and> meetMemo s \<subseteq>\<^sub>m meetMemo s' \<and> hashcons.more s' = hashcons.more s"

text \<open>\<open>like t u\<close>: agreement up to the id and the parameter names of a signature, which the key
  leaves out.\<close>

definition like :: "ty \<Rightarrow> ty \<Rightarrow> bool" where
  "like t u \<longleftrightarrow> kind t = kind u \<and> tclass t = tclass u \<and> elems t = elems u \<and>
     map_option nameless (tsig t) = map_option nameless (tsig u) \<and>
     variadic t = variadic u \<and> refine t = refine u"

section \<open>Basic facts\<close>

lemma with_id_simps [simp]:
  "kind (with_id i t) = kind t" "tclass (with_id i t) = tclass t" "elems (with_id i t) = elems t"
  "tsig (with_id i t) = tsig t" "variadic (with_id i t) = variadic t" "refine (with_id i t) = refine t"
  "tid (with_id i t) = i" "parts (with_id i t) = parts t"
  by (simp_all add: with_id_def parts_def)

lemma key_str_with_id [simp]: "key_str (with_id i t) = key_str t"
  by (cases t) (simp add: with_id_def)

lemma key_with_id [simp]: "key (with_id i t) = key t"
  by (cases t) (simp add: with_id_def key_def)

lemma wf_ty_with_id [simp]: "wf_ty (with_id i t) = wf_ty t"
  by (cases t) (simp add: with_id_def)

lemma like_refl [simp]: "like t t"
  by (simp add: like_def)

lemma like_sym: "like t u \<Longrightarrow> like u t"
  by (simp add: like_def)

lemma like_trans: "like t u \<Longrightarrow> like u v \<Longrightarrow> like t v"
  by (simp add: like_def)

lemma like_with_id [simp]: "like (with_id i t) t" "like t (with_id i t)"
  by (simp_all add: like_def)

lemma hc_ext_refl [simp, intro]: "hc_ext s s"
  by (simp add: hc_ext_def)

lemma hc_ext_trans [trans]: "hc_ext s t \<Longrightarrow> hc_ext t u \<Longrightarrow> hc_ext s u"
  unfolding hc_ext_def by (auto intro: map_le_trans)

lemma hc_ext_byID: "hc_ext s s' \<Longrightarrow> t \<in> set (byID s) \<Longrightarrow> t \<in> set (byID s')"
  by (auto simp: hc_ext_def)

lemma hc_ext_nth: "hc_ext s s' \<Longrightarrow> i < length (byID s) \<Longrightarrow> byID s' ! i = byID s ! i"
  by (auto simp: hc_ext_def nth_append)

lemma hc_ext_length: "hc_ext s s' \<Longrightarrow> length (byID s) \<le> length (byID s')"
  by (auto simp: hc_ext_def)

lemma hc_ext_classes: "hc_ext s s' \<Longrightarrow> map_of (classes s) n = Some c \<Longrightarrow> map_of (classes s') n = Some c"
  by (auto simp: hc_ext_def map_le_def) (metis domI)

lemma template_ok_ext: "hc_ext s s' \<Longrightarrow> template_ok s t \<Longrightarrow> template_ok s' t"
  unfolding template_ok_def using hc_ext_byID hc_ext_classes by blast

lemma hc_wfD:
  assumes "hc_wf s"
  shows "i < length (byID s) \<Longrightarrow> tid (byID s ! i) = i"
    and "byKey s k = Some t \<longleftrightarrow> t \<in> set (byID s) \<and> key t = Some k"
    and "t \<in> set (byID s) \<Longrightarrow> wf_ty t"
    and "t \<in> set (byID s) \<Longrightarrow> template_ok s t"
    and "map_of (classes s) n = Some c \<Longrightarrow> cname c = n"
  using assms by (auto simp: hc_wf_def)

lemma parts_in_table: "hc_wf s \<Longrightarrow> t \<in> set (byID s) \<Longrightarrow> u \<in> parts t \<Longrightarrow> u \<in> set (byID s)"
  using hc_wfD(4) [of s t] by (auto simp: template_ok_def)

lemma elems_in_table: "hc_wf s \<Longrightarrow> t \<in> set (byID s) \<Longrightarrow> u \<in> set (elems t) \<Longrightarrow> u \<in> set (byID s)"
  by (rule parts_in_table) (auto simp: parts_def)

lemma template_wf_ty:
  assumes "hc_wf s" and "template_ok s t"
  shows "wf_ty t"
  using assms hc_wfD(3) [OF assms(1)] unfolding wf_ty_iff [of t] template_ok_def parts_def by blast

lemma template_key: "hc_wf s \<Longrightarrow> template_ok s t \<Longrightarrow> key t = Some (key_str t)"
  by (simp add: key_total template_wf_ty)

text \<open>In the table the key identifies the entry.\<close>

lemma key_str_inj:
  assumes "hc_wf s"
  shows "inj_on key_str (set (byID s))"
proof (rule inj_onI)
  fix t u assume tu: "t \<in> set (byID s)" "u \<in> set (byID s)" "key_str t = key_str u"
  then have "byKey s (key_str t) = Some t" "byKey s (key_str u) = Some u"
    using hc_wfD(2,3) [OF assms] key_total by auto
  with tu(3) show "t = u" by (metis option.inject)
qed

lemma byID_distinct:
  assumes "hc_wf s" "t \<in> set (byID s)"
  shows "tid t < length (byID s) \<and> byID s ! tid t = t"
  using assms hc_wfD(1) [OF assms(1)] by (auto simp: in_set_conv_nth)

lemma nameless_map: "nameless (map_signature f s) = map_signature f (nameless s)"
  by (cases s) (auto simp: nameless_def param.map_sel)

lemma set_nameless [simp]: "set_signature (nameless s) = set_signature s"
  by (cases s) (simp add: nameless_def image_image)

text \<open>Templates with the same key agree.\<close>

lemma same_key_like:
  assumes wf: "hc_wf s" and t: "template_ok s t" and u: "template_ok s u"
    and key: "key_str t = key_str u"
  shows "like t u"
proof -
  have "same_top t u"
    using key_str_read [of t u "[]" "[]"] template_wf_ty [OF wf] t u key by simp
  then have k: "kind t = kind u" "refine t = refine u" "variadic t = variadic u"
    and c: "map_option cname (tclass t) = map_option cname (tclass u)"
    and e: "map key_str (elems t) = map key_str (elems u)"
    and sg: "map_option (nameless \<circ> map_signature key_str) (tsig t) =
      map_option (nameless \<circ> map_signature key_str) (tsig u)"
    by (auto simp: same_top_def)
  have inj: "inj_on key_str (parts t \<union> parts u)"
    using key_str_inj [OF wf] t u by (auto simp: template_ok_def intro: inj_on_subset)
  have "tclass t = tclass u"
    using c t u by (cases "tclass t"; cases "tclass u") (auto simp: template_ok_def)
  moreover have "elems t = elems u"
    using e inj by (intro map_inj_on [OF e]) (auto simp: parts_def intro: inj_on_subset)
  moreover have "map_option nameless (tsig t) = map_option nameless (tsig u)"
  proof (cases "tsig t"; cases "tsig u")
    fix a b assume ab: "tsig t = Some a" "tsig u = Some b"
    with sg have "map_signature key_str (nameless a) = map_signature key_str (nameless b)"
      by (simp add: nameless_map)
    moreover have "x = y" if "x \<in> set_signature a" "y \<in> set_signature b" "key_str x = key_str y" for x y
      using inj that ab by (auto simp: parts_def dest: inj_onD)
    ultimately have "nameless a = nameless b"
      by (intro signature.inj_map_strong [of "nameless a" "nameless b" key_str key_str]) simp_all
    with ab show ?thesis by simp
  qed (use sg in auto)
  ultimately show ?thesis using k by (simp add: like_def)
qed

section \<open>Every operation keeps the invariant\<close>

lemma intern_fresh:
  assumes wf: "hc_wf s" and t: "template_ok s t" and new: "byKey s (key_str t) = None"
  defines "t' \<equiv> with_id (length (byID s)) t"
  defines "s' \<equiv> s\<lparr>byKey := (byKey s)(key_str t \<mapsto> t'), byID := byID s @ [t']\<rparr>"
  shows "hc_wf s'"
proof -
  have key: "key t' = Some (key_str t)" using template_key [OF wf t] by (simp add: t'_def)
  have fresh: "key u \<noteq> Some (key_str t)" if "u \<in> set (byID s)" for u
    using hc_wfD(2) [OF wf, of "key_str t" u] new that by auto
  have "byKey s' k = Some u \<longleftrightarrow> u \<in> set (byID s') \<and> key u = Some k" for k u
    using hc_wfD(2) [OF wf, of k u] key fresh by (auto simp: s'_def)
  moreover have "template_ok s' u" if "template_ok s u" for u
    using that by (auto simp: template_ok_def s'_def)
  moreover have "template_ok s t'" using t by (simp add: template_ok_def t'_def)
  moreover have "wf_ty t'" using template_wf_ty [OF wf t] by (simp add: t'_def)
  ultimately show ?thesis
    using hc_wfD [OF wf] unfolding hc_wf_def
    by (auto simp: s'_def t'_def nth_append less_Suc_eq)
qed

text \<open>\<open>hc_step s t' s'\<close>: what a construction step guarantees.\<close>

definition hc_step :: "'z hashcons_scheme \<Rightarrow> ty \<Rightarrow> 'z hashcons_scheme \<Rightarrow> bool" where
  "hc_step s t' s' \<longleftrightarrow> hc_wf s' \<and> hc_ext s s' \<and> t' \<in> set (byID s') \<and>
     set (byID s') \<subseteq> insert t' (set (byID s)) \<and> joinMemo s' = joinMemo s \<and> meetMemo s' = meetMemo s"

lemma intern_spec:
  assumes wf: "hc_wf s" and t: "template_ok s t"
  shows "\<exists>t' s'. intern t s = Some (t', s') \<and> hc_step s t' s' \<and> classes s' = classes s \<and> like t' t"
proof (cases "byKey s (key_str t)")
  case None
  with intern_fresh [OF wf t None] show ?thesis
    by (simp add: intern_def template_key [OF wf t] hc_step_def hc_ext_def Let_def subset_insertI)
next
  case (Some e)
  then have e: "e \<in> set (byID s)" "key e = Some (key_str t)" using hc_wfD(2) [OF wf] by auto
  then have "key_str e = key_str t" using key_total [OF hc_wfD(3) [OF wf e(1)]] by simp
  then have "like e t" using same_key_like [OF wf hc_wfD(4) [OF wf e(1)] t] by simp
  with Some e wf show ?thesis by (simp add: intern_def template_key [OF wf t] hc_step_def subset_insertI)
qed

lemma classRef_spec:
  assumes wf: "hc_wf s"
  obtains c s' where "classRef n mro s = (c, s')" "hc_wf s'" "hc_ext s s'" "cname c = n"
    "map_of (classes s') n = Some c" "byID s' = byID s"
    "joinMemo s' = joinMemo s" "meetMemo s' = meetMemo s"
    "map_of (classes s) n = Some c \<and> s' = s \<or>
       map_of (classes s) n = None \<and> MRO c = (if mro = [] then [n] else mro) \<and>
       map_of (classes s') = (map_of (classes s))(n \<mapsto> c)"
proof (cases "map_of (classes s) n")
  case None
  define c where "c = ClassRef n (if mro = [] then [n] else mro) (length (classes s))"
  define s' where "s' = s\<lparr>classes := (n, c) # classes s\<rparr>"
  have "classRef n mro s = (c, s')" using None by (simp add: classRef_def c_def s'_def Let_def)
  moreover have tm: "template_ok s' t" if "template_ok s t" for t
    using that None by (auto simp: template_ok_def s'_def)
  have "hc_wf s'" using hc_wfD [OF wf] tm by (auto simp: hc_wf_def s'_def c_def)
  moreover have "hc_ext s s'" using None by (auto simp: hc_ext_def s'_def map_le_def)
  ultimately show ?thesis using None by (intro that [of c s']) (auto simp: s'_def c_def)
next
  case (Some c)
  with wf hc_wfD(5) [OF wf Some] show ?thesis by (intro that [of c s]) (auto simp: classRef_def)
qed

lemma Class_spec:
  assumes wf: "hc_wf s" and n: "name_ok n"
  shows "\<exists>t s' c. Class n mro s = Some (t, s') \<and> hc_step s t s' \<and> kind t = KindClass \<and>
    tclass t = Some c \<and> cname c = n \<and> elems t = [] \<and> refine t = 0 \<and>
    (map_of (classes s) n = Some c \<and> classes s' = classes s \<or>
     map_of (classes s) n = None \<and> MRO c = (if mro = [] then [n] else mro) \<and>
     map_of (classes s') = (map_of (classes s))(n \<mapsto> c))"
proof -
  obtain c s1 where c: "classRef n mro s = (c, s1)" "hc_wf s1" "hc_ext s s1" "cname c = n"
    "map_of (classes s1) n = Some c" "joinMemo s1 = joinMemo s" "meetMemo s1 = meetMemo s"
    "byID s1 = byID s"
    "map_of (classes s) n = Some c \<and> s1 = s \<or>
       map_of (classes s) n = None \<and> MRO c = (if mro = [] then [n] else mro) \<and>
       map_of (classes s1) = (map_of (classes s))(n \<mapsto> c)"
    by (rule classRef_spec [OF wf]) blast
  let ?t = "Type KindClass (Some c) [] None False 0 0"
  have "template_ok s1 ?t" using c(4,5) n by (simp add: template_ok_def shape_ok_def parts_def)
  from intern_spec [OF c(2) this] obtain t s' where
    "intern ?t s1 = Some (t, s')" "hc_step s1 t s'" "classes s' = classes s1" "like t ?t" by blast
  with c show ?thesis
    by (auto simp: Class_def hc_step_def like_def intro: hc_ext_trans)
qed

lemma Proto_spec:
  assumes wf: "hc_wf s" and n: "name_ok n"
  shows "\<exists>t s' c. Proto n s = Some (t, s') \<and> hc_step s t s' \<and> kind t = KindProto \<and> tclass t = Some c \<and> cname c = n \<and>
    refine t = 0 \<and>
    (map_of (classes s) n = Some c \<and> classes s' = classes s \<or>
     map_of (classes s) n = None \<and> MRO c = [n] \<and> map_of (classes s') = (map_of (classes s))(n \<mapsto> c))"
proof -
  obtain c s1 where c: "classRef n [n] s = (c, s1)" "hc_wf s1" "hc_ext s s1" "cname c = n"
    "map_of (classes s1) n = Some c" "joinMemo s1 = joinMemo s" "meetMemo s1 = meetMemo s"
    "byID s1 = byID s"
    "map_of (classes s) n = Some c \<and> s1 = s \<or>
       map_of (classes s) n = None \<and> MRO c = (if [n] = [] then [n] else [n]) \<and>
       map_of (classes s1) = (map_of (classes s))(n \<mapsto> c)"
    by (rule classRef_spec [OF wf]) blast
  let ?t = "Type KindProto (Some c) [] None False 0 0"
  have "template_ok s1 ?t" using c(4,5) n by (simp add: template_ok_def shape_ok_def parts_def)
  from intern_spec [OF c(2) this] obtain t s' where
    "intern ?t s1 = Some (t, s')" "hc_step s1 t s'" "classes s' = classes s1" "like t ?t" by blast
  with c show ?thesis by (auto simp: Proto_def hc_step_def like_def intro: hc_ext_trans)
qed

lemma container_spec:
  assumes wf: "hc_wf s" and "set es \<subseteq> set (byID s)"
    and "k \<in> {KindList, KindSet, KindTuple, KindUnion} \<or> k = KindDict \<and> length es = 2"
    and "v \<longrightarrow> k = KindTuple \<and> length es = 1"
  shows "\<exists>t s'. intern (Type k None es None v r 0) s = Some (t, s') \<and> hc_step s t s' \<and>
    classes s' = classes s \<and> like t (Type k None es None v r 0)"
  using assms by (intro intern_spec) (auto simp: template_ok_def shape_ok_def parts_def)

lemma Callable_spec:
  assumes "hc_wf s" and "set_signature sig \<subseteq> set (byID s)"
  shows "\<exists>t s'. Callable sig s = Some (t, s') \<and> hc_step s t s' \<and>
    classes s' = classes s \<and> like t (Type KindCallable None [] (Some sig) False 0 0)"
  unfolding Callable_def using assms
  by (intro intern_spec) (auto simp: template_ok_def shape_ok_def parts_def)

definition set_refine :: "refine \<Rightarrow> ty \<Rightarrow> ty" where
  "set_refine r t = Type (kind t) (tclass t) (elems t) (tsig t) (variadic t) r 0"

lemma set_refine_simps [simp]:
  "kind (set_refine r t) = kind t" "tclass (set_refine r t) = tclass t"
  "elems (set_refine r t) = elems t" "tsig (set_refine r t) = tsig t"
  "variadic (set_refine r t) = variadic t" "refine (set_refine r t) = r"
  by (simp_all add: set_refine_def)

lemma set_refine_spec:
  assumes wf: "hc_wf s" and t: "t \<in> set (byID s)"
  shows "\<exists>t' s'. intern (set_refine r t) s = Some (t', s') \<and> hc_step s t' s' \<and>
    classes s' = classes s \<and> like t' (set_refine r t)"
  using hc_wfD(4) [OF wf t] by (intro intern_spec [OF wf]) (simp add: template_ok_def parts_def)

lemma hc_step_refl: "hc_wf s \<Longrightarrow> t \<in> set (byID s) \<Longrightarrow> hc_step s t s"
  by (simp add: hc_step_def subset_insertI)

lemma like_set_refine: "like t (set_refine (refine t) t)"
  by (simp add: like_def)

lemma or_absorb:
  fixes a r :: refine
  assumes "a AND r = r"
  shows "a OR r = a"
proof (rule bit_word_eqI)
  fix n
  have "bit (a AND r) n = bit r n" using assms by simp
  then show "bit (a OR r) n = bit a n" by (auto simp: bit_simps)
qed

lemma and_not_absorb:
  fixes a r :: refine
  assumes "a AND r = 0"
  shows "a AND NOT r = a"
proof (rule bit_word_eqI)
  fix n assume "n < LENGTH(8)"
  moreover have "bit (a AND r) n = bit (0 :: refine) n" using assms by simp
  ultimately show "bit (a AND NOT r) n = bit a n" by (auto simp: bit_simps)
qed

lemma WithRefine_spec:
  assumes "hc_wf s" and "t \<in> set (byID s)"
  shows "\<exists>t' s'. WithRefine t r s = Some (t', s') \<and> hc_step s t' s' \<and>
    classes s' = classes s \<and> like t' (set_refine (refine t OR r) t)"
proof (cases "refine t AND r = r")
  case True
  then have "refine t OR r = refine t" by (rule or_absorb)
  with True show ?thesis
    using assms hc_step_refl like_set_refine [of t] by (auto simp: WithRefine_def)
next
  case False
  with set_refine_spec [OF assms] show ?thesis by (simp add: WithRefine_def set_refine_def)
qed

lemma WithoutRefine_spec:
  assumes "hc_wf s" and "t \<in> set (byID s)"
  shows "\<exists>t' s'. WithoutRefine t r s = Some (t', s') \<and> hc_step s t' s' \<and>
    classes s' = classes s \<and> like t' (set_refine (refine t AND NOT r) t)"
proof (cases "refine t AND r = 0")
  case True
  then have "refine t AND NOT r = refine t" by (rule and_not_absorb)
  with True show ?thesis
    using assms hc_step_refl like_set_refine [of t] by (auto simp: WithoutRefine_def)
next
  case False
  with set_refine_spec [OF assms] show ?thesis by (simp add: WithoutRefine_def set_refine_def)
qed

definition all_bits :: refine where
  "all_bits = RefineAsciiOnly OR RefineNonNegative OR RefineKnownLen OR RefineExactType"

lemma stripRefine_spec:
  assumes "hc_wf s" and "t \<in> set (byID s)"
  shows "\<exists>t' s'. stripRefine t s = Some (t', s') \<and> hc_step s t' s' \<and>
    classes s' = classes s \<and> like t' (set_refine (refine t AND NOT all_bits) t)"
  using WithoutRefine_spec [OF assms] unfolding stripRefine_def all_bits_def [symmetric]
  by blast

section \<open>The base singletons\<close>

definition singles_ok :: "interner \<Rightarrow> bool" where
  "singles_ok s \<longleftrightarrow>
     (\<forall>(t, k) \<in> set [(in_never s, KindNever), (in_none s, KindNone), (in_bool s, KindBool),
        (in_int s, KindInt), (in_float s, KindFloat), (in_complex s, KindComplex),
        (in_str s, KindStr), (in_bytes s, KindBytes), (in_dyn s, KindDyn)].
        t \<in> set (byID s) \<and> like t (atom k))"

definition wf :: "interner \<Rightarrow> bool" where
  "wf s \<longleftrightarrow> hc_wf s \<and> singles_ok s"

lemma hc_ext_singles:
  fixes s s' :: interner
  assumes "hc_ext s s'"
  shows "in_never s' = in_never s" "in_none s' = in_none s" "in_bool s' = in_bool s"
    "in_int s' = in_int s" "in_float s' = in_float s" "in_complex s' = in_complex s"
    "in_str s' = in_str s" "in_bytes s' = in_bytes s" "in_dyn s' = in_dyn s"
  using assms by (cases s; cases s'; simp add: hc_ext_def)+

lemma singles_ok_ext:
  fixes s s' :: interner
  assumes "hc_ext s s'" and "singles_ok s"
  shows "singles_ok s'"
  using assms hc_ext_byID [OF assms(1)] unfolding singles_ok_def hc_ext_singles [OF assms(1)] by auto

lemma wf_step:
  fixes s s' :: interner
  assumes "wf s" and "hc_step s t s'"
  shows "wf s'"
  using assms singles_ok_ext by (auto simp: wf_def hc_step_def)

lemma wf_hc [simp]: "wf s \<Longrightarrow> hc_wf s"
  by (simp add: wf_def)

lemma singles:
  assumes "wf s"
  shows "in_never s \<in> set (byID s)" "in_none s \<in> set (byID s)" "in_int s \<in> set (byID s)"
    "in_dyn s \<in> set (byID s)"
    and "like (in_never s) (atom KindNever)" "like (in_none s) (atom KindNone)"
    "like (in_int s) (atom KindInt)" "like (in_dyn s) (atom KindDyn)"
  using assms by (auto simp: wf_def singles_ok_def)

lemma atom_sel [simp]:
  "kind (atom k) = k" "tclass (atom k) = None" "elems (atom k) = []" "tsig (atom k) = None"
  "variadic (atom k) = False" "refine (atom k) = 0" "parts (atom k) = {}"
  by (simp_all add: atom_def parts_def)

lemma atom_template:
  "k \<notin> {KindClass, KindProto, KindDict, KindCallable} \<Longrightarrow> template_ok s (atom k)"
  by (simp add: template_ok_def shape_ok_def)

lemma intern_atom:
  assumes "hc_wf s" and "k \<notin> {KindClass, KindProto, KindDict, KindCallable}"
  obtains t s' where "intern (atom k) s = Some (t, s')" "hc_wf s'"
    "set (byID s) \<subseteq> set (byID s')" "t \<in> set (byID s')" "like t (atom k)"
  using intern_spec [OF assms(1) atom_template [OF assms(2)]] that hc_ext_byID
  unfolding hc_step_def by blast

lemma hc_wf_extend: "hc_wf (hashcons.extend s m) = hc_wf s" for s :: hashcons
  by (simp add: hc_wf_def template_ok_def hashcons.defs)

lemma NewInterner_wf: "\<exists>s. NewInterner = Some s \<and> wf s \<and> classes s = [] \<and> joinMemo s = Map.empty"
proof -
  let ?s = "\<lparr>byKey = (\<lambda>_. None), byID = [], classes = [], joinMemo = (\<lambda>_. None), meetMemo = (\<lambda>_. None)\<rparr>"
  have "hc_wf ?s" by (simp add: hc_wf_def)
  then obtain t0 s0 where 0: "intern (atom KindNever) ?s = Some (t0, s0)" "hc_wf s0"
    "t0 \<in> set (byID s0)" "like t0 (atom KindNever)"
    by (rule intern_atom [where k = KindNever]) auto
  from 0(2) obtain t1 s1 where 1: "intern (atom KindNone) s0 = Some (t1, s1)" "hc_wf s1"
    "set (byID s0) \<subseteq> set (byID s1)" "t1 \<in> set (byID s1)" "like t1 (atom KindNone)"
    by (rule intern_atom [where k = KindNone]) auto
  from 1(2) obtain t2 s2 where 2: "intern (atom KindBool) s1 = Some (t2, s2)" "hc_wf s2"
    "set (byID s1) \<subseteq> set (byID s2)" "t2 \<in> set (byID s2)" "like t2 (atom KindBool)"
    by (rule intern_atom [where k = KindBool]) auto
  from 2(2) obtain t3 s3 where 3: "intern (atom KindInt) s2 = Some (t3, s3)" "hc_wf s3"
    "set (byID s2) \<subseteq> set (byID s3)" "t3 \<in> set (byID s3)" "like t3 (atom KindInt)"
    by (rule intern_atom [where k = KindInt]) auto
  from 3(2) obtain t4 s4 where 4: "intern (atom KindFloat) s3 = Some (t4, s4)" "hc_wf s4"
    "set (byID s3) \<subseteq> set (byID s4)" "t4 \<in> set (byID s4)" "like t4 (atom KindFloat)"
    by (rule intern_atom [where k = KindFloat]) auto
  from 4(2) obtain t5 s5 where 5: "intern (atom KindComplex) s4 = Some (t5, s5)" "hc_wf s5"
    "set (byID s4) \<subseteq> set (byID s5)" "t5 \<in> set (byID s5)" "like t5 (atom KindComplex)"
    by (rule intern_atom [where k = KindComplex]) auto
  from 5(2) obtain t6 s6 where 6: "intern (atom KindStr) s5 = Some (t6, s6)" "hc_wf s6"
    "set (byID s5) \<subseteq> set (byID s6)" "t6 \<in> set (byID s6)" "like t6 (atom KindStr)"
    by (rule intern_atom [where k = KindStr]) auto
  from 6(2) obtain t7 s7 where 7: "intern (atom KindBytes) s6 = Some (t7, s7)" "hc_wf s7"
    "set (byID s6) \<subseteq> set (byID s7)" "t7 \<in> set (byID s7)" "like t7 (atom KindBytes)"
    by (rule intern_atom [where k = KindBytes]) auto
  from 7(2) obtain t8 s8 where 8: "intern (atom KindDyn) s7 = Some (t8, s8)" "hc_wf s8"
    "set (byID s7) \<subseteq> set (byID s8)" "t8 \<in> set (byID s8)" "like t8 (atom KindDyn)"
    by (rule intern_atom [where k = KindDyn]) auto
  let ?r = "hashcons.extend s8 (interner.fields t0 t1 t2 t3 t4 t5 t6 t7 t8)"
  have new: "NewInterner = Some ?r"
    using 0(1) 1(1) 2(1) 3(1) 4(1) 5(1) 6(1) 7(1) 8(1) by (simp add: NewInterner_def)
  have same: "classes s' = classes s \<and> joinMemo s' = joinMemo s" if "intern t s = Some (t', s')"
    for t t' and s s' :: hashcons
    using that by (auto simp: intern_def Let_def split: Option.bind_splits option.splits)
  have "classes ?r = [] \<and> joinMemo ?r = Map.empty"
    using same [OF 0(1)] same [OF 1(1)] same [OF 2(1)] same [OF 3(1)] same [OF 4(1)]
      same [OF 5(1)] same [OF 6(1)] same [OF 7(1)] same [OF 8(1)]
    by (simp add: hashcons.defs)
  moreover note up6 = subset_trans [OF 7(3) 8(3)]
  note up5 = subset_trans [OF 6(3) up6]
  note up4 = subset_trans [OF 5(3) up5]
  note up3 = subset_trans [OF 4(3) up4]
  note up2 = subset_trans [OF 3(3) up3]
  note up1 = subset_trans [OF 2(3) up2]
  note mem = subsetD [OF subset_trans [OF 1(3) up1] 0(3)] subsetD [OF up1 1(4)] subsetD [OF up2 2(4)]
    subsetD [OF up3 3(4)] subsetD [OF up4 4(4)] subsetD [OF up5 5(4)] subsetD [OF up6 6(4)]
    subsetD [OF 8(3) 7(4)] 8(4)
  have "singles_ok ?r"
    using mem 0(4) 1(5) 2(5) 3(5) 4(5) 5(5) 6(5) 7(5) 8(5)
    by (simp add: singles_ok_def hashcons.defs interner.defs)
  with 8(2) have "wf ?r" unfolding wf_def by (simp only: hc_wf_extend)
  ultimately show ?thesis using new by blast
qed

lemma NewInterner_table:
  assumes "NewInterner = Some s"
  shows "meetMemo s = Map.empty" and "t \<in> set (byID s) \<Longrightarrow> refine t = 0 \<and> elems t = [] \<and> kind t \<notin> {KindList, KindSet}"
proof -
  define P where "P s \<longleftrightarrow> meetMemo s = Map.empty \<and>
    (\<forall>t\<in>set (byID s). refine t = 0 \<and> elems t = [] \<and> kind t \<notin> {KindList, KindSet})" for s :: hashcons
  have P: "P s'" if "intern (atom k) s = Some (t, s')" "P s" "k \<notin> {KindList, KindSet}" for k t and s s' :: hashcons
    using that by (auto simp: intern_def Let_def P_def split: Option.bind_splits option.splits)
  let ?s = "\<lparr>byKey = (\<lambda>_. None), byID = [], classes = [], joinMemo = (\<lambda>_. None), meetMemo = (\<lambda>_. None)\<rparr>"
  have "P ?s" by (simp add: P_def)
  then obtain s9 m where "P s9" "s = hashcons.extend s9 m"
    using assms unfolding NewInterner_def Let_def by (auto simp: bind_eq_Some_conv dest!: P)
  then show "meetMemo s = Map.empty"
    "t \<in> set (byID s) \<Longrightarrow> refine t = 0 \<and> elems t = [] \<and> kind t \<notin> {KindList, KindSet}"
    by (auto simp: P_def hashcons.defs)
qed

section \<open>Hash-consing as an interface\<close>

text \<open>A store that conses: \<open>cons\<close> returns the store's one member that agrees with the template.
  The consequences below are what the rest of the compiler relies on when it compares types
  by pointer.\<close>

locale consing =
  fixes inv :: "'s \<Rightarrow> bool" and later :: "'s \<Rightarrow> 's \<Rightarrow> bool" and mem :: "'a \<Rightarrow> 's \<Rightarrow> bool"
    and ok :: "'s \<Rightarrow> 'a \<Rightarrow> bool" and agree :: "'a \<Rightarrow> 'a \<Rightarrow> bool"
    and cons :: "'a \<Rightarrow> 's \<Rightarrow> ('a \<times> 's) option"
  assumes cons_total: "inv s \<Longrightarrow> ok s t \<Longrightarrow>
      \<exists>t' s'. cons t s = Some (t', s') \<and> inv s' \<and> later s s' \<and> mem t' s' \<and> agree t' t"
    and canonical: "inv s \<Longrightarrow> mem t s \<Longrightarrow> mem u s \<Longrightarrow> agree t u \<Longrightarrow> t = u"
    and mem_later: "later s s' \<Longrightarrow> mem t s \<Longrightarrow> mem t s'"
    and ok_later: "later s s' \<Longrightarrow> ok s t \<Longrightarrow> ok s' t"
    and later_trans: "later s s' \<Longrightarrow> later s' s'' \<Longrightarrow> later s s''"
    and agree_sym: "agree t u \<Longrightarrow> agree u t"
    and agree_trans: "agree t u \<Longrightarrow> agree u v \<Longrightarrow> agree t v"
begin

lemma pointer_equality:
  assumes "inv s" and "ok s t" and "ok s u" and "cons t s = Some (t', s1)"
    and "later s1 s2" and "inv s2" and "cons u s2 = Some (u', s3)"
  shows "t' = u' \<longleftrightarrow> agree t u"
proof -
  obtain "inv s1" and t: "later s s1" "mem t' s1" "agree t' t" using cons_total assms by fastforce
  have "ok s2 u" using t assms ok_later later_trans by blast
  then obtain u: "inv s3" "later s2 s3" "mem u' s3" "agree u' u"
    using cons_total [of s2 u] assms by fastforce
  have "mem t' s3" using t u assms mem_later by blast
  then show ?thesis using canonical [of s3 t' u'] t u agree_sym agree_trans by metis
qed

lemma cons_again:
  assumes "inv s" and "ok s t" and "cons t s = Some (t', s1)" and "later s1 s2" and "inv s2"
    and "cons t s2 = Some (u, s3)"
  shows "u = t'"
  using pointer_equality [of s t t t' s1 s2 u s3] assms cons_total agree_sym agree_trans by blast

end

lemma canonical_table:
  assumes "hc_wf s" and "t \<in> set (byID s)" and "u \<in> set (byID s)" and "like t u"
  shows "t = u"
proof -
  have "same_top t u"
    using assms(4) unfolding like_def same_top_def
    by (cases "tsig t"; cases "tsig u") (auto simp: nameless_map)
  then show ?thesis using same_top_key_str key_str_inj [OF assms(1)] assms(2,3) by (meson inj_onD)
qed

interpretation table: consing hc_wf hc_ext "\<lambda>t s. t \<in> set (byID s)" template_ok like intern
proof
  show "\<exists>t' s'. intern t s = Some (t', s') \<and> hc_wf s' \<and> hc_ext s s' \<and> t' \<in> set (byID s') \<and> like t' t"
    if "hc_wf s" "template_ok s t" for s :: "'a hashcons_scheme" and t
    using intern_spec [OF that] by (auto simp: hc_step_def)
qed (use canonical_table hc_ext_byID template_ok_ext hc_ext_trans like_sym like_trans in blast)+

end
