(* ===== verification/Key_Identity.thy ===== *)
theory Key_Identity
  imports Interner
begin

text \<open>
  The canonical key of \<^verbatim>\<open>pkg/types/lattice.go\<close> as an encoding: two well-formed types have the same
  key exactly when they agree after erasing the interning ids, the linearisations of the
  classes they mention and the names of signature parameters. The last point is where the
  key records less than its comment promises.
\<close>

primrec erase :: "ty \<Rightarrow> ty" where
  "erase (Type k c es s v r i) =
     Type k (map_option (\<lambda>c. ClassRef (cname c) [] 0) c) (map erase es)
       (map_option nameless (map_option (map_signature erase) s)) v r 0"

lemma map_signature_transfer:
  assumes "map_signature f a = map_signature f b"
    and "\<And>x y. x \<in> set_signature a \<Longrightarrow> y \<in> set_signature b \<Longrightarrow> f x = f y \<Longrightarrow> g x = g y"
  shows "map_signature g a = map_signature g b"
proof -
  have "rel_signature (\<lambda>x y. f x = f y) a b"
    using assms(1) signature.rel_map(1) [of "(=)" f a "map_signature f b"] signature.rel_map(2) [of "\<lambda>x. (=) (f x)" a f b]
    by (simp add: signature.rel_eq)
  then have "rel_signature (\<lambda>x y. g x = g y) a b" by (rule signature.rel_mono_strong) (rule assms(2))
  then have "rel_signature (=) (map_signature g a) (map_signature g b)" by (simp add: signature.rel_map)
  then show ?thesis by (simp add: signature.rel_eq)
qed

lemma key_str_erase: "key_str (erase t) = key_str t"
proof (induction t)
  case (Type k c es s v r i)
  have "map_signature key_str (map_signature erase u) = map_signature key_str u" if "s = Some u" for u
    using Type.IH(2) that by (auto simp: signature.map_comp intro!: signature.map_cong)
  moreover have "nameless (nameless u) = nameless u" for u :: "'a signature" by (simp add: nameless_def)
  ultimately have "map_option (\<lambda>s. nameless (map_signature key_str (nameless (map_signature erase s)))) s =
      map_option (\<lambda>s. nameless (map_signature key_str s)) s" by (cases s) (simp_all flip: nameless_map)
  then have "same_top (erase (Type k c es s v r i)) (Type k c es s v r i)"
    using Type.IH(1) by (simp add: same_top_def option.map_comp comp_def)
  then show ?case by (rule same_top_key_str)
qed

lemma key_str_eq_erase: "wf_ty t \<Longrightarrow> wf_ty u \<Longrightarrow> key_str t = key_str u \<Longrightarrow> erase t = erase u"
proof (induction t arbitrary: u)
  case (Type k c es s v r i)
  obtain k' c' es' s' v' r' i' where u: "u = Type k' c' es' s' v' r' i'" by (cases u)
  have top: "same_top (Type k c es s v r i) u"
    using key_str_read [OF Type.prems(1,2), of "[]" "[]"] Type.prems(3) by simp
  have wf: "wf_ty e" if "e \<in> set es \<or> (\<exists>s'. s = Some s' \<and> e \<in> set_signature s')" for e
    using Type.prems(1) that unfolding wf_ty_iff [of "Type k c es s v r i"] by auto
  have wf': "wf_ty e" if "e \<in> set es' \<or> (\<exists>s. s' = Some s \<and> e \<in> set_signature s)" for e
    using Type.prems(2) that unfolding u wf_ty_iff [of "Type k' c' es' s' v' r' i'"] by auto
  have "list_all2 (\<lambda>a b. key_str a = key_str b) es es'"
    using top by (simp add: same_top_def u list_all2_conv_all_nth) (metis length_map nth_map)
  then have "list_all2 (\<lambda>a b. erase a = erase b) es es'"
    by (rule list.rel_mono_strong) (use Type.IH(1) wf wf' in blast)
  then have es: "map erase es = map erase es'"
    by (auto simp: list_all2_conv_all_nth intro: nth_equalityI)
  have sg: "map_option (\<lambda>s. nameless (map_signature erase s)) s = map_option (\<lambda>s. nameless (map_signature erase s)) s'"
  proof (cases s)
    case None
    with top show ?thesis by (simp add: same_top_def u)
  next
    case (Some a)
    with top obtain b where b: "s' = Some b" "map_signature key_str (nameless a) = map_signature key_str (nameless b)"
      by (cases s') (auto simp: same_top_def u nameless_map)
    have "map_signature erase (nameless a) = map_signature erase (nameless b)"
      by (rule map_signature_transfer [OF b(2)]) (use Type.IH(2) wf wf' Some b(1) in auto)
    with Some b(1) show ?thesis by (simp add: nameless_map)
  qed
  have "map_option (\<lambda>c. ClassRef (cname c) [] 0) c = map_option (\<lambda>c. ClassRef (cname c) [] 0) c'"
    using top by (cases c; cases c') (auto simp: same_top_def u)
  with es sg top show ?case by (simp add: same_top_def u option.map_comp comp_def)
qed

text \<open>C12: the canonical key identifies a type. Two well-formed types have the same key exactly when
  they agree up to interning ids, linearisations and signature parameter names; and the key of
  a well-formed type never panics.\<close>
theorem key_identifies:
  assumes "wf_ty t" and "wf_ty u"
  shows "key t \<noteq> None \<and> (key t = key u \<longleftrightarrow> erase t = erase u)"
  using key_total [OF assms(1)] key_total [OF assms(2)] key_str_eq_erase [OF assms] key_str_erase
  by (metis option.distinct(1) option.inject)

theorem key_identifies_witness:
  "key (Type KindList None [Type KindInt None [] None False 0 3] None False 0 9) \<noteq>
   key (Type KindSet None [Type KindInt None [] None False 0 3] None False 0 9)"
  using key_identifies [of "Type KindList None [Type KindInt None [] None False 0 3] None False 0 9"
      "Type KindSet None [Type KindInt None [] None False 0 3] None False 0 9"]
  by (simp add: shape_ok_def)

end
