(* ===== verification/Join.thy ===== *)
theory Join
  imports Interner
begin

text \<open>
  \<^verbatim>\<open>pkg/types/join.go\<close>: the lattice algebra. \<open>Join\<close> is the upper bound taken at control-flow
  merges, \<open>Meet\<close> the lower bound taken at narrowing sites, \<open>makeUnion\<close> and \<open>widen\<close> canonicalise
  unions.

  The mutual recursion of the Go methods goes through \<open>Join\<close> (or \<open>Meet\<close>) only. The workers
  therefore take the recursive call as an argument, and \<open>Join\<close> and \<open>Meet\<close> close the recursion
  with fuel; running out of fuel is \<^const>\<open>None\<close>, and the theorems show that fuel above the
  nesting depth of the arguments always returns.

  The locale \<open>join_order\<close> states what a reading of types as sets has to satisfy for \<open>Join\<close> to be
  an upper bound; theory \<open>Semantics\<close> interprets it with the values of Python.
\<close>

type_synonym 'a run = "interner \<Rightarrow> ('a \<times> interner) option"

section \<open>Subtyping\<close>

definition builtinClassName :: "kind \<Rightarrow> string" where
  "builtinClassName k =
     (case k of
        KindInt \<Rightarrow> ''int''
      | KindFloat \<Rightarrow> ''float''
      | KindStr \<Rightarrow> ''str''
      | KindBytes \<Rightarrow> ''bytes''
      | KindBool \<Rightarrow> ''bool''
      | KindComplex \<Rightarrow> ''complex''
      | _ \<Rightarrow> [])"

definition isSubtype :: "ty \<Rightarrow> ty \<Rightarrow> bool" where
  "isSubtype a b \<longleftrightarrow>
     a = b \<or>
     kind a = KindNever \<or>
     kind b = KindDyn \<or>
     (kind a = KindBool \<and> kind b = KindInt) \<or>
     (kind a = KindClass \<and>
       (let name = (if kind b = KindClass then cname (the (tclass b)) else builtinClassName (kind b))
        in name \<noteq> [] \<and> name \<in> set (MRO (the (tclass a)))))"

section \<open>Common ancestors, unions, widening\<close>

fun ancestor_loop :: "string list \<Rightarrow> string list \<Rightarrow> ty run" where
  "ancestor_loop [] inB s = Some (in_dyn s, s)"
| "ancestor_loop (name # rest) inB s =
     (if name = ''object'' then ancestor_loop rest inB s
      else if name \<in> set inB then Class name (name # rest) s
      else ancestor_loop rest inB s)"

definition commonAncestor :: "class_ref \<Rightarrow> class_ref \<Rightarrow> ty run" where
  "commonAncestor a b s = ancestor_loop (MRO a) (MRO b) s"

fun widen_loop :: "ty \<Rightarrow> ty list \<Rightarrow> ty run" where
  "widen_loop acc [] s = Some (acc, s)"
| "widen_loop acc (m # ms) s =
     (if kind acc \<noteq> KindClass \<or> kind m \<noteq> KindClass then Some (in_dyn s, s)
      else do {
        (acc, s) \<leftarrow> commonAncestor (the (tclass acc)) (the (tclass m)) s;
        if kind acc \<noteq> KindClass then Some (in_dyn s, s) else widen_loop acc ms s
      })"

definition widen :: "ty list \<Rightarrow> ty run" where
  "widen members s =
     (case members of
        [] \<Rightarrow> None
      | acc # ms \<Rightarrow> widen_loop acc ms s)"

definition unionBudget :: nat where
  "unionBudget = 4"

fun dedupe_loop :: "ty list \<Rightarrow> ty list \<Rightarrow> ty list" where
  "dedupe_loop seen [] = []"
| "dedupe_loop seen (t # ts) =
     (if t \<in> set seen then dedupe_loop seen ts else t # dedupe_loop (t # seen) ts)"

definition dedupe :: "ty list \<Rightarrow> ty list" where
  "dedupe ts = dedupe_loop [] ts"

text \<open>The flattening loop; \<^const>\<open>None\<close> is its early return of Dyn.\<close>

fun flatten_members :: "ty list \<Rightarrow> ty list option" where
  "flatten_members [] = Some []"
| "flatten_members (m # ms) =
     (case kind m of
        KindDyn \<Rightarrow> None
      | KindUnion \<Rightarrow> map_option (\<lambda>flat. elems m @ flat) (flatten_members ms)
      | KindNever \<Rightarrow> flatten_members ms
      | _ \<Rightarrow> map_option (\<lambda>flat. m # flat) (flatten_members ms))"

definition undominated :: "ty list \<Rightarrow> ty list" where
  "undominated uniq =
     map snd (filter (\<lambda>(i, m). \<not> list_ex (\<lambda>(j, other). i \<noteq> j \<and> isSubtype m other) (enumerate 0 uniq))
       (enumerate 0 uniq))"

definition makeUnion :: "ty list \<Rightarrow> ty run" where
  "makeUnion members s =
     (case flatten_members members of
        None \<Rightarrow> Some (in_dyn s, s)
      | Some flat \<Rightarrow>
          if flat = [] then Some (in_never s, s)
          else
            let kept = undominated (dedupe flat)
            in if length kept = 1 then Some (hd kept, s)
               else if unionBudget < length kept then widen kept s
               else intern (Type KindUnion None (sortKeys kept) None False 0 0) s)"

definition Union :: "ty list \<Rightarrow> ty run" where
  "Union members s = makeUnion members s"

definition Optional :: "ty \<Rightarrow> ty run" where
  "Optional t s = makeUnion [t, in_none s] s"

section \<open>Join\<close>

definition memoKey :: "nat \<Rightarrow> nat \<Rightarrow> nat \<times> nat" where
  "memoKey a b = (if a \<le> b then (a, b) else (b, a))"

fun join_positions :: "(ty \<Rightarrow> ty \<Rightarrow> ty run) \<Rightarrow> ty list \<Rightarrow> ty list \<Rightarrow> (ty list) run" where
  "join_positions J (a # as) (b # bs) s = do {
     (p, s) \<leftarrow> J a b s;
     (ps, s) \<leftarrow> join_positions J as bs s;
     Some (p # ps, s)
   }"
| "join_positions J [] bs s = Some ([], s)"
| "join_positions J (a # as) [] s = None"

fun join_all :: "(ty \<Rightarrow> ty \<Rightarrow> ty run) \<Rightarrow> ty \<Rightarrow> ty list \<Rightarrow> ty run" where
  "join_all J acc [] s = Some (acc, s)"
| "join_all J acc (e # es) s = do {
     (acc, s) \<leftarrow> J acc e s;
     join_all J acc es s
   }"

definition joinTuples :: "(ty \<Rightarrow> ty \<Rightarrow> ty run) \<Rightarrow> ty \<Rightarrow> ty \<Rightarrow> ty run" where
  "joinTuples J a b s =
     (if \<not> variadic a \<and> \<not> variadic b \<and> length (elems a) = length (elems b) then do {
        (positions, s) \<leftarrow> join_positions J (elems a) (elems b) s;
        Tuple positions s
      }
      else do {
        (elem, s) \<leftarrow> join_all J (in_never s) (elems a) s;
        (elem, s) \<leftarrow> join_all J elem (elems b) s;
        TupleVar elem s
      })"

definition elem_at :: "ty \<Rightarrow> nat \<Rightarrow> ty option" where
  "elem_at t i = (if i < length (elems t) then Some (elems t ! i) else None)"

definition structuralJoin :: "(ty \<Rightarrow> ty \<Rightarrow> ty run) \<Rightarrow> ty \<Rightarrow> ty \<Rightarrow> ty run" where
  "structuralJoin J a b s =
     (if a = b then Some (a, s)
      else if isSubtype a b then Some (b, s)
      else if isSubtype b a then Some (a, s)
      else
        let an = (kind a = KindClass \<or> kind a = KindProto);
            bn = (kind b = KindClass \<or> kind b = KindProto)
        in if an \<or> bn then
             (if kind a = KindClass \<and> kind b = KindClass
              then commonAncestor (the (tclass a)) (the (tclass b)) s
              else Some (in_dyn s, s))
           else if kind a = kind b \<and> kind a = KindList then do {
             x \<leftarrow> elem_at a 0; y \<leftarrow> elem_at b 0;
             (e, s) \<leftarrow> J x y s;
             List e s
           }
           else if kind a = kind b \<and> kind a = KindSet then do {
             x \<leftarrow> elem_at a 0; y \<leftarrow> elem_at b 0;
             (e, s) \<leftarrow> J x y s;
             Set e s
           }
           else if kind a = kind b \<and> kind a = KindDict then do {
             x \<leftarrow> elem_at a 0; y \<leftarrow> elem_at b 0;
             (k, s) \<leftarrow> J x y s;
             x \<leftarrow> elem_at a 1; y \<leftarrow> elem_at b 1;
             (v, s) \<leftarrow> J x y s;
             Dict k v s
           }
           else if kind a = kind b \<and> kind a = KindTuple then joinTuples J a b s
           else makeUnion [a, b] s)"

definition joinUncached :: "(ty \<Rightarrow> ty \<Rightarrow> ty run) \<Rightarrow> ty \<Rightarrow> ty \<Rightarrow> ty run" where
  "joinUncached J a b s =
     (if kind a = KindDyn \<or> kind b = KindDyn then Some (in_dyn s, s)
      else if kind a = KindNever then Some (b, s)
      else if kind b = KindNever then Some (a, s)
      else do {
        (sa, s) \<leftarrow> stripRefine a s;
        (sb, s) \<leftarrow> stripRefine b s;
        (base, s) \<leftarrow> structuralJoin J sa sb s;
        let common = refine a AND refine b;
        if common \<noteq> 0 \<and> kind base = kind a \<and> kind base = kind b
        then WithRefine base common s
        else Some (base, s)
      })"

fun Join :: "nat \<Rightarrow> ty \<Rightarrow> ty \<Rightarrow> ty run" where
  "Join 0 a b s = None"
| "Join (Suc fuel) a b s =
     (if a = b then Some (a, s)
      else
        let key = memoKey (tid a) (tid b)
        in case joinMemo s key of
             Some r \<Rightarrow> Some (r, s)
           | None \<Rightarrow> do {
               (r, s) \<leftarrow> joinUncached (Join fuel) a b s;
               Some (r, s\<lparr>joinMemo := (joinMemo s)(key \<mapsto> r)\<rparr>)
             })"

section \<open>Meet\<close>

definition containerMeet :: "kind \<Rightarrow> ty \<Rightarrow> ty run" where
  "containerMeet k e s =
     (if kind e = KindNever then Some (in_never s, s)
      else if k = KindList then List e s
      else Set e s)"

fun meet_members :: "(ty \<Rightarrow> ty \<Rightarrow> ty run) \<Rightarrow> ty list \<Rightarrow> ty \<Rightarrow> (ty list) run" where
  "meet_members M [] t s = Some ([], s)"
| "meet_members M (m # ms) t s = do {
     (got, s) \<leftarrow> M m t s;
     (rest, s) \<leftarrow> meet_members M ms t s;
     Some (if kind got \<noteq> KindNever then got # rest else rest, s)
   }"

definition meetUnion :: "(ty \<Rightarrow> ty \<Rightarrow> ty run) \<Rightarrow> ty \<Rightarrow> ty \<Rightarrow> ty run" where
  "meetUnion M u t s = do {
     (parts, s) \<leftarrow> meet_members M (elems u) t s;
     if parts = [] then Some (in_never s, s) else makeUnion parts s
   }"

definition structuralMeet :: "(ty \<Rightarrow> ty \<Rightarrow> ty run) \<Rightarrow> ty \<Rightarrow> ty \<Rightarrow> ty run" where
  "structuralMeet M a b s =
     (if a = b then Some (a, s)
      else if isSubtype a b then Some (a, s)
      else if isSubtype b a then Some (b, s)
      else if kind a = KindUnion then meetUnion M a b s
      else if kind b = KindUnion then meetUnion M b a s
      else if kind a = kind b \<and> kind a = KindList then do {
        x \<leftarrow> elem_at a 0; y \<leftarrow> elem_at b 0;
        (e, s) \<leftarrow> M x y s;
        containerMeet KindList e s
      }
      else if kind a = kind b \<and> kind a = KindSet then do {
        x \<leftarrow> elem_at a 0; y \<leftarrow> elem_at b 0;
        (e, s) \<leftarrow> M x y s;
        containerMeet KindSet e s
      }
      else if kind a = kind b \<and> kind a = KindDict then do {
        x \<leftarrow> elem_at a 0; y \<leftarrow> elem_at b 0;
        (k, s) \<leftarrow> M x y s;
        x \<leftarrow> elem_at a 1; y \<leftarrow> elem_at b 1;
        (v, s) \<leftarrow> M x y s;
        if kind k = KindNever \<or> kind v = KindNever then Some (in_never s, s) else Dict k v s
      }
      else Some (in_never s, s))"

definition meetUncached :: "(ty \<Rightarrow> ty \<Rightarrow> ty run) \<Rightarrow> ty \<Rightarrow> ty \<Rightarrow> ty run" where
  "meetUncached M a b s =
     (if kind a = KindDyn then Some (b, s)
      else if kind b = KindDyn then Some (a, s)
      else if kind a = KindNever \<or> kind b = KindNever then Some (in_never s, s)
      else do {
        (sa, s) \<leftarrow> stripRefine a s;
        (sb, s) \<leftarrow> stripRefine b s;
        (base, s) \<leftarrow> structuralMeet M sa sb s;
        let all = refine a OR refine b;
        if all \<noteq> 0 \<and> kind base = kind a \<and> kind base = kind b
        then WithRefine base all s
        else Some (base, s)
      })"

fun Meet :: "nat \<Rightarrow> ty \<Rightarrow> ty \<Rightarrow> ty run" where
  "Meet 0 a b s = None"
| "Meet (Suc fuel) a b s =
     (if a = b then Some (a, s)
      else
        let key = memoKey (tid a) (tid b)
        in case meetMemo s key of
             Some r \<Rightarrow> Some (r, s)
           | None \<Rightarrow> do {
               (r, s) \<leftarrow> meetUncached (Meet fuel) a b s;
               Some (r, s\<lparr>meetMemo := (meetMemo s)(key \<mapsto> r)\<rparr>)
             })"

section \<open>Depth and plainness\<close>

text \<open>The recursion of \<open>Join\<close> descends into containers but not into unions or signatures.\<close>

primrec tdepth :: "ty \<Rightarrow> nat" where
  "tdepth (Type k c es s v r i) =
     (if k = KindUnion then foldr max (map tdepth es) 0
      else if k \<in> {KindList, KindSet, KindDict, KindTuple} then Suc (foldr max (map tdepth es) 0)
      else 0)"

definition unref :: "ty \<Rightarrow> bool" where
  "unref t \<longleftrightarrow> refine t AND all_bits = 0"

definition valid_bits :: "refine \<Rightarrow> bool" where
  "valid_bits r \<longleftrightarrow> r AND NOT all_bits = 0"

text \<open>Plain types: no exact-type bit anywhere and no refined member in a union.\<close>

primrec plain :: "ty \<Rightarrow> bool" where
  "plain (Type k c es s v r i) \<longleftrightarrow>
     r AND RefineExactType = 0 \<and> (k = KindUnion \<longrightarrow> list_all unref es) \<and> list_all (\<lambda>b. b) (map plain es)"

lemma plain_iff:
  "plain t \<longleftrightarrow> refine t AND RefineExactType = 0 \<and> (kind t = KindUnion \<longrightarrow> (\<forall>e\<in>set (elems t). unref e)) \<and>
     (\<forall>e\<in>set (elems t). plain e)"
  by (cases t) (simp add: list_all_iff)

lemma plainD:
  "plain t \<Longrightarrow> e \<in> set (elems t) \<Longrightarrow> plain e"
  "plain t \<Longrightarrow> kind t = KindUnion \<Longrightarrow> e \<in> set (elems t) \<Longrightarrow> unref e"
  "plain t \<Longrightarrow> refine t AND RefineExactType = 0"
  using plain_iff [of t] by blast+

lemma foldr_max_le: "foldr max (map f xs) (0::nat) \<le> d \<longleftrightarrow> (\<forall>x\<in>set xs. f x \<le> d)"
  by (induction xs) auto

lemma foldr_max_ge: "x \<in> set xs \<Longrightarrow> f x \<le> foldr max (map f xs) (0::nat)"
  using foldr_max_le [of f xs "foldr max (map f xs) 0"] by simp

lemma tdepth_union: "kind t = KindUnion \<Longrightarrow> tdepth t \<le> d \<longleftrightarrow> (\<forall>e\<in>set (elems t). tdepth e \<le> d)"
  by (cases t) (simp add: foldr_max_le)

lemma tdepth_container:
  "kind t \<in> {KindList, KindSet, KindDict, KindTuple} \<Longrightarrow>
    tdepth t \<le> d \<longleftrightarrow> 0 < d \<and> (\<forall>e\<in>set (elems t). tdepth e < d)"
  by (cases t; cases d) (auto simp: foldr_max_le less_Suc_eq_le)

lemma tdepth_elem:
  "kind t \<in> {KindList, KindSet, KindDict, KindTuple} \<Longrightarrow> e \<in> set (elems t) \<Longrightarrow> tdepth e < tdepth t"
  using tdepth_container [of t "tdepth t"] by simp

lemma tdepth_result:
  assumes "kind t \<in> {KindList, KindSet, KindDict, KindTuple}" and "elems t \<noteq> []"
    and "\<And>e. e \<in> set (elems t) \<Longrightarrow> tdepth e < d"
  shows "tdepth t \<le> d"
  using assms tdepth_container [OF assms(1), of d] by (metis gr_implies_not0 gr0I list.set_sel(1))

lemma tdepth_zero:
  "kind t \<notin> {KindUnion, KindList, KindSet, KindDict, KindTuple} \<Longrightarrow> tdepth t = 0"
  by (cases t) auto

lemma tdepth_same: "kind t = kind u \<Longrightarrow> elems t = elems u \<Longrightarrow> tdepth t = tdepth u"
  by (cases t; cases u) simp

lemma plain_same:
  "kind t = kind u \<Longrightarrow> elems t = elems u \<Longrightarrow> refine t AND RefineExactType = refine u AND RefineExactType
    \<Longrightarrow> plain t = plain u"
  by (cases t; cases u) simp

lemma like_tdepth: "like t u \<Longrightarrow> tdepth t = tdepth u"
  by (rule tdepth_same) (simp_all add: like_def)

lemma like_plain: "like t u \<Longrightarrow> plain t = plain u"
  by (rule plain_same) (simp_all add: like_def)

lemma like_unref: "like t u \<Longrightarrow> unref t = unref u"
  by (simp add: like_def unref_def)

lemma unref_zero [simp]: "refine t = 0 \<Longrightarrow> unref t"
  by (simp add: unref_def)

lemma and_not_self: "(r AND NOT a) AND a = 0" for a r :: refine
  by (rule bit_word_eqI) (auto simp: bit_simps)

lemma and_not_keeps: "r AND e = 0 \<Longrightarrow> (r AND NOT a) AND e = 0" for a r e :: refine
proof -
  assume "r AND e = 0"
  moreover have "(r AND NOT a) AND e = (r AND e) AND NOT a" by (simp add: ac_simps)
  ultimately show ?thesis by simp
qed

lemma valid_unref: "valid_bits (refine t) \<Longrightarrow> unref t \<Longrightarrow> refine t = 0"
proof -
  assume "valid_bits (refine t)" "unref t"
  moreover have "refine t = (refine t AND all_bits) OR (refine t AND NOT all_bits)"
    by (rule bit_word_eqI) (auto simp: bit_simps)
  ultimately show ?thesis by (simp add: valid_bits_def unref_def)
qed

lemma valid_zero [simp]: "valid_bits 0"
  by (simp add: valid_bits_def)

lemma valid_and_not: "valid_bits r \<Longrightarrow> valid_bits (r AND NOT m)"
proof -
  have "(r AND NOT m) AND NOT all_bits = (r AND NOT all_bits) AND NOT m"
    by (rule bit_word_eqI) (auto simp: bit_simps)
  then show "valid_bits r \<Longrightarrow> valid_bits (r AND NOT m)" by (simp add: valid_bits_def)
qed

lemma valid_or_and: "valid_bits r \<Longrightarrow> valid_bits q \<Longrightarrow> valid_bits (r OR (q AND p))"
proof -
  have "(r OR (q AND p)) AND NOT all_bits = (r AND NOT all_bits) OR ((q AND NOT all_bits) AND p)"
    by (rule bit_word_eqI) (auto simp: bit_simps)
  then show "valid_bits r \<Longrightarrow> valid_bits q \<Longrightarrow> valid_bits (r OR (q AND p))" by (simp add: valid_bits_def)
qed

lemma strip_unref: "like t (set_refine (r AND NOT all_bits) u) \<Longrightarrow> unref t"
  by (simp add: like_def unref_def and_not_self)

lemma strip_plain: "like t (set_refine (refine u AND NOT all_bits) u) \<Longrightarrow> plain u \<Longrightarrow> plain t"
  unfolding plain_iff [of u] plain_iff [of t]
  by (simp add: like_def and_not_keeps)

lemma dedupe_loop_set: "set (dedupe_loop seen ts) = set ts - set seen"
  by (induction ts arbitrary: seen) auto

lemma dedupe_loop_distinct: "distinct (dedupe_loop seen ts)"
  by (induction ts arbitrary: seen) (auto simp: dedupe_loop_set)

lemma set_dedupe [simp]: "set (dedupe ts) = set ts"
  by (simp add: dedupe_def dedupe_loop_set)

lemma distinct_dedupe [simp]: "distinct (dedupe ts)"
  by (simp add: dedupe_def dedupe_loop_distinct)

lemma in_enumerate: "(i, m) \<in> set (enumerate 0 xs) \<longleftrightarrow> i < length xs \<and> m = xs ! i"
  by (auto simp: in_set_enumerate_eq)

lemma set_undominated:
  assumes "distinct ts"
  shows "set (undominated ts) = {m \<in> set ts. \<forall>u\<in>set ts. u \<noteq> m \<longrightarrow> \<not> isSubtype m u}"
proof -
  have "m \<in> set (undominated ts) \<longleftrightarrow> (\<exists>i<length ts. m = ts ! i \<and> (\<forall>j<length ts. i \<noteq> j \<longrightarrow> \<not> isSubtype m (ts ! j)))" for m
    by (force simp: undominated_def list_ex_iff in_enumerate image_iff)
  moreover have "(\<exists>i<length ts. m = ts ! i \<and> (\<forall>j<length ts. i \<noteq> j \<longrightarrow> \<not> isSubtype m (ts ! j))) \<longleftrightarrow>
      m \<in> set ts \<and> (\<forall>u\<in>set ts. u \<noteq> m \<longrightarrow> \<not> isSubtype m u)" for m
    using assms unfolding in_set_conv_nth Ball_def
    by (intro iffI; elim exE conjE) (auto simp: nth_eq_iff_index_eq, metis nth_eq_iff_index_eq)
  ultimately show ?thesis by (simp add: set_eq_iff)
qed

lemma set_sortKeys [simp]: "set (sortKeys ts) = set ts"
  by (simp add: sortKeys_def)

lemma flatten_members_set:
  "flatten_members ms = Some flat \<Longrightarrow>
    x \<in> set flat \<longleftrightarrow> (\<exists>m\<in>set ms. kind m = KindUnion \<and> x \<in> set (elems m)) \<or>
      x \<in> set ms \<and> kind x \<noteq> KindUnion \<and> kind x \<noteq> KindNever"
proof (induction ms arbitrary: flat)
  case (Cons m ms)
  consider "kind m = KindDyn" | "kind m = KindUnion" | "kind m = KindNever"
    | "kind m \<notin> {KindDyn, KindUnion, KindNever}" by blast
  then show ?case
  proof cases
    case 4
    then have "flatten_members (m # ms) = map_option (\<lambda>flat. m # flat) (flatten_members ms)"
      by (simp split: kind.split)
    with Cons.prems obtain flat' where "flatten_members ms = Some flat'" "flat = m # flat'"
      by (simp del: flatten_members.simps) (metis map_option_eq_Some)
    with 4 Cons.IH show ?thesis by auto
  qed (use Cons in auto)
qed simp

section \<open>The laws of an upper bound\<close>

text \<open>The invariant of the interner that \<open>Join\<close> relies on, for a reading \<open>le\<close> of the types as an
  order and a judgement \<open>cls_ok\<close> on recorded linearisations. \<open>upper_in le a b r\<close> is what is known
  of the join \<open>r\<close> of \<open>a\<close> and \<open>b\<close>; every memo entry is such a join.\<close>

definition upper_in :: "(ty \<Rightarrow> ty \<Rightarrow> bool) \<Rightarrow> ty \<Rightarrow> ty \<Rightarrow> ty \<Rightarrow> bool" where
  "upper_in le a b r \<longleftrightarrow> tdepth r \<le> max (tdepth a) (tdepth b) \<and>
     (plain a \<and> plain b \<longrightarrow> plain r \<and> le a r \<and> le b r)"

definition classes_in :: "(class_ref \<Rightarrow> bool) \<Rightarrow> interner \<Rightarrow> bool" where
  "classes_in cls_ok s \<longleftrightarrow>
     (\<forall>n c. map_of (classes s) n = Some c \<longrightarrow> cls_ok c \<and> (\<forall>m\<in>set (MRO c). name_ok m))"

definition arity_ok :: "interner \<Rightarrow> bool" where
  "arity_ok s \<longleftrightarrow> (\<forall>t\<in>set (byID s). (kind t = KindList \<or> kind t = KindSet \<longrightarrow> elems t \<noteq> []) \<and> valid_bits (refine t))"

definition memo_in :: "(ty \<Rightarrow> ty \<Rightarrow> bool) \<Rightarrow> interner \<Rightarrow> bool" where
  "memo_in le s \<longleftrightarrow>
     (\<forall>i j r. joinMemo s (i, j) = Some r \<longrightarrow> i < length (byID s) \<and> j < length (byID s) \<and>
        r \<in> set (byID s) \<and> upper_in le (byID s ! i) (byID s ! j) r)"

definition join_inv :: "(ty \<Rightarrow> ty \<Rightarrow> bool) \<Rightarrow> (class_ref \<Rightarrow> bool) \<Rightarrow> interner \<Rightarrow> bool" where
  "join_inv le cls_ok s \<longleftrightarrow> wf s \<and> classes_in cls_ok s \<and> arity_ok s \<and> memo_in le s"

definition good_in ::
  "(ty \<Rightarrow> ty \<Rightarrow> bool) \<Rightarrow> (class_ref \<Rightarrow> bool) \<Rightarrow> interner \<Rightarrow> ty \<Rightarrow> interner \<Rightarrow> bool"
where
  "good_in le cls_ok s r s' \<longleftrightarrow>
     join_inv le cls_ok s' \<and> hc_ext s s' \<and> meetMemo s' = meetMemo s \<and> r \<in> set (byID s')"

text \<open>
  \<open>le t u\<close> reads ``every value of \<open>t\<close> is a value of \<open>u\<close>'' and \<open>cls_ok c\<close> says that the linearisation
  recorded for a class is right. The laws are what \<open>Join\<close> needs to know about the meaning of each
  kind; nothing about the implementation appears in them except \<^const>\<open>isSubtype\<close> and
  \<^const>\<open>undominated\<close>, whose reading as inclusions is exactly what has to be justified.
\<close>

locale join_order =
  fixes le :: "ty \<Rightarrow> ty \<Rightarrow> bool" and cls_ok :: "class_ref \<Rightarrow> bool"
  assumes le_refl: "le t t"
    and le_trans: "le t u \<Longrightarrow> le u v \<Longrightarrow> le t v"
    and le_dyn: "kind u = KindDyn \<Longrightarrow> le t u"
    and never_le: "kind t = KindNever \<Longrightarrow> le t u"
    and sub_le: "isSubtype a b \<Longrightarrow> wf_ty a \<Longrightarrow> wf_ty b \<Longrightarrow> unref b \<Longrightarrow>
        (\<And>c. tclass a = Some c \<Longrightarrow> cls_ok c) \<Longrightarrow> le a b"
    and strip_le: "like t (set_refine (refine u AND NOT off) u) \<Longrightarrow> le u t"
    and refine_le: "le a t \<Longrightarrow> kind a = kind t \<Longrightarrow> bits AND refine a = bits \<Longrightarrow>
        bits AND RefineExactType = 0 \<Longrightarrow> like u (set_refine (refine t OR bits) t) \<Longrightarrow> le a u"
    and class_le: "kind a = KindClass \<Longrightarrow> tclass a = Some c \<Longrightarrow> cls_ok c \<Longrightarrow> n \<in> set (MRO c) \<Longrightarrow>
        kind u = KindClass \<Longrightarrow> tclass u = Some d \<Longrightarrow> cname d = n \<Longrightarrow> refine u = 0 \<Longrightarrow> le a u"
    and cls_tail: "cls_ok c \<Longrightarrow> MRO c = pre @ n # rest \<Longrightarrow> cls_ok (ClassRef n (n # rest) i)"
    and kept_le: "distinct ts \<Longrightarrow> (\<And>t. t \<in> set ts \<Longrightarrow> wf_ty t \<and> refine t = 0) \<Longrightarrow>
        (\<And>t c. t \<in> set ts \<Longrightarrow> tclass t = Some c \<Longrightarrow> cls_ok c) \<Longrightarrow>
        (\<And>t u. t \<in> set ts \<Longrightarrow> u \<in> set ts \<Longrightarrow> like t u \<Longrightarrow> t = u) \<Longrightarrow>
        (\<And>t u c d. t \<in> set ts \<Longrightarrow> u \<in> set ts \<Longrightarrow> tclass t = Some c \<Longrightarrow> tclass u = Some d \<Longrightarrow>
          cname c = cname d \<Longrightarrow> c = d) \<Longrightarrow>
        (\<And>y. y \<in> set (undominated ts) \<Longrightarrow> le y r) \<Longrightarrow> x \<in> set ts \<Longrightarrow> le x r"
    and union_mem: "kind u = KindUnion \<Longrightarrow> m \<in> set (elems u) \<Longrightarrow> le m u"
    and union_least: "kind u = KindUnion \<Longrightarrow> (\<And>m. m \<in> set (elems u) \<Longrightarrow> le m r) \<Longrightarrow> le u r"
    and seq_le: "kind a = k \<Longrightarrow> kind u = k \<Longrightarrow> k = KindList \<or> k = KindSet \<Longrightarrow> x \<in> set (elems a) \<Longrightarrow>
        le x e \<Longrightarrow> elems u = [e] \<Longrightarrow> le a u"
    and dict_le: "kind a = KindDict \<Longrightarrow> kind u = KindDict \<Longrightarrow> elems a = [x, y] \<Longrightarrow> le x e \<Longrightarrow>
        le y v \<Longrightarrow> elems u = [e, v] \<Longrightarrow> le a u"
    and tuple_le: "kind a = KindTuple \<Longrightarrow> kind u = KindTuple \<Longrightarrow> \<not> variadic a \<Longrightarrow> \<not> variadic u \<Longrightarrow>
        list_all2 le (elems a) (elems u) \<Longrightarrow> le a u"
    and tuplevar_le: "kind a = KindTuple \<Longrightarrow> (variadic a \<Longrightarrow> elems a \<noteq> []) \<Longrightarrow> kind u = KindTuple \<Longrightarrow> variadic u \<Longrightarrow> elems u = [e] \<Longrightarrow>
        (\<And>x. x \<in> set (elems a) \<Longrightarrow> le x e) \<Longrightarrow> le a u"
begin

abbreviation upper where "upper \<equiv> upper_in le"
abbreviation classes_ok where "classes_ok \<equiv> classes_in cls_ok"
abbreviation memo_ok where "memo_ok \<equiv> memo_in le"
abbreviation jinv where "jinv \<equiv> join_inv le cls_ok"
abbreviation good where "good \<equiv> good_in le cls_ok"

lemmas upper_def = upper_in_def [of le]
lemmas classes_ok_def = classes_in_def [of cls_ok]
lemmas memo_ok_def = memo_in_def [of le]
lemmas jinv_def = join_inv_def [of le cls_ok]
lemmas good_def = good_in_def [of le cls_ok]

lemma upper_sym: "upper a b r \<Longrightarrow> upper b a r"
  by (auto simp: upper_def)

lemma memo_ok_ext:
  assumes "memo_ok s" and "hc_ext s s'" and "joinMemo s' = joinMemo s"
  shows "memo_ok s'"
  using assms hc_ext_nth [OF assms(2)] hc_ext_length [OF assms(2)] hc_ext_byID [OF assms(2)]
  unfolding memo_ok_def by (metis order_less_le_trans)

lemma good_step:
  assumes "jinv s" and "hc_step s t s'" and "classes_ok s'"
    and "kind t = KindList \<or> kind t = KindSet \<Longrightarrow> elems t \<noteq> []" and "valid_bits (refine t)"
  shows "good s t s'"
proof -
  have "arity_ok s'" using assms by (auto simp: jinv_def arity_ok_def hc_step_def)
  moreover have "memo_ok s'" using assms memo_ok_ext by (auto simp: jinv_def hc_step_def)
  moreover have "wf s'" using assms wf_step by (auto simp: jinv_def)
  ultimately show ?thesis using assms by (auto simp: good_def jinv_def hc_step_def)
qed

lemma good_same: "jinv s \<Longrightarrow> t \<in> set (byID s) \<Longrightarrow> good s t s"
  by (simp add: good_def)

lemma good_trans: "good s t s' \<Longrightarrow> good s' u s'' \<Longrightarrow> good s u s''"
  by (auto simp: good_def intro: hc_ext_trans)

lemma goodD: "good s t s' \<Longrightarrow> jinv s'" "good s t s' \<Longrightarrow> t \<in> set (byID s')"
    "good s t s' \<Longrightarrow> u \<in> set (byID s) \<Longrightarrow> u \<in> set (byID s')"
  by (auto simp: good_def dest: hc_ext_byID)

lemma jinvD: "jinv s \<Longrightarrow> wf s" "jinv s \<Longrightarrow> hc_wf s" "jinv s \<Longrightarrow> classes_ok s"
  by (simp_all add: jinv_def)

lemma classes_okI: "classes s' = classes s \<Longrightarrow> classes_ok s \<Longrightarrow> classes_ok s'"
  by (simp add: classes_ok_def)

lemma table_class:
  assumes "jinv s" and "t \<in> set (byID s)" and "tclass t = Some c"
  shows "cls_ok c" and "\<forall>m\<in>set (MRO c). name_ok m" and "map_of (classes s) (cname c) = Some c"
  using assms hc_wfD(4) [OF jinvD(2) [OF assms(1)] assms(2)]
  by (auto simp: jinv_def classes_ok_def template_ok_def)

end

subsection \<open>Ancestors and widening\<close>

context join_order
begin

text \<open>\<open>nominal r\<close>: the shape of what the ancestor walk returns.\<close>

definition nominal :: "ty \<Rightarrow> bool" where
  "nominal r \<longleftrightarrow> (kind r = KindClass \<or> kind r = KindDyn) \<and> elems r = [] \<and> refine r = 0"

lemma nominalD: "nominal r \<Longrightarrow> tdepth r = 0 \<and> plain r \<and> unref r"
  unfolding plain_iff [of r] using tdepth_zero [of r] by (auto simp: nominal_def)

lemma dyn_nominal: "wf s \<Longrightarrow> nominal (in_dyn s) \<and> kind (in_dyn s) = KindDyn"
  using singles(8) [of s] by (simp add: nominal_def like_def)

lemma ancestor_loop_spec:
  assumes "jinv s" and "cls_ok ca" and "\<forall>m\<in>set (MRO ca). name_ok m"
    and "MRO ca = pre @ rest"
  shows "\<exists>r s'. ancestor_loop rest inB s = Some (r, s') \<and> good s r s' \<and> nominal r \<and>
    (kind r = KindClass \<longrightarrow> (\<exists>d. tclass r = Some d \<and> cname d \<in> set (MRO ca) \<and> cname d \<in> set inB))"
  using assms(4)
proof (induction rest arbitrary: pre)
  case Nil
  then show ?case
    using assms(1) jinvD dyn_nominal [of s] singles(4) [of s] good_same by auto
next
  case (Cons n rest)
  show ?case
  proof (cases "n \<noteq> ''object'' \<and> n \<in> set inB")
    case True
    have n: "name_ok n" "n \<in> set (MRO ca)" using assms(3) Cons.prems by auto
    obtain t s' c where t: "Class n (n # rest) s = Some (t, s')" "hc_step s t s'"
      "kind t = KindClass" "tclass t = Some c" "cname c = n" "elems t = []" "refine t = 0"
      and new: "map_of (classes s) n = Some c \<and> classes s' = classes s \<or>
        map_of (classes s) n = None \<and> MRO c = n # rest \<and>
        map_of (classes s') = (map_of (classes s))(n \<mapsto> c)"
      using Class_spec [OF jinvD(2) [OF assms(1)] n(1), of "n # rest"] by auto
    have "MRO c = n # rest \<Longrightarrow> cls_ok c"
      using cls_tail [OF assms(2) Cons.prems, of "cid c"] t(5) by (cases c) auto
    with new assms(1,3) Cons.prems have "classes_ok s'"
      unfolding jinv_def classes_ok_def by (auto split: if_splits)
    then have "good s t s'" using good_step [OF assms(1) t(2)] t(3,7) by simp
    with t n True show ?thesis by (auto simp: nominal_def)
  next
    case False
    with Cons.IH [of "pre @ [n]"] Cons.prems show ?thesis by auto
  qed
qed

lemma commonAncestor_spec:
  assumes "jinv s" and "a \<in> set (byID s)" "kind a = KindClass" "tclass a = Some ca"
    and "b \<in> set (byID s)" "kind b = KindClass" "tclass b = Some cb"
  shows "\<exists>r s'. commonAncestor ca cb s = Some (r, s') \<and> good s r s' \<and> nominal r \<and> le a r \<and> le b r"
proof -
  have a: "cls_ok ca" "\<forall>m\<in>set (MRO ca). name_ok m" using table_class assms by blast+
  have b: "cls_ok cb" using table_class assms by blast
  obtain r s' where r: "ancestor_loop (MRO ca) (MRO cb) s = Some (r, s')" "good s r s'" "nominal r"
    "kind r = KindClass \<longrightarrow> (\<exists>d. tclass r = Some d \<and> cname d \<in> set (MRO ca) \<and> cname d \<in> set (MRO cb))"
    using ancestor_loop_spec [OF assms(1) a, of "[]" "MRO ca" "MRO cb"] by auto
  have "le a r \<and> le b r"
  proof (cases "kind r = KindClass")
    case True
    with r obtain d where "tclass r = Some d" "cname d \<in> set (MRO ca)" "cname d \<in> set (MRO cb)" "refine r = 0"
      by (auto simp: nominal_def)
    with True show ?thesis using class_le assms a b by blast
  next
    case False
    with r(3) show ?thesis using le_dyn by (auto simp: nominal_def)
  qed
  with r show ?thesis by (auto simp: commonAncestor_def)
qed

lemma class_of:
  assumes "jinv s" "t \<in> set (byID s)" "kind t = KindClass"
  obtains c where "tclass t = Some c"
  using assms hc_wfD(4) [OF jinvD(2) [OF assms(1)] assms(2)]
  by (cases "tclass t") (auto simp: template_ok_def shape_ok_def)

lemma widen_loop_spec:
  assumes "jinv s" and "acc \<in> set (byID s)" and "set ms \<subseteq> set (byID s)"
  shows "\<exists>r s'. widen_loop acc ms s = Some (r, s') \<and> good s r s' \<and> (r = acc \<or> nominal r) \<and>
    le acc r \<and> (\<forall>m\<in>set ms. le m r)"
  using assms
proof (induction ms arbitrary: acc s)
  case Nil
  then show ?case using good_same le_refl by auto
next
  case (Cons m ms)
  have dyn: "in_dyn s \<in> set (byID s)" "nominal (in_dyn s)" "kind (in_dyn s) = KindDyn" if "jinv s" for s
    using that jinvD(1) dyn_nominal singles(4) by auto
  show ?case
  proof (cases "kind acc = KindClass \<and> kind m = KindClass")
    case False
    with dyn [OF Cons.prems(1)] show ?thesis using good_same [OF Cons.prems(1)] le_dyn by auto
  next
    case True
    obtain ca cm where c: "tclass acc = Some ca" "tclass m = Some cm"
      using class_of Cons.prems True by (metis list.set_intros(1) subsetD)
    obtain r s1 where r: "commonAncestor ca cm s = Some (r, s1)" "good s r s1" "nominal r" "le acc r" "le m r"
      using commonAncestor_spec [OF Cons.prems(1), of acc ca m cm] Cons.prems True c by auto
    show ?thesis
    proof (cases "kind r = KindClass")
      case False
      with True r c dyn [OF goodD(1) [OF r(2)]] show ?thesis
        using good_trans [OF r(2) good_same] goodD [OF r(2)] le_dyn by auto
    next
      case rc: True
      have "set ms \<subseteq> set (byID s1)" using Cons.prems(3) goodD(3) [OF r(2)] by auto
      from Cons.IH [OF goodD(1,2) [OF r(2)] this] obtain r' s' where
        w: "widen_loop r ms s1 = Some (r', s')" "good s1 r' s'" "r' = r \<or> nominal r'" "le r r'"
        "\<forall>m\<in>set ms. le m r'" by auto
      have "widen_loop acc (m # ms) s = Some (r', s')" using True rc r(1) w(1) c by simp
      moreover have "le acc r'" "le m r'" using le_trans r(4,5) w(4) by blast+
      ultimately show ?thesis using good_trans [OF r(2) w(2)] w(3,5) r(3) by auto
    qed
  qed
qed

end

subsection \<open>Unions\<close>

context join_order
begin

text \<open>The members a union may be built from.\<close>

definition member_ok :: "ty \<Rightarrow> bool" where
  "member_ok m \<longleftrightarrow> plain m \<and> (kind m \<noteq> KindUnion \<longrightarrow> unref m)"

lemma flat_member:
  assumes "flatten_members ms = Some flat" and "x \<in> set flat"
  shows "(\<forall>m\<in>set ms. member_ok m) \<Longrightarrow> plain x \<and> unref x"
    and "(\<forall>m\<in>set ms. tdepth m \<le> d) \<Longrightarrow> tdepth x \<le> d"
    and "jinv s \<Longrightarrow> set ms \<subseteq> set (byID s) \<Longrightarrow> x \<in> set (byID s)"
proof -
  consider m where "m \<in> set ms" "kind m = KindUnion" "x \<in> set (elems m)"
    | "x \<in> set ms" "kind x \<noteq> KindUnion"
    using flatten_members_set [OF assms(1), of x] assms(2) by blast
  note c = this
  show "plain x \<and> unref x" if "\<forall>m\<in>set ms. member_ok m"
    using c that plainD by cases (auto simp: member_ok_def)
  show "tdepth x \<le> d" if "\<forall>m\<in>set ms. tdepth m \<le> d"
    using c that tdepth_union by cases blast+
  show "x \<in> set (byID s)" if "jinv s" "set ms \<subseteq> set (byID s)"
    using c that elems_in_table [OF jinvD(2)] by cases blast+
qed

lemma flat_le:
  assumes "flatten_members ms = Some flat" and "\<And>x. x \<in> set flat \<Longrightarrow> le x r" and "m \<in> set ms"
  shows "le m r"
proof -
  consider "kind m = KindNever" | "kind m = KindUnion" | "kind m \<noteq> KindNever" "kind m \<noteq> KindUnion"
    by blast
  then show ?thesis
    using never_le union_least [of m r] assms flatten_members_set [OF assms(1)] by cases blast+
qed

lemma kept_upper:
  assumes "jinv s" and "flatten_members ms = Some flat" and "set ms \<subseteq> set (byID s)"
    and "\<forall>m\<in>set ms. member_ok m" and "\<And>y. y \<in> set (undominated (dedupe flat)) \<Longrightarrow> le y r"
    and "m \<in> set ms"
  shows "le m r"
proof (rule flat_le [OF assms(2) _ assms(6)])
  fix x assume x: "x \<in> set flat"
  show "le x r"
  proof (rule kept_le [of "dedupe flat"])
    fix t assume t: "t \<in> set (dedupe flat)"
    then have tab: "t \<in> set (byID s)" using flat_member(3) [OF assms(2)] assms(1,3) by simp
    have "unref t" using t flat_member(1) [OF assms(2)] assms(4) by simp
    then show "wf_ty t \<and> refine t = 0"
      using valid_unref tab assms(1) hc_wfD(3) [OF jinvD(2) [OF assms(1)]]
      by (auto simp: jinv_def arity_ok_def)
    show "cls_ok c" if "tclass t = Some c" for c using table_class(1) [OF assms(1) tab that] .
    fix u assume "u \<in> set (dedupe flat)"
    then have tab': "u \<in> set (byID s)" using flat_member(3) [OF assms(2)] assms(1,3) by simp
    show "t = u" if "like t u" using canonical_table [OF jinvD(2) [OF assms(1)] tab tab' that] .
    show "c = d" if "tclass t = Some c" "tclass u = Some d" "cname c = cname d" for c d
      using table_class(3) [OF assms(1) tab that(1)] table_class(3) [OF assms(1) tab' that(2)] that(3)
      by (metis option.inject)
  qed (use x assms(5) in simp_all)
qed

lemma undominated_flat: "x \<in> set (undominated (dedupe flat)) \<Longrightarrow> x \<in> set flat"
  by (simp add: set_undominated)

lemma makeUnion_spec:
  assumes "jinv s" and "set ms \<subseteq> set (byID s)"
  shows "\<exists>r s'. makeUnion ms s = Some (r, s') \<and> good s r s' \<and>
    (\<forall>d. (\<forall>m\<in>set ms. tdepth m \<le> d) \<longrightarrow> tdepth r \<le> d) \<and>
    ((\<forall>m\<in>set ms. member_ok m) \<longrightarrow> plain r \<and> unref r \<and> (\<forall>m\<in>set ms. le m r))"
proof (cases "flatten_members ms")
  case None
  have "good s (in_dyn s) s" using good_same singles(4) jinvD assms(1) by blast
  with None dyn_nominal [OF jinvD(1) [OF assms(1)]] show ?thesis
    using nominalD le_dyn by (auto simp: makeUnion_def)
next
  case (Some flat)
  let ?kept = "undominated (dedupe flat)"
  have mem: "x \<in> set (byID s)" if "x \<in> set ?kept" for x
    using that undominated_flat flat_member(3) [OF Some] assms by blast
  have dep: "tdepth x \<le> d" if "x \<in> set ?kept" "\<forall>m\<in>set ms. tdepth m \<le> d" for x d
    using that undominated_flat flat_member(2) [OF Some] by blast
  have pl: "plain x \<and> unref x" if "x \<in> set ?kept" "\<forall>m\<in>set ms. member_ok m" for x
    using that undominated_flat flat_member(1) [OF Some] by blast
  have up: "le m r" if "\<forall>m\<in>set ms. member_ok m" "\<And>y. y \<in> set ?kept \<Longrightarrow> le y r" "m \<in> set ms" for m r
    using kept_upper [OF assms(1) Some assms(2)] that by blast
  consider (empty) "flat = []" | (one) "flat \<noteq> []" "length ?kept = 1"
    | (wide) "flat \<noteq> []" "unionBudget < length ?kept"
    | (union) "flat \<noteq> []" "length ?kept \<noteq> 1" "length ?kept \<le> unionBudget" by linarith
  then show ?thesis
  proof cases
    case empty
    have n: "kind (in_never s) = KindNever" "refine (in_never s) = 0" "elems (in_never s) = []"
      using singles(5) jinvD assms(1) by (auto simp: like_def)
    have "good s (in_never s) s" using good_same singles(1) jinvD assms(1) by blast
    moreover have "plain (in_never s)" "unref (in_never s)" "tdepth (in_never s) = 0"
      using n plain_iff [of "in_never s"] tdepth_zero [of "in_never s"] by auto
    ultimately show ?thesis
      using empty Some flat_le [OF Some] by (auto simp: makeUnion_def)
  next
    case one
    then obtain y where y: "?kept = [y]" by (metis One_nat_def length_0_conv length_Suc_conv)
    then have "good s y s" using good_same mem assms(1) by simp
    with one y show ?thesis
      using Some up [of y] pl [of y] dep [of y] le_refl by (auto simp: makeUnion_def Let_def)
  next
    case wide
    then obtain y ys where y: "?kept = y # ys" by (cases ?kept) auto
    obtain r s' where r: "widen_loop y ys s = Some (r, s')" "good s r s'" "r = y \<or> nominal r"
      "le y r" "\<forall>m\<in>set ys. le m r"
      using widen_loop_spec [OF assms(1), of y ys] mem y by auto
    have "makeUnion ms s = Some (r, s')"
      using wide Some y r(1) by (auto simp: makeUnion_def Let_def widen_def unionBudget_def)
    moreover have "tdepth r \<le> d" if "\<forall>m\<in>set ms. tdepth m \<le> d" for d
      using r(3) dep [of y] y that nominalD by auto
    moreover have "plain r \<and> unref r" if "\<forall>m\<in>set ms. member_ok m"
      using r(3) pl [of y] y that nominalD by auto
    moreover have "le z r" if "z \<in> set ?kept" for z using that y r(4,5) by auto
    then have "le m r" if "\<forall>m\<in>set ms. member_ok m" "m \<in> set ms" for m using up that by blast
    ultimately show ?thesis using r(2) by blast
  next
    case union
    let ?t = "Type KindUnion None (sortKeys ?kept) None False 0 0"
    obtain r s' where r: "intern ?t s = Some (r, s')" "hc_step s r s'" "classes s' = classes s" "like r ?t"
      using container_spec [OF jinvD(2) [OF assms(1)], of "sortKeys ?kept" KindUnion False 0] mem by auto
    have k: "kind r = KindUnion" "set (elems r) = set ?kept" "refine r = 0" using r(4) by (auto simp: like_def)
    have "good s r s'"
      using good_step [OF assms(1) r(2)] classes_okI [OF r(3)] jinvD(3) [OF assms(1)] k(1,3) by simp
    moreover have "makeUnion ms s = Some (r, s')"
      using union Some r(1) by (simp add: makeUnion_def Let_def)
    moreover have "tdepth r \<le> d" if "\<forall>m\<in>set ms. tdepth m \<le> d" for d
      using tdepth_union [OF k(1)] k(2) dep that by blast
    moreover have "plain r \<and> unref r" if "\<forall>m\<in>set ms. member_ok m"
      using plain_iff [of r] k pl that by simp
    moreover have "le m r" if "\<forall>m\<in>set ms. member_ok m" "m \<in> set ms" for m
      using up that union_mem [OF k(1)] k(2) by blast
    ultimately show ?thesis by blast
  qed
qed

end

subsection \<open>Tuples\<close>

context join_order
begin

text \<open>\<open>Jspec J n\<close>: the recursive call is correct below depth \<open>n\<close>.\<close>

definition Jspec :: "(ty \<Rightarrow> ty \<Rightarrow> ty run) \<Rightarrow> nat \<Rightarrow> bool" where
  "Jspec J n \<longleftrightarrow> (\<forall>s a b. jinv s \<longrightarrow> a \<in> set (byID s) \<longrightarrow> b \<in> set (byID s) \<longrightarrow> tdepth a < n \<longrightarrow> tdepth b < n \<longrightarrow>
     (\<exists>r s'. J a b s = Some (r, s') \<and> good s r s' \<and> upper a b r))"

lemma JspecD:
  assumes "Jspec J n" "jinv s" "a \<in> set (byID s)" "b \<in> set (byID s)" "tdepth a < n" "tdepth b < n"
  obtains r s' where "J a b s = Some (r, s')" "good s r s'" "upper a b r"
  using assms unfolding Jspec_def by blast

lemma join_positions_spec:
  assumes "Jspec J n" and "jinv s" and "length as = length bs"
    and "set as \<subseteq> set (byID s)" "set bs \<subseteq> set (byID s)"
    and "\<forall>a\<in>set as \<union> set bs. tdepth a < n"
  shows "\<exists>ps s'. join_positions J as bs s = Some (ps, s') \<and> jinv s' \<and> hc_ext s s' \<and> meetMemo s' = meetMemo s \<and>
    set ps \<subseteq> set (byID s') \<and> length ps = length as \<and>
    (\<forall>i<length as. upper (as ! i) (bs ! i) (ps ! i))"
  using assms(3,2,4-6)
proof (induction as bs arbitrary: s rule: list_induct2)
  case Nil
  then show ?case by simp
next
  case (Cons a as b bs)
  obtain r s1 where r: "J a b s = Some (r, s1)" "good s r s1" "upper a b r"
    by (rule JspecD [OF assms(1) Cons.prems(1), of a b]) (use Cons.prems in auto)
  have "set as \<subseteq> set (byID s1)" "set bs \<subseteq> set (byID s1)"
    using Cons.prems goodD(3) [OF r(2)] by auto
  with Cons.IH [OF goodD(1) [OF r(2)]] Cons.prems(4) obtain ps s' where
    ps: "join_positions J as bs s1 = Some (ps, s')" "jinv s'" "hc_ext s1 s'" "set ps \<subseteq> set (byID s')"
    "meetMemo s' = meetMemo s1"
    "length ps = length as" "\<forall>i<length as. upper (as ! i) (bs ! i) (ps ! i)" by auto
  have "hc_ext s s1" "meetMemo s1 = meetMemo s" "r \<in> set (byID s')"
    using r(2) ps(3) hc_ext_byID by (auto simp: good_def)
  moreover have "\<forall>i<length (a # as). upper ((a # as) ! i) ((b # bs) ! i) ((r # ps) ! i)"
    using r(3) ps(7) by (simp add: nth_Cons split: nat.split)
  ultimately show ?case using r(1) ps by (auto intro: hc_ext_trans)
qed

lemma join_all_spec:
  assumes "Jspec J n" and "jinv s" and "acc \<in> set (byID s)" and "set es \<subseteq> set (byID s)"
    and "d < n" and "tdepth acc \<le> d" and "\<forall>e\<in>set es. tdepth e \<le> d"
  shows "\<exists>r s'. join_all J acc es s = Some (r, s') \<and> good s r s' \<and> tdepth r \<le> d \<and>
    (plain acc \<and> (\<forall>e\<in>set es. plain e) \<longrightarrow> plain r \<and> le acc r \<and> (\<forall>e\<in>set es. le e r))"
  using assms(2-4,6-7)
proof (induction es arbitrary: acc s)
  case Nil
  then show ?case using good_same le_refl by simp
next
  case (Cons e es)
  obtain r s1 where r: "J acc e s = Some (r, s1)" "good s r s1" "upper acc e r"
    by (rule JspecD [OF assms(1) Cons.prems(1), of acc e]) (use Cons.prems assms(5) in auto)
  have "tdepth r \<le> d" using r(3) Cons.prems(4,5) by (auto simp: upper_def)
  moreover have "set es \<subseteq> set (byID s1)" using Cons.prems(3) goodD(3) [OF r(2)] by auto
  ultimately obtain q s' where q: "join_all J r es s1 = Some (q, s')" "good s1 q s'" "tdepth q \<le> d"
    "plain r \<and> (\<forall>e\<in>set es. plain e) \<longrightarrow> plain q \<and> le r q \<and> (\<forall>e\<in>set es. le e q)"
    using Cons.IH [OF goodD(1,2) [OF r(2)]] Cons.prems(5) by auto
  have "join_all J acc (e # es) s = Some (q, s')" using r(1) q(1) by simp
  moreover have "plain q \<and> le acc q \<and> (\<forall>x\<in>set (e # es). le x q)"
    if "plain acc" "\<forall>x\<in>set (e # es). plain x"
  proof -
    have "plain r" "le acc r" "le e r" using r(3) that by (auto simp: upper_def)
    moreover from this q(4) that have "plain q" "le r q" "\<forall>x\<in>set es. le x q" by auto
    ultimately show ?thesis using le_trans by auto
  qed
  ultimately show ?case using good_trans [OF r(2) q(2)] q(3) by blast
qed

lemma never_facts:
  assumes "jinv s"
  shows "kind (in_never s) = KindNever" "tdepth (in_never s) = 0" "plain (in_never s)" "in_never s \<in> set (byID s)"
  using singles(1,5) [OF jinvD(1) [OF assms]] tdepth_zero [of "in_never s"] plain_iff [of "in_never s"]
  by (auto simp: like_def)

lemma tuple_result:
  assumes "jinv s" and "set es \<subseteq> set (byID s)" and "v \<longrightarrow> length es = 1"
  obtains r s' where "intern (Type KindTuple None es None v 0 0) s = Some (r, s')" "good s r s'"
    "kind r = KindTuple" "elems r = es" "variadic r = v" "refine r = 0"
proof -
  obtain r s' where "intern (Type KindTuple None es None v 0 0) s = Some (r, s')" "hc_step s r s'"
    "classes s' = classes s" "like r (Type KindTuple None es None v 0 0)"
    using container_spec [OF jinvD(2) [OF assms(1)], of es KindTuple v 0] assms(2,3) by auto
  moreover from this have "good s r s'"
    by (intro good_step [OF assms(1)] classes_okI [OF _ jinvD(3) [OF assms(1)]]) (auto simp: like_def)
  ultimately show ?thesis by (intro that) (auto simp: like_def)
qed

lemma joinTuples_fixed:
  assumes J: "Jspec J n" and s: "jinv s"
    and a: "a \<in> set (byID s)" "kind a = KindTuple" "tdepth a \<le> n"
    and b: "b \<in> set (byID s)" "kind b = KindTuple" "tdepth b \<le> n"
    and fixed: "\<not> variadic a" "\<not> variadic b" "length (elems a) = length (elems b)"
  shows "\<exists>r s'. joinTuples J a b s = Some (r, s') \<and> good s r s' \<and> upper a b r"
proof -
  have el: "set (elems a) \<subseteq> set (byID s)" "set (elems b) \<subseteq> set (byID s)"
    using elems_in_table [OF jinvD(2) [OF s]] a b by auto
  have lt: "tdepth e < tdepth a" if "e \<in> set (elems a)" for e using tdepth_elem that a by simp
  have lt': "tdepth e < tdepth b" if "e \<in> set (elems b)" for e using tdepth_elem that b by simp
  obtain ps s1 where ps: "join_positions J (elems a) (elems b) s = Some (ps, s1)" "jinv s1"
    "hc_ext s s1" "set ps \<subseteq> set (byID s1)" "meetMemo s1 = meetMemo s" "length ps = length (elems a)"
    "\<forall>i<length (elems a). upper (elems a ! i) (elems b ! i) (ps ! i)"
    using join_positions_spec [OF J s fixed(3) el] lt lt' a(3) b(3) by fastforce
  obtain r s' where r: "Tuple ps s1 = Some (r, s')" "good s1 r s'" "kind r = KindTuple"
    "elems r = ps" "variadic r = False" "refine r = 0"
    unfolding Tuple_def by (rule tuple_result [OF ps(2,4), of False]) simp
  have ab: "elems a ! i \<in> set (elems a)" "elems b ! i \<in> set (elems b)"
    "upper (elems a ! i) (elems b ! i) (ps ! i)" if "i < length ps" for i using ps fixed that by auto
  have "tdepth (ps ! i) < max (tdepth a) (tdepth b)" if "i < length ps" for i
    using ab [OF that] lt [OF ab(1) [OF that]] lt' [OF ab(2) [OF that]] by (auto simp: upper_def)
  moreover have "0 < tdepth a" using a(2) by (cases a) simp
  ultimately have "tdepth r \<le> max (tdepth a) (tdepth b)"
    using tdepth_container [of r] r(3,4) by (auto simp: in_set_conv_nth)
  moreover have "plain r \<and> le a r \<and> le b r" if "plain a" "plain b"
  proof -
    have "plain (ps ! i) \<and> le (elems a ! i) (ps ! i) \<and> le (elems b ! i) (ps ! i)" if "i < length ps" for i
      using plainD(1) [OF \<open>plain a\<close>] plainD(1) [OF \<open>plain b\<close>] ab [OF that] by (auto simp: upper_def)
    then show ?thesis
      using tuple_le [of a r] tuple_le [of b r] a(2) b(2) r(3-6) fixed ps(6) plain_iff [of r]
      by (auto simp: list_all2_conv_all_nth in_set_conv_nth)
  qed
  ultimately have "upper a b r" by (simp add: upper_def)
  moreover have "joinTuples J a b s = Some (r, s')" using fixed ps(1) r(1) by (simp add: joinTuples_def)
  moreover have "good s r s'" using ps(3,5) r(2) hc_ext_trans by (auto simp: good_def)
  ultimately show ?thesis by blast
qed

lemma joinTuples_variadic:
  assumes J: "Jspec J n" and s: "jinv s"
    and a: "a \<in> set (byID s)" "kind a = KindTuple" "tdepth a \<le> n"
    and b: "b \<in> set (byID s)" "kind b = KindTuple" "tdepth b \<le> n"
    and var: "\<not> (\<not> variadic a \<and> \<not> variadic b \<and> length (elems a) = length (elems b))"
  shows "\<exists>r s'. joinTuples J a b s = Some (r, s') \<and> good s r s' \<and> upper a b r"
proof -
  let ?d = "max (tdepth a) (tdepth b) - 1"
  have el: "set (elems a) \<subseteq> set (byID s)" "set (elems b) \<subseteq> set (byID s)"
    using elems_in_table [OF jinvD(2) [OF s]] a b by auto
  have pos: "0 < tdepth a" using a(2) by (cases a) simp
  then have d: "?d < n" "?d < max (tdepth a) (tdepth b)" using a(3) b(3) by auto
  have le_d: "tdepth e \<le> ?d" if "e \<in> set (elems a) \<union> set (elems b)" for e
    using that tdepth_elem [of a e] tdepth_elem [of b e] a(2) b(2) by fastforce
  have nv: "tdepth (in_never s) = 0" "plain (in_never s)" "in_never s \<in> set (byID s)"
    using never_facts [OF s] by auto
  obtain e s1 where e: "join_all J (in_never s) (elems a) s = Some (e, s1)" "good s e s1"
    "tdepth e \<le> ?d" "(\<forall>x\<in>set (elems a). plain x) \<longrightarrow> plain e \<and> (\<forall>x\<in>set (elems a). le x e)"
    using join_all_spec [OF J s nv(3) el(1) d(1)] nv(1,2) le_d by auto
  have sub: "set (elems b) \<subseteq> set (byID s1)" using el(2) goodD(3) [OF e(2)] by auto
  obtain f s2 where f: "join_all J e (elems b) s1 = Some (f, s2)" "good s1 f s2" "tdepth f \<le> ?d"
    "plain e \<and> (\<forall>x\<in>set (elems b). plain x) \<longrightarrow> plain f \<and> le e f \<and> (\<forall>x\<in>set (elems b). le x f)"
    using join_all_spec [OF J goodD(1,2) [OF e(2)] sub d(1) e(3)] le_d by auto
  obtain r s' where r: "TupleVar f s2 = Some (r, s')" "good s2 r s'" "kind r = KindTuple"
    "elems r = [f]" "variadic r = True" "refine r = 0"
    unfolding TupleVar_def
    by (rule tuple_result [OF goodD(1) [OF f(2)], of "[f]" True]) (use goodD(2) [OF f(2)] in auto)
  have "tdepth r \<le> max (tdepth a) (tdepth b)" using tdepth_container [of r] r(3,4) f(3) d(2) by auto
  moreover have "plain r \<and> le a r \<and> le b r" if "plain a" "plain b"
  proof -
    have "plain e" "\<forall>x\<in>set (elems a). le x e" using e(4) plainD(1) that by auto
    moreover from this f(4) plainD(1) that have "plain f" "le e f" "\<forall>x\<in>set (elems b). le x f" by auto
    ultimately have "\<forall>x\<in>set (elems a) \<union> set (elems b). le x f" "plain f" using le_trans by blast+
    moreover have "variadic t \<Longrightarrow> elems t \<noteq> []" if "t \<in> set (byID s)" for t
      using hc_wfD(4) [OF jinvD(2) [OF s] that] by (auto simp: template_ok_def shape_ok_def)
    ultimately show ?thesis
      using tuplevar_le [of a r f] tuplevar_le [of b r f] a(1,2) b(1,2) r(3-6) plain_iff [of r] by simp
  qed
  ultimately have "upper a b r" by (simp add: upper_def)
  moreover have "joinTuples J a b s = Some (r, s')" using var e(1) f(1) r(1) by (auto simp: joinTuples_def)
  ultimately show ?thesis using good_trans [OF good_trans [OF e(2) f(2)] r(2)] by blast
qed

end

subsection \<open>Join\<close>

context join_order
begin

lemma elem_spec:
  assumes J: "Jspec J n" and s: "jinv s"
    and a: "a \<in> set (byID s)" "kind a \<in> {KindList, KindSet, KindDict}" "tdepth a \<le> n" "x \<in> set (elems a)"
    and b: "b \<in> set (byID s)" "kind b \<in> {KindList, KindSet, KindDict}" "tdepth b \<le> n" "y \<in> set (elems b)"
  obtains e s' where "J x y s = Some (e, s')" "good s e s'" "upper x y e"
    "tdepth e < max (tdepth a) (tdepth b)"
proof -
  have tab: "x \<in> set (byID s)" "y \<in> set (byID s)" using elems_in_table [OF jinvD(2) [OF s]] a b by auto
  have lt: "tdepth x < tdepth a" "tdepth y < tdepth b" using tdepth_elem a b by auto
  obtain e s' where "J x y s = Some (e, s')" "good s e s'" "upper x y e"
    by (rule JspecD [OF J s tab]) (use a(3) b(3) lt in auto)
  moreover from this(3) lt have "tdepth e < max (tdepth a) (tdepth b)" by (auto simp: upper_def)
  ultimately show ?thesis by (rule that)
qed

lemma container_result:
  assumes "jinv s" and "set es \<subseteq> set (byID s)"
    and "k = KindList \<or> k = KindSet \<or> k = KindDict" and "length es = (if k = KindDict then 2 else 1)"
  obtains r s' where "intern (Type k None es None False 0 0) s = Some (r, s')" "good s r s'"
    "kind r = k" "elems r = es" "refine r = 0"
proof -
  obtain r s' where "intern (Type k None es None False 0 0) s = Some (r, s')" "hc_step s r s'"
    "classes s' = classes s" "like r (Type k None es None False 0 0)"
    using container_spec [OF jinvD(2) [OF assms(1)] assms(2), of k False 0] assms(3,4) by auto
  moreover from this have "good s r s'"
    using assms(4)
    by (intro good_step [OF assms(1)] classes_okI [OF _ jinvD(3) [OF assms(1)]]) (auto simp: like_def split: if_splits)
  ultimately show ?thesis by (intro that) (auto simp: like_def)
qed

lemma seq_join_spec:
  assumes J: "Jspec J n" and s: "jinv s"
    and a: "a \<in> set (byID s)" "kind a = k" "tdepth a \<le> n"
    and b: "b \<in> set (byID s)" "kind b = k" "tdepth b \<le> n"
    and k: "k = KindList \<or> k = KindSet"
  shows "\<exists>r s'. Option.bind (elem_at a 0) (\<lambda>x. Option.bind (elem_at b 0) (\<lambda>y.
      Option.bind (J x y s) (\<lambda>(e, s). intern (Type k None [e] None False 0 0) s))) = Some (r, s') \<and>
    good s r s' \<and> upper a b r"
proof -
  have "elems a \<noteq> []" "elems b \<noteq> []" using s a b k by (auto simp: jinv_def arity_ok_def)
  then have x: "elem_at a 0 = Some (elems a ! 0)" "elems a ! 0 \<in> set (elems a)"
    and y: "elem_at b 0 = Some (elems b ! 0)" "elems b ! 0 \<in> set (elems b)" by (auto simp: elem_at_def)
  obtain e s1 where e: "J (elems a ! 0) (elems b ! 0) s = Some (e, s1)" "good s e s1"
    "upper (elems a ! 0) (elems b ! 0) e" "tdepth e < max (tdepth a) (tdepth b)"
    by (rule elem_spec [OF J s, of a "elems a ! 0" b "elems b ! 0"]) (use a b k x y in auto)
  obtain r s' where r: "intern (Type k None [e] None False 0 0) s1 = Some (r, s')" "good s1 r s'"
    "kind r = k" "elems r = [e]" "refine r = 0"
    by (rule container_result [OF goodD(1) [OF e(2)], of "[e]" k]) (use k goodD(2) [OF e(2)] in auto)
  have "tdepth r \<le> max (tdepth a) (tdepth b)" using r(3,4) e(4) k by (intro tdepth_result) auto
  moreover have "plain r \<and> le a r \<and> le b r" if "plain a" "plain b"
  proof -
    have "plain e \<and> le (elems a ! 0) e \<and> le (elems b ! 0) e"
      using e(3) plainD(1) that x(2) y(2) by (auto simp: upper_def)
    then show ?thesis
      using seq_le [of a k r "elems a ! 0" e] seq_le [of b k r "elems b ! 0" e] a(2) b(2) k r(3-5) x(2) y(2)
        plain_iff [of r] by auto
  qed
  ultimately show ?thesis using x(1) y(1) e(1) r(1) good_trans [OF e(2) r(2)] by (simp add: upper_def)
qed

lemma dict_join_spec:
  assumes J: "Jspec J n" and s: "jinv s"
    and a: "a \<in> set (byID s)" "kind a = KindDict" "tdepth a \<le> n"
    and b: "b \<in> set (byID s)" "kind b = KindDict" "tdepth b \<le> n"
  shows "\<exists>r s'. do { x \<leftarrow> elem_at a 0; y \<leftarrow> elem_at b 0; (k, s) \<leftarrow> J x y s;
      x \<leftarrow> elem_at a 1; y \<leftarrow> elem_at b 1; (v, s) \<leftarrow> J x y s; Dict k v s } = Some (r, s') \<and>
    good s r s' \<and> upper a b r"
proof -
  have len: "length (elems t) = 2" if "t \<in> set (byID s)" "kind t = KindDict" for t
    using hc_wfD(4) [OF jinvD(2) [OF s] that(1)] that(2) by (auto simp: template_ok_def shape_ok_def)
  obtain x x' where x: "elems a = [x, x']" using len [OF a(1,2)] by (auto simp: length_Suc_conv numeral_2_eq_2)
  obtain y y' where y: "elems b = [y, y']" using len [OF b(1,2)] by (auto simp: length_Suc_conv numeral_2_eq_2)
  obtain k s1 where k: "J x y s = Some (k, s1)" "good s k s1" "upper x y k" "tdepth k < max (tdepth a) (tdepth b)"
    by (rule elem_spec [OF J s, of a x b y]) (use a b x y in auto)
  obtain v s2 where v: "J x' y' s1 = Some (v, s2)" "good s1 v s2" "upper x' y' v"
    "tdepth v < max (tdepth a) (tdepth b)"
    by (rule elem_spec [OF J goodD(1) [OF k(2)], of a x' b y']) (use a b x y goodD(3) [OF k(2)] in auto)
  obtain r s' where r: "Dict k v s2 = Some (r, s')" "good s2 r s'" "kind r = KindDict" "elems r = [k, v]" "refine r = 0"
    unfolding Dict_def
    by (rule container_result [OF goodD(1) [OF v(2)], of "[k, v]" KindDict]) (use goodD(2,3) [OF v(2)] goodD(2) [OF k(2)] in auto)
  have "tdepth r \<le> max (tdepth a) (tdepth b)" using r(3,4) k(4) v(4) by (intro tdepth_result) auto
  moreover have "plain r \<and> le a r \<and> le b r" if "plain a" "plain b"
  proof -
    have "plain k \<and> le x k \<and> le y k" "plain v \<and> le x' v \<and> le y' v"
      using k(3) v(3) plainD(1) [OF that(1)] plainD(1) [OF that(2)] x y by (auto simp: upper_def)
    then show ?thesis
      using dict_le [OF a(2) r(3) x _ _ r(4)] dict_le [OF b(2) r(3) y _ _ r(4)] r(3-5) plain_iff [of r] by simp
  qed
  ultimately show ?thesis
    using x y k(1) v(1) r(1) good_trans [OF good_trans [OF k(2) v(2)] r(2)]
    by (simp add: upper_def elem_at_def)
qed

lemma upper_self: "upper a a a"
  by (simp add: upper_def le_refl)

lemma upper_sub:
  assumes "jinv s" "a \<in> set (byID s)" "b \<in> set (byID s)" "unref b" "isSubtype a b"
  shows "upper a b b"
proof -
  have "le a b"
    using assms table_class(1) [OF assms(1,2)] hc_wfD(3) [OF jinvD(2) [OF assms(1)]]
    by (intro sub_le) auto
  then show ?thesis by (simp add: upper_def le_refl)
qed

lemma upper_dyn:
  assumes "jinv s"
  shows "good s (in_dyn s) s \<and> upper a b (in_dyn s)"
  using dyn_nominal [OF jinvD(1) [OF assms]] nominalD le_dyn good_same [OF assms]
    singles(4) [OF jinvD(1) [OF assms]] by (auto simp: upper_def)

lemma joinTuples_spec:
  assumes "Jspec J n" and "jinv s"
    and "a \<in> set (byID s)" "kind a = KindTuple" "tdepth a \<le> n"
    and "b \<in> set (byID s)" "kind b = KindTuple" "tdepth b \<le> n"
  shows "\<exists>r s'. joinTuples J a b s = Some (r, s') \<and> good s r s' \<and> upper a b r"
  using joinTuples_fixed [OF assms] joinTuples_variadic [OF assms] by blast

lemma shape_join_spec:
  assumes J: "Jspec J n" and s: "jinv s"
    and a: "a \<in> set (byID s)" "unref a" "tdepth a \<le> n"
    and b: "b \<in> set (byID s)" "unref b" "tdepth b \<le> n"
    and struct: "a \<noteq> b" "\<not> isSubtype a b" "\<not> isSubtype b a"
      "\<not> (kind a = KindClass \<or> kind a = KindProto)" "\<not> (kind b = KindClass \<or> kind b = KindProto)"
  shows "\<exists>r s'. structuralJoin J a b s = Some (r, s') \<and> good s r s' \<and> upper a b r"
proof -
  have run: "structuralJoin J a b s =
    (if kind a = kind b \<and> kind a = KindList then do {
       x \<leftarrow> elem_at a 0; y \<leftarrow> elem_at b 0; (e, s) \<leftarrow> J x y s; List e s }
     else if kind a = kind b \<and> kind a = KindSet then do {
       x \<leftarrow> elem_at a 0; y \<leftarrow> elem_at b 0; (e, s) \<leftarrow> J x y s; Set e s }
     else if kind a = kind b \<and> kind a = KindDict then do {
       x \<leftarrow> elem_at a 0; y \<leftarrow> elem_at b 0; (k, s) \<leftarrow> J x y s;
       x \<leftarrow> elem_at a 1; y \<leftarrow> elem_at b 1; (v, s) \<leftarrow> J x y s; Dict k v s }
     else if kind a = kind b \<and> kind a = KindTuple then joinTuples J a b s
     else makeUnion [a, b] s)" using struct by (simp add: structuralJoin_def)
  have "\<exists>r s'. makeUnion [a, b] s = Some (r, s') \<and> good s r s' \<and> upper a b r"
    using makeUnion_spec [OF s, of "[a, b]"] a b by (fastforce simp: upper_def member_ok_def)
  then show ?thesis
    unfolding run List_def ListN_def Set_def
    using seq_join_spec [OF J s a(1) _ a(3) b(1) _ b(3)] dict_join_spec [OF J s a(1) _ a(3) b(1) _ b(3)]
      joinTuples_spec [OF J s a(1) _ a(3) b(1) _ b(3)]
    by (auto split: if_splits)
qed

lemma structuralJoin_spec:
  assumes J: "Jspec J n" and s: "jinv s"
    and a: "a \<in> set (byID s)" "unref a" "tdepth a \<le> n"
    and b: "b \<in> set (byID s)" "unref b" "tdepth b \<le> n"
  shows "\<exists>r s'. structuralJoin J a b s = Some (r, s') \<and> good s r s' \<and> upper a b r"
proof -
  let ?nom = "\<lambda>t. kind t = KindClass \<or> kind t = KindProto"
  consider (eq) "a = b" | (sub) "a \<noteq> b" "isSubtype a b"
    | (sup) "a \<noteq> b" "\<not> isSubtype a b" "isSubtype b a"
    | (cls) "a \<noteq> b" "\<not> isSubtype a b" "\<not> isSubtype b a" "kind a = KindClass" "kind b = KindClass"
    | (mix) "a \<noteq> b" "\<not> isSubtype a b" "\<not> isSubtype b a" "?nom a \<or> ?nom b" "\<not> (kind a = KindClass \<and> kind b = KindClass)"
    | (struct) "a \<noteq> b" "\<not> isSubtype a b" "\<not> isSubtype b a" "\<not> ?nom a" "\<not> ?nom b" by blast
  then show ?thesis
  proof cases
    case eq
    with good_same [OF s a(1)] upper_self show ?thesis by (auto simp: structuralJoin_def)
  next
    case sub
    with good_same [OF s b(1)] upper_sub [OF s a(1) b(1,2)] show ?thesis by (auto simp: structuralJoin_def)
  next
    case sup
    with good_same [OF s a(1)] upper_sym [OF upper_sub [OF s b(1) a(1,2)]] show ?thesis
      by (auto simp: structuralJoin_def)
  next
    case cls
    obtain ca cb where c: "tclass a = Some ca" "tclass b = Some cb"
      using class_of [OF s a(1) cls(4)] class_of [OF s b(1) cls(5)] by metis
    obtain r s' where "commonAncestor ca cb s = Some (r, s')" "good s r s'" "nominal r" "le a r" "le b r"
      using commonAncestor_spec [OF s a(1) cls(4) c(1) b(1) cls(5) c(2)] by blast
    with cls c nominalD [of r] show ?thesis by (auto simp: structuralJoin_def upper_def)
  next
    case mix
    then have "structuralJoin J a b s = Some (in_dyn s, s)" by (auto simp: structuralJoin_def)
    with upper_dyn [OF s] show ?thesis by blast
  next
    case struct
    then show ?thesis using shape_join_spec [OF J s a b] by blast
  qed
qed

lemma refine_step:
  assumes s: "jinv s" and t: "t \<in> set (byID s)" and step: "hc_step s t' s'" "classes s' = classes s"
    and like: "like t' (set_refine r t)" and r: "valid_bits r"
  shows "good s t' s'" and "tdepth t' = tdepth t" and "kind t' = kind t" and "elems t' = elems t"
proof -
  show k: "kind t' = kind t" "elems t' = elems t" using like by (auto simp: like_def)
  then show "tdepth t' = tdepth t" by (rule tdepth_same)
  show "good s t' s'"
    using s t k r like
    by (intro good_step [OF s step(1)] classes_okI [OF step(2) jinvD(3) [OF s]])
      (auto simp: jinv_def arity_ok_def like_def)
qed

lemma strip_spec:
  assumes s: "jinv s" and t: "t \<in> set (byID s)"
  obtains t' s' where "stripRefine t s = Some (t', s')" "good s t' s'" "tdepth t' = tdepth t"
    "kind t' = kind t" "unref t'" "plain t \<longrightarrow> plain t'" "le t t'"
proof -
  obtain t' s' where t': "stripRefine t s = Some (t', s')" "hc_step s t' s'" "classes s' = classes s"
    "like t' (set_refine (refine t AND NOT all_bits) t)"
    using stripRefine_spec [OF jinvD(2) [OF s] t] by blast
  have v: "valid_bits (refine t AND NOT all_bits)"
    using s t valid_and_not by (auto simp: jinv_def arity_ok_def)
  have "plain t \<longrightarrow> plain t'" using strip_plain [OF t'(4)] by simp
  then show ?thesis
    by (rule that [OF t'(1) refine_step(1-3) [OF s t t'(2-4) v] strip_unref [OF t'(4)] _ strip_le [OF t'(4)]])
qed

lemma and_common: "(r AND q) AND r = r AND q" "(r AND q) AND q = r AND q" for r q :: refine
  by (simp_all add: ac_simps)

lemma bits_result:
  assumes s: "jinv s" and t: "t \<in> set (byID s)" and up: "upper a b t" and v: "valid_bits (refine a)"
    and k: "kind t = kind a" "kind t = kind b"
  shows "\<exists>r s'. WithRefine t (refine a AND refine b) s = Some (r, s') \<and> good s r s' \<and> upper a b r"
proof -
  let ?c = "refine a AND refine b"
  obtain r s' where r: "WithRefine t ?c s = Some (r, s')" "hc_step s r s'" "classes s' = classes s"
    "like r (set_refine (refine t OR ?c) t)"
    using WithRefine_spec [OF jinvD(2) [OF s] t] by blast
  have "valid_bits (refine t)" using s t by (simp add: jinv_def arity_ok_def)
  note rs = refine_step [OF s t r(2-4) valid_or_and [OF this v]]
  have "plain r \<and> le a r \<and> le b r" if "plain a" "plain b"
  proof -
    have t': "plain t" "le a t" "le b t" using up that by (auto simp: upper_def)
    have ex: "?c AND RefineExactType = 0" using plainD(3) [OF that(1)] by (metis and.assoc and.commute and_zero_eq)
    then have "(refine t OR ?c) AND RefineExactType = refine t AND RefineExactType"
      by (simp add: bit.conj_disj_distrib2)
    then have "plain r" using plain_same [of r t] t'(1) rs(3,4) r(4) by (simp add: like_def)
    moreover have "le a r" by (rule refine_le [OF t'(2) _ and_common(1) ex r(4)]) (simp add: k)
    moreover have "le b r" by (rule refine_le [OF t'(3) _ and_common(2) ex r(4)]) (use k in simp)
    ultimately show ?thesis by simp
  qed
  with r(1) rs(1,2) up show ?thesis by (simp add: upper_def)
qed

lemma joinUncached_spec:
  assumes J: "Jspec J n" and s: "jinv s"
    and a: "a \<in> set (byID s)" "tdepth a \<le> n" and b: "b \<in> set (byID s)" "tdepth b \<le> n"
  shows "\<exists>r s'. joinUncached J a b s = Some (r, s') \<and> good s r s' \<and> upper a b r"
proof -
  consider (dyn) "kind a = KindDyn \<or> kind b = KindDyn"
    | (an) "\<not> (kind a = KindDyn \<or> kind b = KindDyn)" "kind a = KindNever"
    | (bn) "\<not> (kind a = KindDyn \<or> kind b = KindDyn)" "kind a \<noteq> KindNever" "kind b = KindNever"
    | (gen) "\<not> (kind a = KindDyn \<or> kind b = KindDyn)" "kind a \<noteq> KindNever" "kind b \<noteq> KindNever" by blast
  then show ?thesis
  proof cases
    case dyn
    with upper_dyn [OF s] show ?thesis by (auto simp: joinUncached_def)
  next
    case an
    with good_same [OF s b(1)] never_le le_refl show ?thesis by (auto simp: joinUncached_def upper_def)
  next
    case bn
    with good_same [OF s a(1)] never_le le_refl show ?thesis by (auto simp: joinUncached_def upper_def)
  next
    case gen
    obtain sa s1 where sa: "stripRefine a s = Some (sa, s1)" "good s sa s1" "tdepth sa = tdepth a"
      "kind sa = kind a" "unref sa" "plain a \<longrightarrow> plain sa" "le a sa" by (rule strip_spec [OF s a(1)])
    obtain sb s2 where sb: "stripRefine b s1 = Some (sb, s2)" "good s1 sb s2" "tdepth sb = tdepth b"
      "kind sb = kind b" "unref sb" "plain b \<longrightarrow> plain sb" "le b sb"
      by (rule strip_spec [OF goodD(1) [OF sa(2)] goodD(3) [OF sa(2) b(1)]])
    obtain t s3 where t: "structuralJoin J sa sb s2 = Some (t, s3)" "good s2 t s3" "upper sa sb t"
      using structuralJoin_spec [OF J goodD(1) [OF sb(2)] goodD(3) [OF sb(2) goodD(2) [OF sa(2)]] sa(5) _
          goodD(2) [OF sb(2)] sb(5)] sa(3) sb(3) a(2) b(2) by auto
    have g: "good s t s3" using good_trans [OF good_trans [OF sa(2) sb(2)] t(2)] .
    have up: "upper a b t" using t(3) sa sb le_trans unfolding upper_def by metis
    show ?thesis
    proof (cases "refine a AND refine b \<noteq> 0 \<and> kind t = kind a \<and> kind t = kind b")
      case True
      obtain r s' where r: "WithRefine t (refine a AND refine b) s3 = Some (r, s')" "good s3 r s'" "upper a b r"
        using bits_result [OF goodD(1,2) [OF t(2)] up] True s a(1) by (auto simp: jinv_def arity_ok_def)
      have "joinUncached J a b s = Some (r, s')"
        using True gen sa(1) sb(1) t(1) r(1) by (auto simp: joinUncached_def Let_def)
      with good_trans [OF g r(2)] r(3) show ?thesis by blast
    next
      case False
      then have "joinUncached J a b s = Some (t, s3)"
        using gen sa(1) sb(1) t(1) by (auto simp: joinUncached_def Let_def)
      with g up show ?thesis by blast
    qed
  qed
qed

lemma memo_update:
  assumes "jinv s2" and "hc_ext s s2" "meetMemo s2 = meetMemo s" and "joinMemo s (memoKey (tid a) (tid b)) = None"
    and "a \<in> set (byID s2)" "b \<in> set (byID s2)" "r \<in> set (byID s2)" and "upper a b r"
  shows "good s r (s2\<lparr>joinMemo := (joinMemo s2)(memoKey (tid a) (tid b) \<mapsto> r)\<rparr>)"
proof -
  let ?s = "s2\<lparr>joinMemo := (joinMemo s2)(memoKey (tid a) (tid b) \<mapsto> r)\<rparr>"
  have wf: "wf ?s"
    using jinvD(1) [OF assms(1)] by (simp add: wf_def hc_wf_def template_ok_def singles_ok_def)
  have "tid a < length (byID s2)" "byID s2 ! tid a = a" "tid b < length (byID s2)" "byID s2 ! tid b = b"
    using byID_distinct [OF jinvD(2) [OF assms(1)]] assms(5,6) by auto
  then have "memo_ok ?s"
    using assms(1,7,8) upper_sym [OF assms(8)] by (auto simp: jinv_def memo_ok_def memoKey_def)
  moreover have "hc_ext s ?s" using assms(2,4) by (auto simp: hc_ext_def map_le_def)
  ultimately show ?thesis
    using wf assms(1,3,7) by (auto simp: good_def jinv_def classes_ok_def arity_ok_def)
qed

theorem Join_Jspec: "Jspec (Join n) n"
proof (induction n)
  case 0
  show ?case by (simp add: Jspec_def)
next
  case (Suc n)
  show ?case unfolding Jspec_def
  proof (intro allI impI)
    fix s a b
    assume s: "jinv s" and a: "a \<in> set (byID s)" "tdepth a < Suc n" and b: "b \<in> set (byID s)" "tdepth b < Suc n"
    let ?k = "memoKey (tid a) (tid b)"
    consider (eq) "a = b" | (hit) r where "a \<noteq> b" "joinMemo s ?k = Some r" | (miss) "a \<noteq> b" "joinMemo s ?k = None"
      by (cases "joinMemo s ?k") auto
    then show "\<exists>r s'. Join (Suc n) a b s = Some (r, s') \<and> good s r s' \<and> upper a b r"
    proof cases
      case eq
      with good_same [OF s a(1)] upper_self show ?thesis by auto
    next
      case hit
      have "byID s ! tid a = a" "byID s ! tid b = b"
        using byID_distinct [OF jinvD(2) [OF s]] a b by auto
      then have "upper a b r" "r \<in> set (byID s)"
        using hit(2) s upper_sym by (auto simp: jinv_def memo_ok_def memoKey_def split: if_splits) metis+
      with hit good_same [OF s] show ?thesis by auto
    next
      case miss
      obtain r s2 where r: "joinUncached (Join n) a b s = Some (r, s2)" "good s r s2" "upper a b r"
        using joinUncached_spec [OF Suc.IH s a(1) _ b(1)] a(2) b(2) by auto
      have "good s r (s2\<lparr>joinMemo := (joinMemo s2)(?k \<mapsto> r)\<rparr>)"
        using memo_update [OF goodD(1) [OF r(2)] _ _ miss(2) goodD(3) [OF r(2) a(1)] goodD(3) [OF r(2) b(1)]
            goodD(2) [OF r(2)] r(3)] r(2) by (simp add: good_def)
      with miss r show ?thesis by auto
    qed
  qed
qed

end

text \<open>With nothing asked of the order, the laws hold outright; this instance carries the
  termination and table-invariant facts that do not depend on what types mean.\<close>

interpretation total: join_order "\<lambda>_ _. True" "\<lambda>_. True"
  by unfold_locales simp_all

end
