(* ===== verification/Semantics.thy ===== *)
theory Semantics
  imports Join
begin

text \<open>
  What a lattice element says about a Python value, and the soundness of the join.

  A Python value is an object with a class and a payload; a world gives every class name its
  method resolution order and fixes which values satisfy a callable signature or a protocol.
  \<open>has_type W t v\<close> is the reading \<^verbatim>\<open>pkg/types/lattice.go\<close> documents for every kind and for the
  refinement bits (the known-length bit records no length in the type and constrains
  nothing). \<open>below W\<close> is inclusion of value sets; it satisfies the laws of \<open>join_order\<close> in every
  well-formed world, so \<open>Join\<close> is an upper bound of its arguments.
\<close>

section \<open>Values and worlds\<close>

datatype pyval =
  Obj (vcls: string) (vint: int) (vchars: "nat list") (vitems: "pyval list") (vpairs: "(pyval \<times> pyval) list")

record py_world =
  lin :: "string \<Rightarrow> string list"
  fn_ok :: "ty signature \<Rightarrow> pyval \<Rightarrow> bool"
  proto_ok :: "string \<Rightarrow> pyval \<Rightarrow> bool"

text \<open>\<open>world_ok\<close>: an ancestor's linearisation is contained in the class's own, and bool is an int.\<close>

definition world_ok :: "py_world \<Rightarrow> bool" where
  "world_ok W \<longleftrightarrow>
     (\<forall>m n. n \<in> set (lin W m) \<longrightarrow> set (lin W n) \<subseteq> set (lin W m)) \<and>
     (\<forall>m. ''bool'' \<in> set (lin W m) \<longrightarrow> ''int'' \<in> set (lin W m))"

definition inst :: "py_world \<Rightarrow> string \<Rightarrow> pyval \<Rightarrow> bool" where
  "inst W n v \<longleftrightarrow> n \<in> set (lin W (vcls v))"

definition kind_sem ::
  "py_world \<Rightarrow> kind \<Rightarrow> class_ref option \<Rightarrow> (pyval \<Rightarrow> bool) list \<Rightarrow> ty signature option \<Rightarrow> bool \<Rightarrow> refine \<Rightarrow> pyval \<Rightarrow> bool"
where
  "kind_sem W k c fs s v r x \<longleftrightarrow>
     (case k of
        KindNever \<Rightarrow> False
      | KindNone \<Rightarrow> inst W ''NoneType'' x
      | KindBool \<Rightarrow> inst W ''bool'' x
      | KindInt \<Rightarrow> inst W ''int'' x \<and> (r AND RefineNonNegative \<noteq> 0 \<longrightarrow> 0 \<le> vint x)
      | KindFloat \<Rightarrow> inst W ''float'' x
      | KindComplex \<Rightarrow> inst W ''complex'' x
      | KindStr \<Rightarrow> inst W ''str'' x \<and> (r AND RefineAsciiOnly \<noteq> 0 \<longrightarrow> list_all (\<lambda>c. c < 128) (vchars x))
      | KindBytes \<Rightarrow> inst W ''bytes'' x
      | KindClass \<Rightarrow> inst W (cname (the c)) x \<and> (r AND RefineExactType \<noteq> 0 \<longrightarrow> vcls x = cname (the c))
      | KindList \<Rightarrow> inst W ''list'' x \<and> list_all (\<lambda>y. list_all (\<lambda>f. f y) fs) (vitems x)
      | KindSet \<Rightarrow> (inst W ''set'' x \<or> inst W ''frozenset'' x) \<and> list_all (\<lambda>y. list_all (\<lambda>f. f y) fs) (vitems x)
      | KindTuple \<Rightarrow> inst W ''tuple'' x \<and>
          (if v then list_all (\<lambda>y. list_all (\<lambda>f. f y) fs) (vitems x) else list_all2 (\<lambda>f y. f y) fs (vitems x))
      | KindDict \<Rightarrow> inst W ''dict'' x \<and>
          (case fs of fk # fv # _ \<Rightarrow> list_all (\<lambda>(a, b). fk a \<and> fv b) (vpairs x) | _ \<Rightarrow> False)
      | KindCallable \<Rightarrow> fn_ok W (nameless (the s)) x
      | KindUnion \<Rightarrow> list_ex (\<lambda>f. f x) fs
      | KindProto \<Rightarrow> proto_ok W (cname (the c)) x
      | KindDyn \<Rightarrow> True)"

fun has_type :: "py_world \<Rightarrow> ty \<Rightarrow> pyval \<Rightarrow> bool" where
  "has_type W (Type k c es s v r i) = kind_sem W k c (map (\<lambda>e. has_type W e) es) s v r"

definition below :: "py_world \<Rightarrow> ty \<Rightarrow> ty \<Rightarrow> bool" where
  "below W t u \<longleftrightarrow> (\<forall>x. has_type W t x \<longrightarrow> has_type W u x)"

text \<open>\<open>linear_ok W c\<close>: the recorded linearisation starts at the class, and every tail of it is the
  linearisation of the class it starts at. The second part is the property on which
  \<open>commonAncestor\<close> registers the tail of one class's linearisation as that of the shared
  ancestor.\<close>

definition linear_ok :: "py_world \<Rightarrow> class_ref \<Rightarrow> bool" where
  "linear_ok W c \<longleftrightarrow> MRO c \<noteq> [] \<and> hd (MRO c) = cname c \<and>
     (\<forall>pre n rest. MRO c = pre @ n # rest \<longrightarrow> lin W n = n # rest)"

section \<open>Facts about the reading\<close>

lemma has_type_sel:
  "has_type W t x = kind_sem W (kind t) (tclass t) (map (has_type W) (elems t)) (tsig t) (variadic t) (refine t) x"
  by (cases t) simp

lemma has_type_never [simp]: "kind t = KindNever \<Longrightarrow> \<not> has_type W t x"
  by (simp add: has_type_sel [of W t] kind_sem_def)

lemma has_type_dyn [simp]: "kind t = KindDyn \<Longrightarrow> has_type W t x"
  by (simp add: has_type_sel [of W t] kind_sem_def)

lemma has_type_none: "kind t = KindNone \<Longrightarrow> has_type W t x \<longleftrightarrow> inst W ''NoneType'' x"
  by (simp add: has_type_sel [of W t] kind_sem_def)

lemma has_type_union: "kind t = KindUnion \<Longrightarrow> has_type W t x \<longleftrightarrow> (\<exists>m\<in>set (elems t). has_type W m x)"
  by (simp add: has_type_sel [of W t] kind_sem_def list_ex_iff)

lemma has_type_seq:
  "kind t = KindList \<or> kind t = KindSet \<Longrightarrow>
    has_type W t x \<longleftrightarrow> (if kind t = KindList then inst W ''list'' x else inst W ''set'' x \<or> inst W ''frozenset'' x) \<and>
      (\<forall>y\<in>set (vitems x). \<forall>e\<in>set (elems t). has_type W e y)"
  by (auto simp: has_type_sel [of W t] kind_sem_def list_all_iff)

lemma has_type_dict:
  "kind t = KindDict \<Longrightarrow> elems t = [a, b] \<Longrightarrow>
    has_type W t x \<longleftrightarrow> inst W ''dict'' x \<and> (\<forall>(k, v)\<in>set (vpairs x). has_type W a k \<and> has_type W b v)"
  by (simp add: has_type_sel [of W t] kind_sem_def list_all_iff)

lemma has_type_tuple:
  "kind t = KindTuple \<Longrightarrow> has_type W t x \<longleftrightarrow> inst W ''tuple'' x \<and>
     (if variadic t then \<forall>y\<in>set (vitems x). \<forall>e\<in>set (elems t). has_type W e y
      else length (elems t) = length (vitems x) \<and> (\<forall>i<length (vitems x). has_type W (elems t ! i) (vitems x ! i)))"
  by (auto simp: has_type_sel [of W t] kind_sem_def list_all_iff list_all2_conv_all_nth)

lemmas has_type_selD = iffD1 [OF has_type_sel]

lemma belowI: "(\<And>x. has_type W t x \<Longrightarrow> has_type W u x) \<Longrightarrow> below W t u"
  by (simp add: below_def)

lemma belowD: "below W t u \<Longrightarrow> has_type W t x \<Longrightarrow> has_type W u x"
  by (simp add: below_def)

lemma linear_okD:
  assumes "linear_ok W c"
  shows "lin W (cname c) = MRO c" and "MRO c = pre @ n # rest \<Longrightarrow> lin W n = n # rest"
proof -
  show *: "MRO c = pre @ n # rest \<Longrightarrow> lin W n = n # rest" for pre n rest
    using assms by (simp add: linear_ok_def)
  obtain rest where "MRO c = cname c # rest" using assms by (cases "MRO c") (auto simp: linear_ok_def)
  with * [of "[]"] show "lin W (cname c) = MRO c" by simp
qed

lemma inst_up: "world_ok W \<Longrightarrow> inst W n x \<Longrightarrow> m \<in> set (lin W n) \<Longrightarrow> inst W m x"
  unfolding world_ok_def inst_def by blast

lemma unref_bits:
  assumes "unref t"
  shows "refine t AND RefineNonNegative = 0" "refine t AND RefineAsciiOnly = 0" "refine t AND RefineExactType = 0"
proof -
  have "refine t AND b = 0" if "b AND all_bits = b" for b
    using assms that unfolding unref_def by (metis and.assoc and.commute and_zero_eq)
  then show "refine t AND RefineNonNegative = 0" "refine t AND RefineAsciiOnly = 0" "refine t AND RefineExactType = 0"
    by (simp_all add: all_bits_def RefineNonNegative_def RefineAsciiOnly_def RefineExactType_def RefineKnownLen_def)
qed

lemma class_in_class:
  assumes "world_ok W" and "kind a = KindClass" and "tclass a = Some c" and "linear_ok W c"
    and "n \<in> set (MRO c)" and "has_type W a x"
  shows "inst W n x"
  using assms linear_okD(1) [OF assms(4)] inst_up [OF assms(1)]
  by (auto simp: has_type_sel [of W a] kind_sem_def)

lemma subtype_below:
  assumes "world_ok W" and "isSubtype a b" and "wf_ty a" and "unref b"
    and "\<And>c. tclass a = Some c \<Longrightarrow> linear_ok W c"
  shows "below W a b"
proof (rule belowI)
  fix x assume x: "has_type W a x"
  consider "a = b" | "kind a = KindNever" | "kind b = KindDyn" | "kind a = KindBool" "kind b = KindInt"
    | "kind a = KindClass" "(if kind b = KindClass then cname (the (tclass b)) else builtinClassName (kind b)) \<noteq> []"
      "(if kind b = KindClass then cname (the (tclass b)) else builtinClassName (kind b)) \<in> set (MRO (the (tclass a)))"
    using assms(2) unfolding isSubtype_def Let_def by blast
  then show "has_type W b x"
  proof cases
    case 4
    then have "inst W ''int'' x" using x assms(1) by (simp add: has_type_sel [of W a] kind_sem_def inst_def world_ok_def)
    with 4 unref_bits [OF assms(4)] show ?thesis by (simp add: has_type_sel [of W b] kind_sem_def)
  next
    case 5
    from 5(1) assms(3) obtain c where c: "tclass a = Some c"
      by (cases "tclass a") (auto simp: wf_ty_iff [of a] shape_ok_def)
    let ?n = "if kind b = KindClass then cname (the (tclass b)) else builtinClassName (kind b)"
    have "inst W ?n x" using class_in_class [OF assms(1) 5(1) c assms(5) [OF c] _ x] 5(3) c by simp
    with 5(2) unref_bits [OF assms(4)] show ?thesis
      by (cases "kind b") (simp_all add: has_type_sel [of W b] kind_sem_def builtinClassName_def)
  qed (use x in \<open>auto simp: has_type_sel [of W a] has_type_sel [of W b] kind_sem_def\<close>)
qed

text \<open>How the bits enter the reading: a type with the bits \<open>q\<close> follows from one with the bits \<open>r\<close>
  and, for the two value bits, from another one of the same kind.\<close>

lemma kind_sem_bits:
  assumes "kind_sem W k c fs s v r x" and "kind_sem W k c' fs' s' v' r' x"
    and "q AND RefineNonNegative \<noteq> 0 \<Longrightarrow> r AND RefineNonNegative \<noteq> 0 \<or> r' AND RefineNonNegative \<noteq> 0"
    and "q AND RefineAsciiOnly \<noteq> 0 \<Longrightarrow> r AND RefineAsciiOnly \<noteq> 0 \<or> r' AND RefineAsciiOnly \<noteq> 0"
    and "q AND RefineExactType \<noteq> 0 \<Longrightarrow> r AND RefineExactType \<noteq> 0"
    and "map_option nameless u = map_option nameless s"
  shows "kind_sem W k c fs u v q x"
proof -
  have "nameless (the u) = nameless (the s)" using assms(6) by (cases u; cases s) auto
  with assms(1-5) show ?thesis by (cases k) (auto simp: kind_sem_def)
qed

lemma more_bits_below: "like t (set_refine (refine u AND NOT off) u) \<Longrightarrow> below W u t"
proof (rule belowI)
  fix x assume t: "like t (set_refine (refine u AND NOT off) u)" and x: "has_type W u x"
  have bits: "refine u AND b \<noteq> 0" if "refine t AND b \<noteq> 0" for b
    using t that by (auto simp: like_def and_not_keeps)
  have "kind_sem W (kind u) (tclass u) (map (has_type W) (elems u)) (tsig t) (variadic u) (refine t) x"
    by (rule kind_sem_bits [OF has_type_selD [OF x] has_type_selD [OF x]])
      (use bits t in \<open>auto simp: like_def\<close>)
  with t show "has_type W t x" by (simp add: like_def has_type_sel [of W t])
qed

lemma bits_below:
  assumes "below W a t" and "kind a = kind t" and "bits AND refine a = bits"
    and "bits AND RefineExactType = 0" and "like u (set_refine (refine t OR bits) t)"
  shows "below W a u"
proof (rule belowI)
  fix x assume x: "has_type W a x"
  have bits: "refine t AND b \<noteq> 0 \<or> bits AND b \<noteq> 0" if "refine u AND b \<noteq> 0" for b
    using assms(5) that by (auto simp: like_def bit.conj_disj_distrib2)
  have a: "refine a AND b \<noteq> 0" if "bits AND b \<noteq> 0" for b
    using assms(3) that by (metis and.assoc and_zero_eq)
  have "kind_sem W (kind t) (tclass t) (map (has_type W) (elems t)) (tsig u) (variadic t) (refine u) x"
    by (rule kind_sem_bits [OF has_type_selD [OF belowD [OF assms(1) x]]
          has_type_selD [OF x, unfolded assms(2)]])
      (use bits a assms(4,5) in \<open>auto simp: like_def\<close>)
  with assms(5) show "has_type W u x" by (simp add: like_def has_type_sel [of W u])
qed

section \<open>The laws of the join\<close>

text \<open>Among canonical unrefined types a strict supertype is strictly smaller in this rank, so the
  members that the union drops are covered by members it keeps.\<close>

definition rank :: "ty \<Rightarrow> nat" where
  "rank t = (case kind t of KindDyn \<Rightarrow> 0 | KindBool \<Rightarrow> 2
     | KindClass \<Rightarrow> 2 + length (MRO (the (tclass t))) | _ \<Rightarrow> 1)"

lemma shape_atom:
  "shape_ok k c es s v \<Longrightarrow> k \<in> {KindDyn, KindBool} \<Longrightarrow> c = None \<and> es = [] \<and> s = None \<and> \<not> v"
  by (cases c) (auto simp: shape_ok_def)

lemma shape_class:
  "shape_ok k c es s v \<Longrightarrow> k = KindClass \<Longrightarrow> (\<exists>d. c = Some d) \<and> es = [] \<and> s = None \<and> \<not> v"
  by (cases c) (auto simp: shape_ok_def)

lemma rank_less:
  assumes sub: "isSubtype t u" "t \<noteq> u" "kind t \<noteq> KindNever" and wf: "wf_ty t" "wf_ty u"
    and z: "refine t = 0" "refine u = 0" and can: "like t u \<Longrightarrow> t = u"
    and cls: "\<And>c. tclass t = Some c \<Longrightarrow> linear_ok W c" "\<And>d. tclass u = Some d \<Longrightarrow> linear_ok W d"
      "\<And>c d. tclass t = Some c \<Longrightarrow> tclass u = Some d \<Longrightarrow> cname c = cname d \<Longrightarrow> c = d"
  shows "rank u < rank t"
proof -
  have sh: "shape_ok (kind t) (tclass t) (elems t) (tsig t) (variadic t)"
    "shape_ok (kind u) (tclass u) (elems u) (tsig u) (variadic u)"
    using wf unfolding wf_ty_iff [of t] wf_ty_iff [of u] by blast+
  have atoms: "like t u" if "kind t = kind u" "kind t \<in> {KindDyn, KindBool}"
    using shape_atom [OF sh(1)] shape_atom [OF sh(2)] that z by (simp add: like_def)
  have nd: "0 < rank t" if "kind t \<noteq> KindDyn" using that by (simp add: rank_def split: kind.split)
  consider "kind u = KindDyn" | "kind t = KindBool" "kind u = KindInt"
    | (b) "kind t = KindClass" "kind u \<noteq> KindClass" "builtinClassName (kind u) \<noteq> []"
    | (c) "kind t = KindClass" "kind u = KindClass" "cname (the (tclass u)) \<in> set (MRO (the (tclass t)))"
    using sub unfolding isSubtype_def Let_def by (auto split: if_splits)
  then show ?thesis
  proof cases
    case 1
    with nd atoms can sub(2) show ?thesis by (cases "kind t = KindDyn") (auto simp: rank_def)
  next
    case b
    then obtain c where c: "tclass t = Some c" using shape_class [OF sh(1)] by auto
    with cls(1) have "0 < length (MRO c)" by (auto simp: linear_ok_def)
    moreover have "rank u \<le> 2" using b(2) by (simp add: rank_def split: kind.split)
    moreover have "rank t = 2 + length (MRO c)" using b(1) c by (simp add: rank_def)
    ultimately show ?thesis by linarith
  next
    case c
    then obtain cc d where d: "tclass t = Some cc" "tclass u = Some d"
      using shape_class [OF sh(1)] shape_class [OF sh(2)] by auto
    obtain pre rest where m: "MRO cc = pre @ cname d # rest" using c(3) d by (auto dest: split_list)
    have "MRO d = cname d # rest" using linear_okD [OF cls(1) [OF d(1)]] linear_okD(1) [OF cls(2) [OF d(2)]] m by metis
    moreover have "pre \<noteq> []"
    proof
      assume "pre = []"
      then have "cname d = cname cc" using m cls(1) [OF d(1)] by (auto simp: linear_ok_def)
      then have "like t u" using cls(3) [OF d] c(1,2) d z shape_class [OF sh(1)] shape_class [OF sh(2)]
        by (simp add: like_def)
      with can sub(2) show False by simp
    qed
    ultimately show ?thesis using m c(1,2) d by (simp add: rank_def)
  qed (simp add: rank_def)
qed

lemma kept_below:
  assumes W: "world_ok W" and wf: "\<And>t. t \<in> set ts \<Longrightarrow> wf_ty t \<and> refine t = 0"
    and cls: "\<And>t c. t \<in> set ts \<Longrightarrow> tclass t = Some c \<Longrightarrow> linear_ok W c"
    and can: "\<And>t u. t \<in> set ts \<Longrightarrow> u \<in> set ts \<Longrightarrow> like t u \<Longrightarrow> t = u"
    and uniq: "\<And>t u c d. t \<in> set ts \<Longrightarrow> u \<in> set ts \<Longrightarrow> tclass t = Some c \<Longrightarrow> tclass u = Some d \<Longrightarrow>
      cname c = cname d \<Longrightarrow> c = d"
    and kept: "distinct ts" "\<And>y. y \<in> set (undominated ts) \<Longrightarrow> below W y r" and "x \<in> set ts"
  shows "below W x r"
  using \<open>x \<in> set ts\<close>
proof (induction x rule: measure_induct_rule [of rank])
  case (less x)
  show ?case
  proof (cases "kind x = KindNever \<or> x \<in> set (undominated ts)")
    case True
    then show ?thesis using kept(2) by (auto simp: below_def has_type_sel [of W x] kind_sem_def)
  next
    case False
    with less.prems obtain u where u: "u \<in> set ts" "u \<noteq> x" "isSubtype x u"
      using set_undominated [OF kept(1)] by auto
    have "rank u < rank x"
    proof (rule rank_less [OF u(3)])
      show "linear_ok W c" if "tclass x = Some c" for c using cls less.prems that .
      show "linear_ok W c" if "tclass u = Some c" for c using cls u(1) that .
      show "c = d" if "tclass x = Some c" "tclass u = Some d" "cname c = cname d" for c d
        using uniq less.prems u(1) that .
    qed (use False u less.prems wf can in auto)
    from less.IH [OF this u(1)] have "below W u r" .
    moreover have "below W x u"
      using wf [OF u(1)] wf [OF less.prems] cls [OF less.prems]
      by (intro subtype_below [OF W u(3)]) (auto intro: unref_zero)
    ultimately show ?thesis by (auto simp: below_def)
  qed
qed

lemma below_order:
  assumes W: "world_ok W"
  shows "join_order (below W) (linear_ok W)"
proof
  show "below W a b" if "isSubtype a b" "wf_ty a" "wf_ty b" "unref b"
    "\<And>c. tclass a = Some c \<Longrightarrow> linear_ok W c" for a b
    using subtype_below [OF W that(1,2,4,5)] .
  show "below W u t" if "like t (set_refine (refine u AND NOT off) u)" for t u off
    using more_bits_below [OF that] .
  show "below W a u" if "below W a t" "kind a = kind t" "bits AND refine a = bits"
    "bits AND RefineExactType = 0" "like u (set_refine (refine t OR bits) t)" for a t bits u
    using bits_below [OF that] .
  show "below W a u" if "kind a = KindClass" "tclass a = Some c" "linear_ok W c" "n \<in> set (MRO c)"
    "kind u = KindClass" "tclass u = Some d" "cname d = n" "refine u = 0" for a c n u d
    using class_in_class [OF W that(1-4)] that(5-8)
    by (auto simp: below_def has_type_sel [of W u] kind_sem_def)
  show "linear_ok W (ClassRef n (n # rest) i)" if "linear_ok W c" "MRO c = pre @ n # rest" for c pre n rest i
    using that unfolding linear_ok_def by (auto simp flip: append_assoc)
  show "below W x r" if "distinct ts" "\<And>t. t \<in> set ts \<Longrightarrow> wf_ty t \<and> refine t = 0"
    "\<And>t c. t \<in> set ts \<Longrightarrow> tclass t = Some c \<Longrightarrow> linear_ok W c"
    "\<And>t u. t \<in> set ts \<Longrightarrow> u \<in> set ts \<Longrightarrow> like t u \<Longrightarrow> t = u"
    "\<And>t u c d. t \<in> set ts \<Longrightarrow> u \<in> set ts \<Longrightarrow> tclass t = Some c \<Longrightarrow> tclass u = Some d \<Longrightarrow> cname c = cname d \<Longrightarrow> c = d"
    "\<And>y. y \<in> set (undominated ts) \<Longrightarrow> below W y r" "x \<in> set ts" for ts r x
    using kept_below [OF W that(2,3,4,5,1,6,7)] .
  show "below W a u" if "kind a = k" "kind u = k" "k = KindList \<or> k = KindSet" "x \<in> set (elems a)"
    "below W x e" "elems u = [e]" for a k u x e
    using that by (auto simp: below_def has_type_seq)
  show "below W a u" if "kind a = KindDict" "kind u = KindDict" "elems a = [x, y]" "below W x e"
    "below W y v" "elems u = [e, v]" for a u x y e v
    using that by (auto simp: below_def has_type_dict)
  show "below W a u" if "kind a = KindTuple" "kind u = KindTuple" "\<not> variadic a" "\<not> variadic u"
    "list_all2 (below W) (elems a) (elems u)" for a u
    using that by (auto simp: below_def has_type_tuple list_all2_conv_all_nth)
  show "below W a u" if tup: "kind a = KindTuple" "variadic a \<Longrightarrow> elems a \<noteq> []" "kind u = KindTuple"
    "variadic u" "elems u = [e]" "\<And>x. x \<in> set (elems a) \<Longrightarrow> below W x e" for a u e
  proof (rule belowI)
    fix x assume x: "has_type W a x"
    have "has_type W e y" if "y \<in> set (vitems x)" for y
    proof (cases "variadic a")
      case True
      with tup(2) obtain f where "f \<in> set (elems a)" by (cases "elems a") auto
      with True x tup(1,6) that show ?thesis by (auto simp: has_type_tuple below_def)
    next
      case False
      with x tup(1,6) that show ?thesis by (auto simp: has_type_tuple below_def in_set_conv_nth)
    qed
    with x tup show "has_type W u x" by (simp add: has_type_tuple)
  qed
qed (auto simp: below_def has_type_union)

end
