(* ===== verification/Meet.thy ===== *)
theory Meet
  imports Semantics
begin

text \<open>
  The lower bound of \<^verbatim>\<open>pkg/types/join.go\<close>, used by narrowing.

  \<open>Meet\<close> returns for every pair of table types once the fuel exceeds the sum of their sizes,
  and it keeps the interner's invariant. As an intersection of value sets it is exact only on
  some pairs. \<open>separable\<close> collects pairs for which no value is lost; pairs outside it exist (two
  tuples, two lists over disjoint elements, two unrelated classes with a common subclass).
  \<open>tight\<close> collects pairs whose meet lies within both arguments; outside it are refined types,
  whose bits the meet drops when it moves to another kind, and pairs of unions, whose meet can
  widen past the union budget. See the findings of the development.
\<close>

section \<open>Pairs that can be met without losing a value\<close>

primrec tsize :: "ty \<Rightarrow> nat" where
  "tsize (Type k c es s v r i) = Suc (sum_list (map tsize es))"

definition base :: "ty \<Rightarrow> ty" where
  "base t = set_refine 0 t"

definition apart :: "(ty \<Rightarrow> 'v \<Rightarrow> bool) \<Rightarrow> ty \<Rightarrow> ty \<Rightarrow> bool" where
  "apart val m n \<longleftrightarrow> like (base m) (base n) \<or> isSubtype m n \<or> isSubtype n m \<or>
     (\<forall>x. \<not> (val (base m) x \<and> val (base n) x))"

text \<open>\<open>separable val a b\<close>: unions are separable member by member, other types when they are \<open>apart\<close>, and
  two lists, sets or dicts also when their elements are separable and have a value in common.\<close>

inductive separable :: "(ty \<Rightarrow> 'v \<Rightarrow> bool) \<Rightarrow> ty \<Rightarrow> ty \<Rightarrow> bool" for val where
  sep_left: "kind a = KindUnion \<Longrightarrow> \<forall>m\<in>set (elems a). separable val m b \<Longrightarrow> separable val a b"
| sep_right: "kind b = KindUnion \<Longrightarrow> \<forall>m\<in>set (elems b). separable val a m \<Longrightarrow> separable val a b"
| sep_apart: "kind a \<noteq> KindUnion \<Longrightarrow> kind b \<noteq> KindUnion \<Longrightarrow> apart val a b \<Longrightarrow> separable val a b"
| sep_seq: "kind a = kind b \<Longrightarrow> kind a \<in> {KindList, KindSet} \<Longrightarrow> elems a = [x] \<Longrightarrow> elems b = [y] \<Longrightarrow>
    separable val x y \<Longrightarrow> \<exists>v. val x v \<and> val y v \<Longrightarrow> separable val a b"
| sep_dict: "kind a = KindDict \<Longrightarrow> kind b = KindDict \<Longrightarrow> elems a = [x, x'] \<Longrightarrow> elems b = [y, y'] \<Longrightarrow>
    separable val x y \<Longrightarrow> \<exists>v. val x v \<and> val y v \<Longrightarrow> separable val x' y' \<Longrightarrow> \<exists>v. val x' v \<and> val y' v \<Longrightarrow>
    separable val a b"

text \<open>\<open>tight a b\<close>: pairs whose meet lies within both. No refinement bits, which the meet drops when it
  moves to a subclass, and at most one side a union, of at most the union budget's members: the
  meet of two unions can exceed the budget and widen above both.\<close>

inductive tight :: "ty \<Rightarrow> ty \<Rightarrow> bool" where
  tight_flat: "kind a \<noteq> KindUnion \<Longrightarrow> kind b \<noteq> KindUnion \<Longrightarrow> unref a \<Longrightarrow> unref b \<Longrightarrow>
    kind a \<noteq> kind b \<or> kind a \<notin> {KindList, KindSet, KindDict} \<Longrightarrow> tight a b"
| tight_seq: "kind a = kind b \<Longrightarrow> kind a \<in> {KindList, KindSet} \<Longrightarrow> unref a \<Longrightarrow> unref b \<Longrightarrow>
    elems a = [x] \<Longrightarrow> elems b = [y] \<Longrightarrow> tight x y \<Longrightarrow> tight a b"
| tight_dict: "kind a = KindDict \<Longrightarrow> kind b = KindDict \<Longrightarrow> unref a \<Longrightarrow> unref b \<Longrightarrow>
    elems a = [x, x'] \<Longrightarrow> elems b = [y, y'] \<Longrightarrow> tight x y \<Longrightarrow> tight x' y' \<Longrightarrow> tight a b"
| tight_left: "kind a = KindUnion \<Longrightarrow> kind b \<noteq> KindUnion \<Longrightarrow> unref a \<Longrightarrow> unref b \<Longrightarrow> length (elems a) \<le> unionBudget \<Longrightarrow>
    \<forall>m\<in>set (elems a). kind m \<noteq> KindUnion \<and> tight m b \<Longrightarrow> tight a b"
| tight_right: "kind a \<noteq> KindUnion \<Longrightarrow> kind b = KindUnion \<Longrightarrow> unref a \<Longrightarrow> unref b \<Longrightarrow> length (elems b) \<le> unionBudget \<Longrightarrow>
    \<forall>m\<in>set (elems b). kind m \<noteq> KindUnion \<and> tight a m \<Longrightarrow> tight a b"

definition lower_in :: "(ty \<Rightarrow> 'v \<Rightarrow> bool) \<Rightarrow> ty \<Rightarrow> ty \<Rightarrow> ty \<Rightarrow> bool" where
  "lower_in val a b r \<longleftrightarrow>
     (plain a \<and> plain b \<longrightarrow> plain r \<and> (unref a \<and> unref b \<longrightarrow> unref r) \<and>
        (separable val a b \<longrightarrow> (\<forall>x. val a x \<longrightarrow> val b x \<longrightarrow> val r x)) \<and>
        (tight a b \<longrightarrow> (\<forall>x. val r x \<longrightarrow> val a x \<and> val b x) \<and>
           (kind a \<noteq> KindUnion \<and> kind b \<noteq> KindUnion \<longrightarrow> kind r \<noteq> KindUnion)))"

definition meet_inv :: "(ty \<Rightarrow> 'v \<Rightarrow> bool) \<Rightarrow> (class_ref \<Rightarrow> bool) \<Rightarrow> interner \<Rightarrow> bool" where
  "meet_inv val cls_ok s \<longleftrightarrow>
     join_inv (\<lambda>t u. \<forall>x. val t x \<longrightarrow> val u x) cls_ok s \<and>
     (\<forall>i j r. meetMemo s (i, j) = Some r \<longrightarrow> i < length (byID s) \<and> j < length (byID s) \<and>
        r \<in> set (byID s) \<and> lower_in val (byID s ! i) (byID s ! j) r)"

definition met_in :: "(ty \<Rightarrow> 'v \<Rightarrow> bool) \<Rightarrow> (class_ref \<Rightarrow> bool) \<Rightarrow> interner \<Rightarrow> ty \<Rightarrow> interner \<Rightarrow> bool" where
  "met_in val cls_ok s r s' \<longleftrightarrow> meet_inv val cls_ok s' \<and> hc_ext s s' \<and> r \<in> set (byID s')"

lemma tsize_elem: "e \<in> set (elems t) \<Longrightarrow> tsize e < tsize t"
  by (cases t) (auto simp: less_Suc_eq_le intro: member_le_sum_list)

lemma tsize_pos [simp]: "0 < tsize t"
  by (cases t) simp

lemma tsize_same: "elems t = elems u \<Longrightarrow> tsize t = tsize u"
  by (cases t; cases u) simp

lemma base_simps [simp]:
  "kind (base t) = kind t" "tclass (base t) = tclass t" "elems (base t) = elems t" "refine (base t) = 0"
  by (simp_all add: base_def)

lemma like_base: "like t (set_refine r u) \<Longrightarrow> like (base t) (base u)"
  by (simp add: like_def base_def)

lemma isSubtype_base:
  assumes "isSubtype t u" "like (base t) (base t')" "like (base u) (base u')"
  shows "isSubtype t' u' \<or> like (base t') (base u')"
  using assms by (auto simp: isSubtype_def like_def base_def)

lemma apart_base:
  assumes "\<And>t u x. like t u \<Longrightarrow> val t x = val u x"
    and "apart val t u" "like (base t) (base t')" "like (base u) (base u')"
  shows "apart val t' u'"
proof -
  have "val (base t) x = val (base t') x" "val (base u) x = val (base u') x" for x using assms by blast+
  then show ?thesis
    using assms(2-4) isSubtype_base [of t u t' u'] isSubtype_base [of u t u' t'] like_sym like_trans
    unfolding apart_def by metis
qed

lemma separable_member:
  "separable val u t \<Longrightarrow> kind u = KindUnion \<Longrightarrow> m \<in> set (elems u) \<Longrightarrow> separable val m t"
  by (induction rule: separable.induct) (auto intro: separable.intros)

lemma separable_sym: "separable val a b \<Longrightarrow> separable val b a"
proof (induction rule: separable.induct)
  case (sep_apart a b)
  then show ?case by (intro separable.sep_apart) (auto simp: apart_def dest: like_sym)
next
  case (sep_seq a b x y)
  then show ?case by (intro separable.sep_seq [of b a y x]) auto
next
  case (sep_dict a b x x' y y')
  then show ?case by (intro separable.sep_dict [of b a y y' x x']) auto
qed (auto intro: separable.intros)

lemma tight_unref: "tight a b \<Longrightarrow> unref a \<and> unref b"
  by (erule tight.cases) auto

lemma tight_sym: "tight a b \<Longrightarrow> tight b a"
proof (induction rule: tight.induct)
  case (tight_seq a b x y)
  then show ?case by (intro tight.tight_seq [of b a y x]) auto
next
  case (tight_dict a b x x' y y')
  then show ?case by (intro tight.tight_dict [of b a y y' x x']) auto
next
  case (tight_flat a b)
  then show ?case by (intro tight.tight_flat) auto
next
  case (tight_left a b)
  then show ?case by (intro tight.tight_right) auto
next
  case (tight_right a b)
  then show ?case by (intro tight.tight_left) auto
qed

lemma lower_sym: "lower_in val a b r \<Longrightarrow> lower_in val b a r"
  unfolding lower_in_def by (blast dest: separable_sym tight_sym)

lemma like_refine_self: "like t (set_refine (refine t) t)"
  by (simp add: like_def set_refine_def)

lemma separable_base:
  assumes val: "\<And>t u x. like t u \<Longrightarrow> val t x = val u x" and sep: "separable val a b"
    and a: "like a' (set_refine r a)" and b: "like b' (set_refine q b)"
  shows "separable val a' b'"
  using sep a b
proof (induction arbitrary: a' b' r q rule: separable.induct)
  case (sep_left a b)
  then show ?case using like_refine_self by (intro separable.sep_left) (auto simp: like_def)
next
  case (sep_right b a)
  then show ?case using like_refine_self by (intro separable.sep_right) (auto simp: like_def)
next
  case (sep_apart a b)
  have "like (base a) (base a')" "like (base b) (base b')" using sep_apart(4,5) like_base like_sym by blast+
  from apart_base [OF val sep_apart(3) this] show ?case using sep_apart by (intro separable.sep_apart) (auto simp: like_def)
next
  case (sep_seq a b x y)
  then show ?case by (intro separable.sep_seq [of a' b' x y]) (auto simp: like_def)
next
  case (sep_dict a b x x' y y')
  then show ?case by (intro separable.sep_dict [of a' b' x x' y y']) (auto simp: like_def)
qed

lemma tight_base:
  assumes "tight a b" "like a' (set_refine r a)" "like b' (set_refine q b)" "unref a'" "unref b'"
  shows "tight a' b'"
  using assms
proof (induction arbitrary: a' b' r q rule: tight.induct)
  case (tight_flat a b)
  then show ?case by (intro tight.tight_flat) (auto simp: like_def)
next
  case (tight_seq a b x y)
  then show ?case by (intro tight.tight_seq [of a' b' x y]) (auto simp: like_def)
next
  case (tight_dict a b x x' y y')
  then show ?case by (intro tight.tight_dict [of a' b' x x' y y']) (auto simp: like_def)
next
  case (tight_left a b)
  have "tight m b'" if "m \<in> set (elems a)" for m
    using that tight_left tight_unref like_refine_self by blast
  with tight_left show ?case by (intro tight.tight_left) (auto simp: like_def)
next
  case (tight_right a b)
  have "tight a' m" if "m \<in> set (elems b)" for m
    using that tight_right tight_unref like_refine_self by blast
  with tight_right show ?case by (intro tight.tight_right) (auto simp: like_def)
qed

section \<open>The laws\<close>

locale meet_sem = join_order "\<lambda>t u. \<forall>x. val t x \<longrightarrow> val u x" cls_ok
  for val :: "ty \<Rightarrow> 'v \<Rightarrow> bool" and cls_ok :: "class_ref \<Rightarrow> bool" +
  assumes never_val: "kind t = KindNever \<Longrightarrow> \<not> val t x"
    and union_val: "kind t = KindUnion \<Longrightarrow> val t x \<longleftrightarrow> (\<exists>m\<in>set (elems t). val m x)"
    and meet_bits: "val a x \<Longrightarrow> val b x \<Longrightarrow> val t x \<Longrightarrow> kind t = kind a \<Longrightarrow> kind t = kind b \<Longrightarrow>
        (refine a OR refine b) AND RefineExactType = 0 \<Longrightarrow>
        like u (set_refine (refine t OR (refine a OR refine b)) t) \<Longrightarrow> val u x"
    and seq_val: "kind a = k \<Longrightarrow> kind b = k \<Longrightarrow> kind u = k \<Longrightarrow> k = KindList \<or> k = KindSet \<Longrightarrow> elems a = [p] \<Longrightarrow>
        elems b = [q] \<Longrightarrow> elems u = [e] \<Longrightarrow> (\<And>v. val p v \<Longrightarrow> val q v \<Longrightarrow> val e v) \<Longrightarrow> val a x \<Longrightarrow> val b x \<Longrightarrow> val u x"
    and dict_val: "kind a = KindDict \<Longrightarrow> kind b = KindDict \<Longrightarrow> kind u = KindDict \<Longrightarrow> elems a = [p, p'] \<Longrightarrow>
        elems b = [q, q'] \<Longrightarrow> elems u = [e, e'] \<Longrightarrow> (\<And>v. val p v \<Longrightarrow> val q v \<Longrightarrow> val e v) \<Longrightarrow>
        (\<And>v. val p' v \<Longrightarrow> val q' v \<Longrightarrow> val e' v) \<Longrightarrow> val a x \<Longrightarrow> val b x \<Longrightarrow> val u x"
begin

abbreviation minv where "minv \<equiv> meet_inv val cls_ok"
abbreviation met where "met \<equiv> met_in val cls_ok"
abbreviation lower where "lower \<equiv> lower_in val"

lemmas minv_def = meet_inv_def [of val cls_ok]
lemmas met_def = met_in_def [of val cls_ok]
lemmas lower_def = lower_in_def [of val]

lemma val_like: "like t u \<Longrightarrow> val t x = val u x"
proof -
  have "val u x \<longrightarrow> val t x" if "like t u" for t u
    using strip_le [of t u 0] that by (auto simp: like_def)
  then show "like t u \<Longrightarrow> val t x = val u x" using like_sym by blast
qed

lemma minvD: "minv s \<Longrightarrow> jinv s" "minv s \<Longrightarrow> hc_wf s"
  using jinvD(2) by (auto simp: minv_def)

lemma met_good:
  assumes "minv s" and "good s r s'"
  shows "met s r s'"
proof -
  have e: "hc_ext s s'" "meetMemo s' = meetMemo s" using assms(2) by (auto simp: good_def)
  have "i < length (byID s') \<and> j < length (byID s') \<and> t \<in> set (byID s') \<and> lower (byID s' ! i) (byID s' ! j) t"
    if "meetMemo s (i, j) = Some t" for i j t
    using assms(1) that hc_ext_nth [OF e(1)] hc_ext_length [OF e(1)] hc_ext_byID [OF e(1)]
    unfolding minv_def by (metis order_less_le_trans)
  with assms e show ?thesis by (simp add: met_def minv_def good_def)
qed

lemma met_same: "minv s \<Longrightarrow> t \<in> set (byID s) \<Longrightarrow> met s t s"
  by (simp add: met_def)

lemma met_trans: "met s t s' \<Longrightarrow> met s' u s'' \<Longrightarrow> met s u s''"
  by (auto simp: met_def intro: hc_ext_trans)

lemma metD: "met s t s' \<Longrightarrow> minv s'" "met s t s' \<Longrightarrow> t \<in> set (byID s')"
    "met s t s' \<Longrightarrow> u \<in> set (byID s) \<Longrightarrow> u \<in> set (byID s')"
  by (auto simp: met_def dest: hc_ext_byID)

end

section \<open>Meet returns, loses no value of a separable pair and adds none to a tight one\<close>

context meet_sem
begin

definition Mspec :: "(ty \<Rightarrow> ty \<Rightarrow> ty run) \<Rightarrow> nat \<Rightarrow> bool" where
  "Mspec M n \<longleftrightarrow> (\<forall>s a b. minv s \<longrightarrow> a \<in> set (byID s) \<longrightarrow> b \<in> set (byID s) \<longrightarrow> tsize a + tsize b < n \<longrightarrow>
     (\<exists>r s'. M a b s = Some (r, s') \<and> met s r s' \<and> lower a b r))"

lemma MspecD:
  assumes "Mspec M n" "minv s" "a \<in> set (byID s)" "b \<in> set (byID s)" "tsize a + tsize b < n"
  obtains r s' where "M a b s = Some (r, s')" "met s r s'" "lower a b r"
  using assms unfolding Mspec_def by blast

lemma lowerD:
  assumes "lower a b r" "plain a" "plain b"
  shows "plain r" "unref a \<Longrightarrow> unref b \<Longrightarrow> unref r"
    "separable val a b \<Longrightarrow> val a x \<Longrightarrow> val b x \<Longrightarrow> val r x"
    "tight a b \<Longrightarrow> val r x \<Longrightarrow> val a x \<and> val b x"
    "tight a b \<Longrightarrow> kind a \<noteq> KindUnion \<Longrightarrow> kind b \<noteq> KindUnion \<Longrightarrow> kind r \<noteq> KindUnion"
  using assms unfolding lower_def by blast+

lemma lowerI:
  assumes "plain a \<Longrightarrow> plain b \<Longrightarrow> plain r" "plain a \<Longrightarrow> plain b \<Longrightarrow> unref a \<Longrightarrow> unref b \<Longrightarrow> unref r"
    and "\<And>x. plain a \<Longrightarrow> plain b \<Longrightarrow> separable val a b \<Longrightarrow> val a x \<Longrightarrow> val b x \<Longrightarrow> val r x"
    and "\<And>x. plain a \<Longrightarrow> plain b \<Longrightarrow> tight a b \<Longrightarrow> val r x \<Longrightarrow> val a x \<and> val b x"
    and "plain a \<Longrightarrow> plain b \<Longrightarrow> tight a b \<Longrightarrow> kind a \<noteq> KindUnion \<Longrightarrow> kind b \<noteq> KindUnion \<Longrightarrow> kind r \<noteq> KindUnion"
  shows "lower a b r"
  using assms unfolding lower_def by blast

lemma lower_never: "kind r = KindNever \<Longrightarrow> plain r \<Longrightarrow> unref r \<Longrightarrow>
    (\<And>x. plain a \<Longrightarrow> plain b \<Longrightarrow> separable val a b \<Longrightarrow> val a x \<Longrightarrow> val b x \<Longrightarrow> False) \<Longrightarrow> lower a b r"
  by (rule lowerI) (use never_val in \<open>auto simp del: not_None_eq\<close>)

lemma meet_members_spec:
  assumes M: "Mspec M n" and "minv s" and "set ms \<subseteq> set (byID s)" and "t \<in> set (byID s)"
    and "\<forall>m\<in>set ms. tsize m + tsize t < n"
  shows "\<exists>ps s'. meet_members M ms t s = Some (ps, s') \<and> minv s' \<and> hc_ext s s' \<and> set ps \<subseteq> set (byID s') \<and>
    ((\<forall>m\<in>set ms. plain m \<and> unref m) \<and> plain t \<and> unref t \<longrightarrow> (\<forall>p\<in>set ps. plain p \<and> unref p) \<and>
      (\<forall>m\<in>set ms. separable val m t \<longrightarrow> (\<forall>x. val m x \<longrightarrow> val t x \<longrightarrow> (\<exists>p\<in>set ps. val p x))))"
  using assms(2-)
proof (induction ms arbitrary: s)
  case (Cons m ms)
  obtain r s1 where r: "M m t s = Some (r, s1)" "met s r s1" "lower m t r"
    by (rule MspecD [OF M Cons.prems(1), of m t]) (use Cons.prems in auto)
  have "set ms \<subseteq> set (byID s1)" "t \<in> set (byID s1)" using Cons.prems metD(3) [OF r(2)] by auto
  with Cons.IH [OF metD(1) [OF r(2)]] Cons.prems(4) obtain ps s' where
    ps: "meet_members M ms t s1 = Some (ps, s')" "minv s'" "hc_ext s1 s'" "set ps \<subseteq> set (byID s')"
    and q: "(\<forall>m\<in>set ms. plain m \<and> unref m) \<and> plain t \<and> unref t \<longrightarrow> (\<forall>p\<in>set ps. plain p \<and> unref p) \<and>
      (\<forall>m\<in>set ms. separable val m t \<longrightarrow> (\<forall>x. val m x \<longrightarrow> val t x \<longrightarrow> (\<exists>p\<in>set ps. val p x)))"
    by auto
  let ?ps = "if kind r \<noteq> KindNever then r # ps else ps"
  have "hc_ext s s1" "r \<in> set (byID s')" using r(2) ps(3) hc_ext_byID by (auto simp: met_def)
  then have "meet_members M (m # ms) t s = Some (?ps, s')" "hc_ext s s'" "set ?ps \<subseteq> set (byID s')"
    using r(1) ps hc_ext_trans by auto
  moreover have "(\<forall>p\<in>set ?ps. plain p \<and> unref p) \<and>
      (\<forall>l\<in>set (m # ms). separable val l t \<longrightarrow> (\<forall>x. val l x \<longrightarrow> val t x \<longrightarrow> (\<exists>p\<in>set ?ps. val p x)))"
    if "(\<forall>m\<in>set (m # ms). plain m \<and> unref m) \<and> plain t \<and> unref t"
  proof -
    have r': "plain r" "unref r" "separable val m t \<longrightarrow> (\<forall>x. val m x \<longrightarrow> val t x \<longrightarrow> val r x)"
      using lowerD [OF r(3)] that by auto
    have q': "\<forall>p\<in>set ps. plain p \<and> unref p"
      "\<forall>m\<in>set ms. separable val m t \<longrightarrow> (\<forall>x. val m x \<longrightarrow> val t x \<longrightarrow> (\<exists>p\<in>set ps. val p x))"
      using q that by auto
    have "\<exists>p\<in>set ?ps. val p x" if "val r x" for x using that never_val [of r x] by auto
    with r' q' show ?thesis by (auto split del: if_split) (auto split: if_splits)
  qed
  ultimately show ?case using ps(2) by blast
qed simp

lemma meet_members_tight:
  assumes M: "Mspec M n" and "minv s" and "set ms \<subseteq> set (byID s)" and t: "t \<in> set (byID s)"
    and "\<forall>m\<in>set ms. tsize m + tsize t < n" and "meet_members M ms t s = Some (ps, s')"
    and "\<forall>m\<in>set ms. plain m \<and> kind m \<noteq> KindUnion \<and> tight m t" "plain t" "kind t \<noteq> KindUnion"
  shows "length ps \<le> length ms \<and>
    (\<forall>p\<in>set ps. kind p \<noteq> KindUnion \<and> (\<forall>x. val p x \<longrightarrow> (\<exists>m\<in>set ms. val m x) \<and> val t x))"
  using assms(2-)
proof (induction ms arbitrary: s ps)
  case (Cons m ms)
  obtain r s1 where r: "M m t s = Some (r, s1)" "met s r s1" "lower m t r"
    by (rule MspecD [OF M Cons.prems(1), of m t]) (use Cons.prems in auto)
  then obtain qs where qs: "meet_members M ms t s1 = Some (qs, s')"
    "ps = (if kind r \<noteq> KindNever then r # qs else qs)"
    using Cons.prems(5) by (auto split: bind_splits)
  have "set ms \<subseteq> set (byID s1)" "t \<in> set (byID s1)" using Cons.prems metD(3) [OF r(2)] by auto
  with Cons.IH [OF metD(1) [OF r(2)] _ _ _ qs(1)] Cons.prems have
    "length qs \<le> length ms" "\<forall>p\<in>set qs. kind p \<noteq> KindUnion \<and> (\<forall>x. val p x \<longrightarrow> (\<exists>m\<in>set ms. val m x) \<and> val t x)"
    by auto
  moreover have "kind r \<noteq> KindUnion" "val r x \<Longrightarrow> val m x \<and> val t x" for x
    using lowerD(4,5) [OF r(3)] Cons.prems by auto
  ultimately show ?case using qs(2) by auto
qed simp

lemma makeUnion_within:
  assumes s: "minv s" and "set ms \<subseteq> set (byID s)" and ms: "\<forall>m\<in>set ms. kind m \<noteq> KindUnion" "length ms \<le> unionBudget"
    and run: "makeUnion ms s = Some (r, s')" and x: "val r x"
  shows "\<exists>m\<in>set ms. val m x"
proof (cases "flatten_members ms")
  case None
  then obtain m where m: "m \<in> set ms" "kind m = KindDyn"
    by (induction ms rule: flatten_members.induct) (auto split: kind.splits)
  then show ?thesis using le_dyn [OF m(2), of r] x by blast
next
  case (Some flat)
  let ?kept = "undominated (dedupe flat)"
  have len: "length flat \<le> length ms"
    using Some ms(1) by (induction ms arbitrary: flat) (auto split: kind.splits)
  have mem: "set ?kept \<subseteq> set ms" using flatten_members_set [OF Some] ms(1) undominated_flat by blast
  have "length (dedupe flat) \<le> length flat"
    using distinct_card [OF distinct_dedupe, of flat] card_length [of flat] by simp
  then have "length ?kept \<le> unionBudget"
    using len ms(2) length_filter_le [of _ "enumerate 0 (dedupe flat)"]
    by (auto simp: undominated_def intro: order_trans)
  then consider "flat = []" | "flat \<noteq> []" "length ?kept = 1"
    | (union) "flat \<noteq> []" "length ?kept \<noteq> 1" "length ?kept \<le> unionBudget" by blast
  then show ?thesis
  proof cases
    case 1
    with run Some have "r = in_never s" by (auto simp: makeUnion_def)
    then show ?thesis using x never_val [of r] singles(5) [OF jinvD(1) [OF minvD(1) [OF s]]] by (simp add: like_def)
  next
    case 2
    then obtain y where "?kept = [y]" by (metis One_nat_def length_0_conv length_Suc_conv)
    then show ?thesis using run Some 2 mem x by (auto simp: makeUnion_def Let_def)
  next
    case union
    let ?t = "Type KindUnion None (sortKeys ?kept) None False 0 0"
    have "intern ?t s = Some (r, s')" using run Some union by (simp add: makeUnion_def Let_def)
    then have "like r ?t"
      using container_spec [OF minvD(2) [OF s], of "sortKeys ?kept" KindUnion False 0] mem assms(2) by auto
    then have "kind r = KindUnion" "set (elems r) = set ?kept" by (auto simp: like_def)
    then show ?thesis using union_val [of r x] x mem by blast
  qed
qed

lemma never_good:
  assumes "minv s"
  shows "met s (in_never s) s" "plain (in_never s)" "unref (in_never s)" "kind (in_never s) = KindNever"
  using met_same [OF assms] never_facts [OF minvD(1) [OF assms]] singles(5) [OF jinvD(1) [OF minvD(1) [OF assms]]]
  by (auto simp: like_def)

lemma makeUnion_run:
  assumes "minv s" and "set ms \<subseteq> set (byID s)"
  obtains r s' where "makeUnion ms s = Some (r, s')" "good s r s'"
    "(\<forall>m\<in>set ms. member_ok m) \<longrightarrow> plain r \<and> unref r \<and> (\<forall>m\<in>set ms. \<forall>x. val m x \<longrightarrow> val r x)"
  using makeUnion_spec [OF minvD(1) [OF assms(1)] assms(2)] by (elim exE conjE) (rule that)

lemma meetUnion_spec:
  assumes M: "Mspec M n" and s: "minv s" and u: "u \<in> set (byID s)" "kind u = KindUnion"
    and t: "t \<in> set (byID s)" "unref t" and n: "tsize u + tsize t \<le> n"
  shows "\<exists>r s'. meetUnion M u t s = Some (r, s') \<and> met s r s' \<and> lower u t r"
proof -
  have el: "set (elems u) \<subseteq> set (byID s)" using elems_in_table [OF minvD(2) [OF s] u(1)] by blast
  have size: "\<forall>m\<in>set (elems u). tsize m + tsize t < n" using tsize_elem n by fastforce
  from meet_members_spec [OF M s el t(1) this] obtain ps s1 where
    ps: "meet_members M (elems u) t s = Some (ps, s1)" "minv s1" "hc_ext s s1" "set ps \<subseteq> set (byID s1)"
    and q: "(\<forall>m\<in>set (elems u). plain m \<and> unref m) \<and> plain t \<and> unref t \<longrightarrow> (\<forall>p\<in>set ps. plain p \<and> unref p) \<and>
      (\<forall>m\<in>set (elems u). separable val m t \<longrightarrow> (\<forall>x. val m x \<longrightarrow> val t x \<longrightarrow> (\<exists>p\<in>set ps. val p x)))" by auto
  have pl: "\<forall>p\<in>set ps. plain p \<and> unref p" if "plain u" "plain t" using q that(2) t(2) plainD [OF that(1)] u(2) by blast
  have cover: "\<exists>p\<in>set ps. val p x" if "plain u" "plain t" "separable val u t" "val u x" "val t x" for x
  proof -
    obtain m where m: "m \<in> set (elems u)" "val m x" using union_val [OF u(2)] \<open>val u x\<close> by blast
    have "separable val m t" by (rule separable_member [OF that(3) u(2) m(1)])
    moreover have "\<forall>m\<in>set (elems u). plain m \<and> unref m" using plainD [OF that(1)] u(2) by blast
    with q that(2) t(2) m(1) have "separable val m t \<longrightarrow> (\<forall>x. val m x \<longrightarrow> val t x \<longrightarrow> (\<exists>p\<in>set ps. val p x))"
      by blast
    ultimately show ?thesis using m(2) that(5) by blast
  qed
  show ?thesis
  proof (cases "ps = []")
    case True
    with cover have "lower u t (in_never s1)" using never_good(2-4) [OF ps(2)] by (intro lower_never) auto
    moreover have "met s (in_never s1) s1" using never_good(1) [OF ps(2)] ps(3) by (simp add: met_def)
    ultimately show ?thesis using True ps(1) by (simp add: meetUnion_def)
  next
    case False
    obtain r s' where r: "makeUnion ps s1 = Some (r, s')" "good s1 r s'"
      "(\<forall>m\<in>set ps. member_ok m) \<longrightarrow> plain r \<and> unref r \<and> (\<forall>m\<in>set ps. \<forall>x. val m x \<longrightarrow> val r x)"
      by (rule makeUnion_run [OF ps(2,4)])
    have "lower u t r"
    proof (rule lowerI)
      assume p: "plain u" "plain t"
      then have "\<forall>m\<in>set ps. member_ok m" using pl by (simp add: member_ok_def)
      note R = mp [OF r(3) this]
      show "plain r" "unref r" using R by auto
      show "val r x" if "separable val u t" "val u x" "val t x" for x using cover [OF p that] R by blast
      assume "tight u t"
      then have tight: "kind t \<noteq> KindUnion" "length (elems u) \<le> unionBudget"
        "\<forall>m\<in>set (elems u). plain m \<and> kind m \<noteq> KindUnion \<and> tight m t"
        using u(2) plainD(1) [OF p(1)] by (auto elim: tight.cases)
      note in_ps = meet_members_tight [OF M s el t(1) size ps(1) tight(3) p(2) tight(1)]
      show "val u x \<and> val t x" if vr: "val r x" for x
      proof -
        obtain q where "q \<in> set ps" "val q x"
          using makeUnion_within [OF ps(2,4) _ _ r(1) vr] in_ps tight(2) by auto
        then show ?thesis using in_ps union_val [OF u(2)] by blast
      qed
    qed (use u(2) in simp)
    moreover have "met s r s'" using met_good [OF ps(2) r(2)] ps(3) hc_ext_trans by (auto simp: met_def)
    ultimately show ?thesis using False ps(1) r(1) by (auto simp: meetUnion_def)
  qed
qed

end

subsection \<open>Members that are not unions\<close>

context meet_sem
begin

definition common :: "ty \<Rightarrow> ty \<Rightarrow> bool" where
  "common p q \<longleftrightarrow> separable val p q \<and> (\<exists>v. val p v \<and> val q v)"

lemma common_val:
  assumes "common p q" "lower p q e" "plain p" "plain q"
  shows "kind e \<noteq> KindNever" "val p v \<Longrightarrow> val q v \<Longrightarrow> val e v"
  using assms lowerD(3) [OF assms(2-4)] never_val unfolding common_def by blast+

lemma unrelated_parts:
  assumes s: "minv s" and a: "a \<in> set (byID s)" "unref a" "kind a \<noteq> KindUnion"
    and b: "b \<in> set (byID s)" "unref b" "kind b \<noteq> KindUnion"
    and "a \<noteq> b" "\<not> isSubtype a b" "\<not> isSubtype b a" "separable val a b"
  shows "(\<forall>x. \<not> (val a x \<and> val b x)) \<or>
    (\<exists>p q. kind a = kind b \<and> kind a \<in> {KindList, KindSet} \<and> elems a = [p] \<and> elems b = [q] \<and> common p q) \<or>
    (\<exists>p q p' q'. kind a = KindDict \<and> kind b = KindDict \<and> elems a = [p, p'] \<and> elems b = [q, q'] \<and> common p q \<and> common p' q')"
proof -
  have z: "refine t = 0" if "t \<in> set (byID s)" "unref t" for t
    using valid_unref minvD(1) [OF s] that by (auto simp: jinv_def arity_ok_def)
  have base: "like (base t) t" if "refine t = 0" for t using that by (simp add: base_def like_def set_refine_def)
  have "\<not> like (base a) (base b)"
    using base [OF z [OF a(1,2)]] base [OF z [OF b(1,2)]] canonical_table [OF minvD(2) [OF s] a(1) b(1)] assms(8)
      like_sym like_trans by blast
  then have "\<not> (val a x \<and> val b x)" if "apart val a b" for x
    using that assms(9,10) val_like [OF base [OF z [OF a(1,2)]]] val_like [OF base [OF z [OF b(1,2)]]]
    unfolding apart_def by blast
  with assms(11) a(3) b(3) show ?thesis unfolding common_def by (cases rule: separable.cases) auto
qed

lemma meet_elem:
  assumes M: "Mspec M n" and s: "minv s"
    and a: "a \<in> set (byID s)" "x \<in> set (elems a)" and b: "b \<in> set (byID s)" "y \<in> set (elems b)"
    and n: "tsize a + tsize b \<le> n"
  obtains e s' where "M x y s = Some (e, s')" "met s e s'" "lower x y e" "plain a \<and> plain b \<longrightarrow> plain e"
proof -
  have "x \<in> set (byID s)" "y \<in> set (byID s)" using elems_in_table [OF minvD(2) [OF s]] a b by auto
  moreover have "tsize x + tsize y < n" using tsize_elem [OF a(2)] tsize_elem [OF b(2)] n by simp
  ultimately obtain e s' where e: "M x y s = Some (e, s')" "met s e s'" "lower x y e" by (rule MspecD [OF M s])
  have "plain a \<and> plain b \<longrightarrow> plain e" using lowerD(1) [OF e(3)] plainD(1) a(2) b(2) by blast
  then show ?thesis by (rule that [OF e])
qed

lemma container_met:
  assumes s: "minv s" and "set es \<subseteq> set (byID s)"
    and "k = KindList \<or> k = KindSet \<or> k = KindDict" and "length es = (if k = KindDict then 2 else 1)"
  obtains r s' where "intern (Type k None es None False 0 0) s = Some (r, s')" "met s r s'" "unref r"
    "(\<forall>e\<in>set es. plain e) \<longrightarrow> plain r" "kind r = k" "elems r = es"
proof -
  obtain r s' where r: "intern (Type k None es None False 0 0) s = Some (r, s')" "good s r s'"
    "kind r = k" "elems r = es" "refine r = 0"
    by (rule container_result [OF minvD(1) [OF s] assms(2-4)])
  have "(\<forall>e\<in>set es. plain e) \<longrightarrow> plain r" using r(3-5) assms(3) plain_iff [of r] by auto
  then show ?thesis by (rule that [OF r(1) met_good [OF s r(2)] unref_zero [OF r(5)] _ r(3,4)])
qed

lemma seq_lower:
  assumes k: "kind a = k" "kind b = k" "kind r = k" "k = KindList \<or> k = KindSet"
    and el: "elems a \<noteq> []" "elems b \<noteq> []" "elems r = [e]" and e: "lower (elems a ! 0) (elems b ! 0) e"
    and r: "unref r" "plain e \<longrightarrow> plain r"
    and sep: "separable val a b \<Longrightarrow> (\<forall>x. \<not> (val a x \<and> val b x)) \<or> (\<exists>p q. elems a = [p] \<and> elems b = [q] \<and> common p q)"
  shows "lower a b r"
proof (rule lowerI)
  assume p: "plain a" "plain b"
  then have p': "plain (elems a ! 0)" "plain (elems b ! 0)" using plainD(1) el by auto
  show "plain r" using lowerD(1) [OF e p'] r(2) by blast
  show "val r x" if "separable val a b" "val a x" "val b x" for x
    using sep [OF that(1)] that(2,3) common_val(2) [OF _ e p'] seq_val [OF k _ _ el(3), of _ _ x] by auto
  assume "tight a b"
  then obtain x y where xy: "elems a = [x]" "elems b = [y]" "tight x y" using k by (auto elim: tight.cases)
  then have "val x v \<and> val y v" if "val e v" for v using lowerD(4) [OF e p'] that by simp
  then show "val a x \<and> val b x" if "val r x" for x
    using seq_le [OF k(3,1,4), of e, OF _ _ xy(1)] seq_le [OF k(3,2,4), of e, OF _ _ xy(2)] el(3) that by auto
qed (use r k in auto)

lemma seq_meet_spec:
  assumes M: "Mspec M n" and s: "minv s" and a: "a \<in> set (byID s)" "kind a = k"
    and b: "b \<in> set (byID s)" "kind b = k" and n: "tsize a + tsize b \<le> n" and k: "k = KindList \<or> k = KindSet"
    and sep: "separable val a b \<Longrightarrow> (\<forall>x. \<not> (val a x \<and> val b x)) \<or> (\<exists>p q. elems a = [p] \<and> elems b = [q] \<and> common p q)"
  shows "\<exists>r s'. do { x \<leftarrow> elem_at a 0; y \<leftarrow> elem_at b 0; (e, s) \<leftarrow> M x y s; containerMeet k e s } = Some (r, s') \<and>
    met s r s' \<and> lower a b r"
proof -
  have ne: "elems a \<noteq> []" "elems b \<noteq> []" using minvD(1) [OF s] a b k by (auto simp: jinv_def arity_ok_def)
  then have x: "elem_at a 0 = Some (elems a ! 0)" "elems a ! 0 \<in> set (elems a)"
    and y: "elem_at b 0 = Some (elems b ! 0)" "elems b ! 0 \<in> set (elems b)" by (auto simp: elem_at_def)
  obtain e s1 where e: "M (elems a ! 0) (elems b ! 0) s = Some (e, s1)" "met s e s1" "lower (elems a ! 0) (elems b ! 0) e"
    "plain a \<and> plain b \<longrightarrow> plain e"
    by (rule meet_elem [OF M s a(1) x(2) b(1) y(2) n])
  show ?thesis
  proof (cases "kind e = KindNever")
    case True
    have "lower a b (in_never s1)"
    proof (rule lower_never)
      fix v assume "plain a" "plain b" "separable val a b" "val a v" "val b v"
      with sep common_val(1) [OF _ e(3)] True plainD(1) show False by (metis x(2) y(2) nth_Cons_0)
    qed (use never_good [OF metD(1) [OF e(2)]] in auto)
    with True show ?thesis
      using x(1) y(1) e(1) never_good(1) [OF metD(1) [OF e(2)]] met_trans [OF e(2)] by (simp add: containerMeet_def)
  next
    case False
    obtain r s' where r: "intern (Type k None [e] None False 0 0) s1 = Some (r, s')" "met s1 r s'" "unref r"
      "(\<forall>e\<in>set [e]. plain e) \<longrightarrow> plain r" "kind r = k" "elems r = [e]"
      by (rule container_met [OF metD(1) [OF e(2)], of "[e]" k]) (use k metD(2) [OF e(2)] in auto)
    have "containerMeet k e s1 = Some (r, s')"
      using False r(1) k by (auto simp: containerMeet_def List_def ListN_def Set_def)
    moreover have "lower a b r" by (rule seq_lower [OF a(2) b(2) r(5) k ne r(6) e(3) r(3)]) (use r(4) sep in auto)
    ultimately show ?thesis using x(1) y(1) e(1) met_trans [OF e(2) r(2)] by simp
  qed
qed


lemma dict_lower:
  assumes k: "kind a = KindDict" "kind b = KindDict" "kind r = KindDict"
    and el: "elems a = [x, x']" "elems b = [y, y']" "elems r = [e, e']" and e: "lower x y e" "lower x' y' e'"
    and r: "unref r" "plain e \<and> plain e' \<longrightarrow> plain r"
    and sep: "separable val a b \<Longrightarrow> (\<forall>x. \<not> (val a x \<and> val b x)) \<or> common x y \<and> common x' y'"
  shows "lower a b r"
proof (rule lowerI)
  assume p: "plain a" "plain b"
  then have p': "plain x" "plain y" "plain x'" "plain y'" using plainD(1) el(1,2) by auto
  show "plain r" using lowerD(1) [OF e(1) p'(1,2)] lowerD(1) [OF e(2) p'(3,4)] r(2) by blast
  show "val r v" if "separable val a b" "val a v" "val b v" for v
    using sep [OF that(1)] that(2,3) common_val(2) [OF _ e(1) p'(1,2)] common_val(2) [OF _ e(2) p'(3,4)]
      dict_val [OF k el, of v] by blast
  assume "tight a b"
  then have "tight x y \<and> tight x' y'" using k el by (auto elim: tight.cases)
  then have "\<forall>v. val e v \<longrightarrow> val x v \<and> val y v" "\<forall>v. val e' v \<longrightarrow> val x' v \<and> val y' v"
    using lowerD(4) [OF e(1) p'(1,2)] lowerD(4) [OF e(2) p'(3,4)] by blast+
  then show "val a v \<and> val b v" if "val r v" for v
    using dict_le [OF k(3,1) el(3) _ _ el(1)] dict_le [OF k(3,2) el(3) _ _ el(2)] that by blast
qed (use r k in auto)

lemma dict_meet_spec:
  assumes M: "Mspec M n" and s: "minv s" and a: "a \<in> set (byID s)" "kind a = KindDict"
    and b: "b \<in> set (byID s)" "kind b = KindDict" and n: "tsize a + tsize b \<le> n"
    and sep: "separable val a b \<Longrightarrow> (\<forall>x. \<not> (val a x \<and> val b x)) \<or>
      (\<exists>p q p' q'. elems a = [p, p'] \<and> elems b = [q, q'] \<and> common p q \<and> common p' q')"
  shows "\<exists>r s'. do { x \<leftarrow> elem_at a 0; y \<leftarrow> elem_at b 0; (k, s) \<leftarrow> M x y s;
      x \<leftarrow> elem_at a 1; y \<leftarrow> elem_at b 1; (v, s) \<leftarrow> M x y s;
      if kind k = KindNever \<or> kind v = KindNever then Some (in_never s, s) else Dict k v s } = Some (r, s') \<and>
    met s r s' \<and> lower a b r"
proof -
  have len: "length (elems t) = 2" if "t \<in> set (byID s)" "kind t = KindDict" for t
    using hc_wfD(4) [OF minvD(2) [OF s] that(1)] that(2) by (auto simp: template_ok_def shape_ok_def)
  obtain x x' where x: "elems a = [x, x']" using len [OF a] by (auto simp: length_Suc_conv numeral_2_eq_2)
  obtain y y' where y: "elems b = [y, y']" using len [OF b] by (auto simp: length_Suc_conv numeral_2_eq_2)
  have sep': "(\<forall>x. \<not> (val a x \<and> val b x)) \<or> common x y \<and> common x' y'" if "separable val a b" using sep [OF that] x y by auto
  obtain k s1 where k: "M x y s = Some (k, s1)" "met s k s1" "lower x y k"
    by (rule meet_elem [OF M s a(1) _ b(1) _ n, of x y]) (simp_all add: x y)
  obtain v s2 where v: "M x' y' s1 = Some (v, s2)" "met s1 v s2" "lower x' y' v"
    by (rule meet_elem [OF M metD(1) [OF k(2)] metD(3) [OF k(2) a(1)] _ metD(3) [OF k(2) b(1)] _ n, of x' y'])
      (simp_all add: x y)
  show ?thesis
  proof (cases "kind k = KindNever \<or> kind v = KindNever")
    case True
    have "lower a b (in_never s2)"
    proof (rule lower_never)
      fix w assume "plain a" "plain b" "separable val a b" "val a w" "val b w"
      with sep' common_val(1) [OF _ k(3)] common_val(1) [OF _ v(3)] True plainD(1) [of a] plainD(1) [of b] x y
      show False by auto
    qed (use never_good [OF metD(1) [OF v(2)]] in auto)
    with True show ?thesis
      using x y k(1) v(1) never_good(1) [OF metD(1) [OF v(2)]] met_trans [OF met_trans [OF k(2) v(2)]]
      by (auto simp: elem_at_def)
  next
    case False
    obtain r s' where r: "Dict k v s2 = Some (r, s')" "met s2 r s'" "unref r" "(\<forall>e\<in>set [k, v]. plain e) \<longrightarrow> plain r"
      "kind r = KindDict" "elems r = [k, v]"
      unfolding Dict_def
      by (rule container_met [OF metD(1) [OF v(2)], of "[k, v]" KindDict])
        (use metD(2,3) [OF v(2)] metD(2) [OF k(2)] in auto)
    have "lower a b r" by (rule dict_lower [OF a(2) b(2) r(5) x y r(6) k(3) v(3) r(3)]) (use r(4) sep' in auto)
    then show ?thesis
      using False x y k(1) v(1) r(1) met_trans [OF met_trans [OF k(2) v(2)] r(2)] by (simp add: elem_at_def)
  qed
qed

end

subsection \<open>The whole operation\<close>

context meet_sem
begin

lemma sub_lower:
  assumes s: "minv s" and a: "a \<in> set (byID s)" "unref a" and b: "b \<in> set (byID s)" "unref b" and sub: "isSubtype a b"
  shows "lower a b a"
proof -
  have "\<forall>x. val a x \<longrightarrow> val b x"
    by (rule sub_le [OF sub hc_wfD(3) [OF minvD(2) [OF s] a(1)] hc_wfD(3) [OF minvD(2) [OF s] b(1)] b(2)])
      (use table_class(1) [OF minvD(1) [OF s] a(1)] in blast)
  then show ?thesis by (simp add: lower_def)
qed

lemma structuralMeet_spec:
  assumes M: "Mspec M n" and s: "minv s" and a: "a \<in> set (byID s)" "unref a"
    and b: "b \<in> set (byID s)" "unref b" and n: "tsize a + tsize b \<le> n"
  shows "\<exists>r s'. structuralMeet M a b s = Some (r, s') \<and> met s r s' \<and> lower a b r"
proof -
  let ?rel = "a = b \<or> isSubtype a b \<or> isSubtype b a"
  consider (eq) "a = b \<or> isSubtype a b" | (sup) "a \<noteq> b" "\<not> isSubtype a b" "isSubtype b a"
    | (ua) "\<not> ?rel" "kind a = KindUnion" | (ub) "\<not> ?rel" "kind a \<noteq> KindUnion" "kind b = KindUnion"
    | (atoms) "\<not> ?rel" "kind a \<noteq> KindUnion" "kind b \<noteq> KindUnion" by blast
  then show ?thesis
  proof cases
    case eq
    then have "isSubtype a b" by (auto simp: isSubtype_def)
    from sub_lower [OF s a b this] eq show ?thesis using met_same [OF s a(1)] by (auto simp: structuralMeet_def)
  next
    case sup
    from lower_sym [OF sub_lower [OF s b a sup(3)]] sup show ?thesis
      using met_same [OF s b(1)] by (simp add: structuralMeet_def)
  next
    case ua
    then show ?thesis using meetUnion_spec [OF M s a(1) _ b n] by (simp add: structuralMeet_def)
  next
    case ub
    obtain r s' where "meetUnion M b a s = Some (r, s')" "met s r s'" "lower b a r"
      using meetUnion_spec [OF M s b(1) ub(3) a] n by auto
    with ub lower_sym [of val b a r] show ?thesis by (simp add: structuralMeet_def)
  next
    case atoms
    have run: "structuralMeet M a b s =
      (if kind a = kind b \<and> kind a = KindList then do {
         x \<leftarrow> elem_at a 0; y \<leftarrow> elem_at b 0; (e, s) \<leftarrow> M x y s; containerMeet KindList e s }
       else if kind a = kind b \<and> kind a = KindSet then do {
         x \<leftarrow> elem_at a 0; y \<leftarrow> elem_at b 0; (e, s) \<leftarrow> M x y s; containerMeet KindSet e s }
       else if kind a = kind b \<and> kind a = KindDict then do {
         x \<leftarrow> elem_at a 0; y \<leftarrow> elem_at b 0; (k, s) \<leftarrow> M x y s;
         x \<leftarrow> elem_at a 1; y \<leftarrow> elem_at b 1; (v, s) \<leftarrow> M x y s;
         if kind k = KindNever \<or> kind v = KindNever then Some (in_never s, s) else Dict k v s }
       else Some (in_never s, s))" using atoms by (simp add: structuralMeet_def)
    have sep: "(\<forall>x. \<not> (val a x \<and> val b x)) \<or>
      (\<exists>p q. kind a = kind b \<and> kind a \<in> {KindList, KindSet} \<and> elems a = [p] \<and> elems b = [q] \<and> common p q) \<or>
      (\<exists>p q p' q'. kind a = KindDict \<and> kind b = KindDict \<and> elems a = [p, p'] \<and> elems b = [q, q'] \<and> common p q \<and> common p' q')"
      if "separable val a b" using unrelated_parts [OF s a atoms(2) b atoms(3) _ _ _ that] atoms(1) by blast
    consider (seq) "kind b = kind a" "kind a = KindList \<or> kind a = KindSet" | (dict) "kind a = KindDict" "kind b = KindDict"
      | (flat) "kind a \<noteq> kind b \<or> kind a \<notin> {KindList, KindSet, KindDict}" by (metis insert_iff singletonD)
    then show ?thesis
    proof cases
      case seq
      then show ?thesis using seq_meet_spec [OF M s a(1) refl b(1) seq(1) n seq(2)] sep unfolding run by auto
    next
      case dict
      then show ?thesis using dict_meet_spec [OF M s a(1) dict(1) b(1) dict(2) n] sep unfolding run by auto
    next
      case flat
      then have "\<forall>x. \<not> (val a x \<and> val b x)" if "separable val a b" using sep [OF that] by auto
      then have "lower a b (in_never s)" using never_good(2-4) [OF s] by (intro lower_never) blast+
      with flat show ?thesis using never_good(1) [OF s] unfolding run by auto
    qed
  qed
qed

lemma valid_or: "valid_bits r \<Longrightarrow> valid_bits q \<Longrightarrow> valid_bits (r OR q)"
  using valid_or_and [of r q "-1"] by simp

lemma meet_strip:
  assumes s: "minv s" and t: "t \<in> set (byID s)"
  obtains t' s' where "stripRefine t s = Some (t', s')" "met s t' s'" "tsize t' = tsize t" "unref t'"
    "plain t \<longrightarrow> plain t'" "\<forall>x. val t x \<longrightarrow> val t' x" "like t' (set_refine (refine t AND NOT all_bits) t)"
proof -
  obtain t' s' where t': "stripRefine t s = Some (t', s')" "hc_step s t' s'" "classes s' = classes s"
    "like t' (set_refine (refine t AND NOT all_bits) t)"
    using stripRefine_spec [OF minvD(2) [OF s] t] by blast
  have v: "valid_bits (refine t AND NOT all_bits)"
    using minvD(1) [OF s] t valid_and_not by (auto simp: jinv_def arity_ok_def)
  note st = refine_step [OF minvD(1) [OF s] t t'(2-4) v]
  show ?thesis
    by (rule that [OF t'(1) met_good [OF s st(1)] tsize_same [OF st(4)] strip_unref [OF t'(4)] _ _ t'(4)])
      (use strip_plain [OF t'(4)] strip_le [OF t'(4)] in auto)
qed

lemma meet_bits_spec:
  assumes s: "minv s" and t: "t \<in> set (byID s)" and low: "lower a b t" and un: "unref a \<and> unref b \<longrightarrow> False"
    and v: "valid_bits (refine a)" "valid_bits (refine b)" and k: "kind t = kind a" "kind t = kind b"
  shows "\<exists>r s'. WithRefine t (refine a OR refine b) s = Some (r, s') \<and> met s r s' \<and> lower a b r"
proof -
  let ?c = "refine a OR refine b"
  obtain r s' where r: "WithRefine t ?c s = Some (r, s')" "hc_step s r s'" "classes s' = classes s"
    "like r (set_refine (refine t OR ?c) t)"
    using WithRefine_spec [OF minvD(2) [OF s] t] by blast
  have "valid_bits (refine t)" using minvD(1) [OF s] t by (simp add: jinv_def arity_ok_def)
  then have "valid_bits (refine t OR ?c)" using v by (intro valid_or)
  note rs = refine_step [OF minvD(1) [OF s] t r(2-4) this]
  have "lower a b r"
  proof (rule lowerI)
    assume p: "plain a" "plain b"
    then have ex: "?c AND RefineExactType = 0"
      using plainD(3) [OF p(1)] plainD(3) [OF p(2)] by (simp add: bit.conj_disj_distrib2)
    then have "(refine t OR ?c) AND RefineExactType = refine t AND RefineExactType"
      by (simp add: bit.conj_disj_distrib2)
    then show "plain r" using plain_same [of r t] lowerD(1) [OF low p] rs(3,4) r(4) by (simp add: like_def)
    show "unref r" if "unref a" "unref b" using un that by blast
    show "val r x" if "separable val a b" "val a x" "val b x" for x
      by (rule meet_bits [OF that(2,3) lowerD(3) [OF low p that] k ex r(4)])
  qed (use un tight_unref in blast)+
  with r(1) met_good [OF s rs(1)] show ?thesis by blast
qed

lemma strip_lower:
  assumes s: "minv s" and a: "a \<in> set (byID s)" and b: "b \<in> set (byID s)"
    and sa: "unref sa" "plain a \<longrightarrow> plain sa" "\<forall>x. val a x \<longrightarrow> val sa x" "like sa (set_refine (refine a AND NOT all_bits) a)"
    and sb: "unref sb" "plain b \<longrightarrow> plain sb" "\<forall>x. val b x \<longrightarrow> val sb x" "like sb (set_refine (refine b AND NOT all_bits) b)"
    and t: "lower sa sb t"
  shows "lower a b t"
proof (rule lowerI)
  assume "plain a" "plain b"
  then have p: "plain sa" "plain sb" using sa(2) sb(2) by auto
  show "plain t" "unref t" using lowerD(1,2) [OF t p] sa(1) sb(1) by auto
  show "val t x" if "separable val a b" "val a x" "val b x" for x
    using lowerD(3) [OF t p separable_base [OF val_like that(1) sa(4) sb(4)]] sa(3) sb(3) that(2,3) by blast
  assume tight: "tight a b"
  have same: "val sa x = val a x" "val sb x = val b x" for x
  proof -
    have "refine a = 0" "refine b = 0"
      using tight_unref [OF tight] valid_unref minvD(1) [OF s] a b by (auto simp: jinv_def arity_ok_def)
    then have "like sa a" "like sb b" using sa(4) sb(4) by (auto simp: like_def)
    then show "val sa x = val a x" "val sb x = val b x" using val_like by blast+
  qed
  note tight' = tight_base [OF tight sa(4) sb(4) sa(1) sb(1)]
  show "val a x \<and> val b x" if "val t x" for x using lowerD(4) [OF t p tight' that] same by blast
  show "kind t \<noteq> KindUnion" if "kind a \<noteq> KindUnion" "kind b \<noteq> KindUnion"
    using lowerD(5) [OF t p tight'] that sa(4) sb(4) by (simp add: like_def)
qed

lemma meetUncached_spec:
  assumes M: "Mspec M n" and s: "minv s" and a: "a \<in> set (byID s)" and b: "b \<in> set (byID s)"
    and n: "tsize a + tsize b \<le> n"
  shows "\<exists>r s'. meetUncached M a b s = Some (r, s') \<and> met s r s' \<and> lower a b r"
proof -
  consider (da) "kind a = KindDyn" | (db) "kind a \<noteq> KindDyn" "kind b = KindDyn"
    | (nv) "kind a \<noteq> KindDyn" "kind b \<noteq> KindDyn" "kind a = KindNever \<or> kind b = KindNever"
    | (gen) "kind a \<noteq> KindDyn" "kind b \<noteq> KindDyn" "\<not> (kind a = KindNever \<or> kind b = KindNever)" by blast
  then show ?thesis
  proof cases
    case nv
    then have "lower a b (in_never s)" using never_good [OF s] never_val by (intro lower_never) auto
    with nv never_good(1) [OF s] show ?thesis by (auto simp: meetUncached_def)
  next
    case gen
    obtain sa s1 where sa: "stripRefine a s = Some (sa, s1)" "met s sa s1" "tsize sa = tsize a" "unref sa"
      "plain a \<longrightarrow> plain sa" "\<forall>x. val a x \<longrightarrow> val sa x" "like sa (set_refine (refine a AND NOT all_bits) a)"
      by (rule meet_strip [OF s a])
    obtain sb s2 where sb: "stripRefine b s1 = Some (sb, s2)" "met s1 sb s2" "tsize sb = tsize b" "unref sb"
      "plain b \<longrightarrow> plain sb" "\<forall>x. val b x \<longrightarrow> val sb x" "like sb (set_refine (refine b AND NOT all_bits) b)"
      by (rule meet_strip [OF metD(1) [OF sa(2)] metD(3) [OF sa(2) b]])
    obtain t s3 where t: "structuralMeet M sa sb s2 = Some (t, s3)" "met s2 t s3" "lower sa sb t"
      using structuralMeet_spec [OF M metD(1) [OF sb(2)] metD(3) [OF sb(2) metD(2) [OF sa(2)]] sa(4)
          metD(2) [OF sb(2)] sb(4)] sa(3) sb(3) n by auto
    have g: "met s t s3" by (rule met_trans [OF met_trans [OF sa(2) sb(2)] t(2)])
    have low: "lower a b t" by (rule strip_lower [OF s a b sa(4-7) sb(4-7) t(3)])
    have v: "valid_bits (refine a)" "valid_bits (refine b)" using minvD(1) [OF s] a b by (auto simp: jinv_def arity_ok_def)
    show ?thesis
    proof (cases "refine a OR refine b \<noteq> 0 \<and> kind t = kind a \<and> kind t = kind b")
      case True
      then have "unref a \<and> unref b \<longrightarrow> False" using valid_unref [OF v(1)] valid_unref [OF v(2)] by auto
      then obtain r s' where r: "WithRefine t (refine a OR refine b) s3 = Some (r, s')" "met s3 r s'" "lower a b r"
        using meet_bits_spec [OF metD(1,2) [OF t(2)] low _ v] True by auto
      have "meetUncached M a b s = Some (r, s')"
        using True gen sa(1) sb(1) t(1) r(1) by (auto simp: meetUncached_def Let_def)
      with met_trans [OF g r(2)] r(3) show ?thesis by blast
    next
      case False
      then have "meetUncached M a b s = Some (t, s3)"
        using gen sa(1) sb(1) t(1) by (auto simp: meetUncached_def Let_def)
      with g low show ?thesis by blast
    qed
  qed (use met_same [OF s a] met_same [OF s b] le_dyn [of a b] le_dyn [of b a] in \<open>auto simp: meetUncached_def lower_def\<close>)
qed

lemma meet_memo_update:
  assumes s2: "minv s2" and ext: "hc_ext s s2" "meetMemo s (memoKey (tid a) (tid b)) = None"
    and tab: "a \<in> set (byID s2)" "b \<in> set (byID s2)" "r \<in> set (byID s2)" and low: "lower a b r"
  shows "met s r (s2\<lparr>meetMemo := (meetMemo s2)(memoKey (tid a) (tid b) \<mapsto> r)\<rparr>)"
proof -
  let ?s = "s2\<lparr>meetMemo := (meetMemo s2)(memoKey (tid a) (tid b) \<mapsto> r)\<rparr>"
  have "wf ?s" using jinvD(1) [OF minvD(1) [OF s2]] by (simp add: wf_def hc_wf_def template_ok_def singles_ok_def)
  then have "jinv ?s" using minvD(1) [OF s2] by (simp add: jinv_def classes_ok_def arity_ok_def memo_ok_def)
  moreover have "tid a < length (byID s2)" "byID s2 ! tid a = a" "tid b < length (byID s2)" "byID s2 ! tid b = b"
    using byID_distinct [OF minvD(2) [OF s2]] tab(1,2) by auto
  ultimately have "minv ?s" using s2 tab(3) low lower_sym [OF low] by (auto simp: minv_def memoKey_def)
  moreover have "hc_ext s ?s" using ext by (auto simp: hc_ext_def map_le_def)
  ultimately show ?thesis using tab(3) by (simp add: met_def)
qed

theorem Meet_Mspec: "Mspec (Meet n) n"
proof (induction n)
  case 0
  show ?case by (simp add: Mspec_def)
next
  case (Suc n)
  show ?case unfolding Mspec_def
  proof (intro allI impI)
    fix s a b
    assume s: "minv s" and a: "a \<in> set (byID s)" and b: "b \<in> set (byID s)" and n: "tsize a + tsize b < Suc n"
    let ?k = "memoKey (tid a) (tid b)"
    consider (eq) "a = b" | (hit) r where "a \<noteq> b" "meetMemo s ?k = Some r" | (miss) "a \<noteq> b" "meetMemo s ?k = None"
      by (cases "meetMemo s ?k") auto
    then show "\<exists>r s'. Meet (Suc n) a b s = Some (r, s') \<and> met s r s' \<and> lower a b r"
    proof cases
      case eq
      with met_same [OF s a] show ?thesis by (auto simp: lower_def)
    next
      case hit
      have "byID s ! tid a = a" "byID s ! tid b = b"
        using byID_distinct [OF minvD(2) [OF s]] a b by auto
      then have "lower a b r" "r \<in> set (byID s)"
        using hit(2) s by (auto simp: minv_def memoKey_def split: if_splits) (metis lower_sym)+
      with hit met_same [OF s] show ?thesis by auto
    next
      case miss
      obtain r s2 where r: "meetUncached (Meet n) a b s = Some (r, s2)" "met s r s2" "lower a b r"
        using meetUncached_spec [OF Suc.IH s a b] n by auto
      have "met s r (s2\<lparr>meetMemo := (meetMemo s2)(?k \<mapsto> r)\<rparr>)"
        using meet_memo_update [OF metD(1) [OF r(2)] _ miss(2) metD(3) [OF r(2) a] metD(3) [OF r(2) b]
            metD(2) [OF r(2)] r(3)] r(2) by (simp add: met_def)
      with miss r show ?thesis by auto
    qed
  qed
qed

end

section \<open>The two readings\<close>

lemma kind_sem_both:
  assumes "has_type W a x" "has_type W b x" "has_type W t x" "kind t = kind a" "kind t = kind b"
    and "(refine a OR refine b) AND RefineExactType = 0"
    and u: "like u (set_refine (refine t OR (refine a OR refine b)) t)"
  shows "has_type W u x"
proof -
  have bits: "refine t AND b' \<noteq> 0 \<or> refine a AND b' \<noteq> 0 \<or> refine b AND b' \<noteq> 0" if "refine u AND b' \<noteq> 0" for b'
    using u that by (auto simp: like_def bit.conj_disj_distrib2)
  have ex: "refine a AND RefineExactType = 0" "refine b AND RefineExactType = 0"
    using assms(6) by (simp_all add: bit.conj_disj_distrib2 or_eq_0_iff)
  have int: "refine u AND RefineNonNegative \<noteq> 0 \<longrightarrow> kind t = KindInt \<longrightarrow> 0 \<le> vint x"
    using bits [of RefineNonNegative] has_type_selD [OF assms(1)] has_type_selD [OF assms(2)] has_type_selD [OF assms(3)] assms(4,5)
    by (auto simp: kind_sem_def)
  have str: "refine u AND RefineAsciiOnly \<noteq> 0 \<longrightarrow> kind t = KindStr \<longrightarrow> list_all (\<lambda>c. c < 128) (vchars x)"
    using bits [of RefineAsciiOnly] has_type_selD [OF assms(1)] has_type_selD [OF assms(2)] has_type_selD [OF assms(3)] assms(4,5)
    by (auto simp: kind_sem_def)
  have cls: "refine u AND RefineExactType \<noteq> 0 \<longrightarrow> refine t AND RefineExactType \<noteq> 0" using bits [of RefineExactType] ex by auto
  have "nameless (the (tsig u)) = nameless (the (tsig t))"
    using u by (cases "tsig u"; cases "tsig t") (auto simp: like_def)
  with int str cls has_type_selD [OF assms(3)] u show ?thesis
    unfolding has_type_sel [of W u] by (cases "kind t") (auto simp: like_def kind_sem_def)
qed

lemma has_type_meet:
  assumes "world_ok W"
  shows "meet_sem (has_type W) (linear_ok W)"
proof -
  have "below W = (\<lambda>t u. \<forall>x. has_type W t x \<longrightarrow> has_type W u x)" by (simp add: below_def fun_eq_iff)
  then have "join_order (\<lambda>t u. \<forall>x. has_type W t x \<longrightarrow> has_type W u x) (linear_ok W)"
    using below_order [OF assms] by simp
  then show ?thesis
  proof (rule meet_sem.intro, unfold_locales)
    show "has_type W u x" if "has_type W a x" "has_type W b x" "has_type W t x" "kind t = kind a" "kind t = kind b"
      "(refine a OR refine b) AND RefineExactType = 0" "like u (set_refine (refine t OR (refine a OR refine b)) t)"
      for a x b t u
      by (rule kind_sem_both [OF that])
    show "has_type W u x" if "kind a = k" "kind b = k" "kind u = k" "k = KindList \<or> k = KindSet" "elems a = [p]"
      "elems b = [q]" "elems u = [e]" "\<And>v. has_type W p v \<Longrightarrow> has_type W q v \<Longrightarrow> has_type W e v"
      "has_type W a x" "has_type W b x" for a k b u p q e x
      using that by (auto simp: has_type_seq)
    show "has_type W u x" if "kind a = KindDict" "kind b = KindDict" "kind u = KindDict" "elems a = [p, p']"
      "elems b = [q, q']" "elems u = [e, e']" "\<And>v. has_type W p v \<Longrightarrow> has_type W q v \<Longrightarrow> has_type W e v"
      "\<And>v. has_type W p' v \<Longrightarrow> has_type W q' v \<Longrightarrow> has_type W e' v" "has_type W a x" "has_type W b x"
      for a b u p p' q q' e e' x
      using that by (fastforce simp: has_type_dict)
  qed (simp_all add: has_type_union)
qed

interpretation meet_total: meet_sem "\<lambda>_ (_::unit). False" "\<lambda>_. True"
  by unfold_locales auto

text \<open>The world of the builtin classes, in which every class the program could add is missing.\<close>

definition builtin_world :: py_world where
  "builtin_world = \<lparr>
     lin = (\<lambda>n. if n = ''bool'' then [''bool'', ''int'', ''object''] else if n = ''object'' then [''object'']
       else [n, ''object'']),
     fn_ok = (\<lambda>_ _. False), proto_ok = (\<lambda>_ _. False)\<rparr>"

lemma builtin_world_ok: "world_ok builtin_world"
  by (auto simp: world_ok_def builtin_world_def)

interpretation builtin_meet: meet_sem "has_type builtin_world" "linear_ok builtin_world"
  by (rule has_type_meet [OF builtin_world_ok])

end
