(* ===== verification/Type_Api.thy ===== *)
theory Type_Api
  imports Meet
begin

text \<open>
  The interner as a state machine: a client obtains types only from the constructors, the
  refinement operations, \<open>Union\<close>, \<open>Optional\<close>, \<open>Join\<close> and \<open>Meet\<close> of \<^verbatim>\<open>pkg/types\<close>, and passes back only
  types it was given. \<open>api\<close> is one such call, \<open>reach\<close> the states a client can bring about; the
  lattice theorems below hold in every one of them.

  The calls to \<open>Join\<close> and \<open>Meet\<close> carry fuel above the depth, respectively the size, of their
  arguments, which is what the recursion needs.
\<close>

section \<open>Calls and reachable states\<close>

inductive api :: "(class_ref \<Rightarrow> bool) \<Rightarrow> interner \<Rightarrow> ty \<Rightarrow> interner \<Rightarrow> bool" for ok where
  call_single: "t \<in> set (byID s) \<Longrightarrow> api ok s t s"
| call_class: "name_ok n \<Longrightarrow> \<forall>m\<in>set mro. name_ok m \<Longrightarrow> \<forall>i. ok (ClassRef n (if mro = [] then [n] else mro) i) \<Longrightarrow>
    Class n mro s = Some (t, s') \<Longrightarrow> api ok s t s'"
| call_proto: "name_ok n \<Longrightarrow> \<forall>i. ok (ClassRef n [n] i) \<Longrightarrow> Proto n s = Some (t, s') \<Longrightarrow> api ok s t s'"
| call_list: "e \<in> set (byID s) \<Longrightarrow> List e s = Some (t, s') \<Longrightarrow> api ok s t s'"
| call_set: "e \<in> set (byID s) \<Longrightarrow> Set e s = Some (t, s') \<Longrightarrow> api ok s t s'"
| call_dict: "k \<in> set (byID s) \<Longrightarrow> v \<in> set (byID s) \<Longrightarrow> Dict k v s = Some (t, s') \<Longrightarrow> api ok s t s'"
| call_tuple: "set ps \<subseteq> set (byID s) \<Longrightarrow> Tuple ps s = Some (t, s') \<Longrightarrow> api ok s t s'"
| call_tuplevar: "e \<in> set (byID s) \<Longrightarrow> TupleVar e s = Some (t, s') \<Longrightarrow> api ok s t s'"
| call_callable: "set_signature sig \<subseteq> set (byID s) \<Longrightarrow> Callable sig s = Some (t, s') \<Longrightarrow> api ok s t s'"
| call_with: "u \<in> set (byID s) \<Longrightarrow> valid_bits r \<Longrightarrow> WithRefine u r s = Some (t, s') \<Longrightarrow> api ok s t s'"
| call_without: "u \<in> set (byID s) \<Longrightarrow> WithoutRefine u r s = Some (t, s') \<Longrightarrow> api ok s t s'"
| call_union: "set ms \<subseteq> set (byID s) \<Longrightarrow> Union ms s = Some (t, s') \<Longrightarrow> api ok s t s'"
| call_optional: "u \<in> set (byID s) \<Longrightarrow> Optional u s = Some (t, s') \<Longrightarrow> api ok s t s'"
| call_join: "a \<in> set (byID s) \<Longrightarrow> b \<in> set (byID s) \<Longrightarrow> tdepth a < n \<Longrightarrow> tdepth b < n \<Longrightarrow>
    Join n a b s = Some (t, s') \<Longrightarrow> api ok s t s'"
| call_meet: "a \<in> set (byID s) \<Longrightarrow> b \<in> set (byID s) \<Longrightarrow> tsize a + tsize b < n \<Longrightarrow>
    Meet n a b s = Some (t, s') \<Longrightarrow> api ok s t s'"

inductive reach :: "(class_ref \<Rightarrow> bool) \<Rightarrow> interner \<Rightarrow> bool" for ok where
  new: "NewInterner = Some s \<Longrightarrow> reach ok s"
| call: "reach ok s \<Longrightarrow> api ok s t s' \<Longrightarrow> reach ok s'"

section \<open>Every call keeps the invariant\<close>

context meet_sem
begin

lemma new_minv:
  assumes "NewInterner = Some s"
  shows "minv s"
proof -
  have "wf s" "classes s = []" "joinMemo s = Map.empty" using NewInterner_wf assms by (metis option.inject)+
  then show ?thesis using NewInterner_table [OF assms]
    by (auto simp: minv_def jinv_def classes_ok_def arity_ok_def memo_ok_def)
qed

lemma registered:
  assumes "jinv s" "\<forall>m\<in>set mro. name_ok m" "name_ok n" "\<forall>i. cls_ok (ClassRef n (if mro = [] then [n] else mro) i)"
    and "map_of (classes s) n = Some c \<and> classes s' = classes s \<or>
      MRO c = (if mro = [] then [n] else mro) \<and> map_of (classes s') = (map_of (classes s))(n \<mapsto> c)" "cname c = n"
  shows "classes_ok s'"
proof -
  have "cls_ok c" if "MRO c = (if mro = [] then [n] else mro)" using assms(4,6) that by (cases c) auto
  with assms show ?thesis unfolding jinv_def classes_ok_def by (auto split: if_splits)
qed

lemma interned_met:
  assumes "minv s" "hc_step s t s'" "classes s' = classes s" "valid_bits (refine t)"
    and "kind t = KindList \<or> kind t = KindSet \<Longrightarrow> elems t \<noteq> []"
  shows "met s t s'"
  using assms by (intro met_good good_step classes_okI [OF _ jinvD(3)] minvD) auto

lemma container_call:
  assumes "intern (Type k None es None v 0 0) s = Some (t, s')" "minv s" "set es \<subseteq> set (byID s)"
    and "k \<in> {KindList, KindSet} \<and> es \<noteq> [] \<or> k = KindTuple \<or> k = KindDict \<and> length es = 2"
    and "v \<longrightarrow> k = KindTuple \<and> length es = 1"
  shows "met s t s'"
proof -
  obtain "hc_step s t s'" "classes s' = classes s" "like t (Type k None es None v 0 0)"
    using container_spec [OF minvD(2) [OF assms(2)] assms(3) _ assms(5), of 0] assms(1,4) by auto
  then show ?thesis using assms(4) by (intro interned_met [OF assms(2)]) (auto simp: like_def)
qed

lemma class_call:
  assumes "minv s" "name_ok n" "\<forall>m\<in>set mro. name_ok m" "\<forall>i. cls_ok (ClassRef n (if mro = [] then [n] else mro) i)"
    and "Class n mro s = Some (t, s')"
  shows "met s t s'"
proof -
  obtain c where "hc_step s t s'" "kind t = KindClass" "cname c = n" "refine t = 0"
    "map_of (classes s) n = Some c \<and> classes s' = classes s \<or>
      MRO c = (if mro = [] then [n] else mro) \<and> map_of (classes s') = (map_of (classes s))(n \<mapsto> c)"
    using Class_spec [OF minvD(2) [OF assms(1)] assms(2), of mro] assms(5) by auto
  then show ?thesis
    by (intro met_good [OF assms(1)] good_step registered [OF minvD(1) [OF assms(1)] assms(3,2,4)] minvD assms(1)) auto
qed

lemma proto_call:
  assumes "minv s" "name_ok n" "\<forall>i. cls_ok (ClassRef n [n] i)" and "Proto n s = Some (t, s')"
  shows "met s t s'"
proof -
  obtain c where "hc_step s t s'" "kind t = KindProto" "cname c = n" "refine t = 0"
    "map_of (classes s) n = Some c \<and> classes s' = classes s \<or>
      MRO c = (if [n] = [] then [n] else [n]) \<and> map_of (classes s') = (map_of (classes s))(n \<mapsto> c)"
    using Proto_spec [OF minvD(2) [OF assms(1)] assms(2)] assms(4) by auto
  then show ?thesis
    by (intro met_good [OF assms(1)] good_step registered [OF minvD(1) [OF assms(1)], of "[n]"] minvD assms(1))
      (use assms(2,3) in auto)
qed

lemma refine_call:
  assumes "minv s" "u \<in> set (byID s)"
    and "WithRefine u r s = Some (t, s') \<and> valid_bits r \<or> WithoutRefine u r s = Some (t, s')"
  shows "met s t s'"
proof -
  have v: "valid_bits (refine u)" using minvD(1) [OF assms(1)] assms(2) by (simp add: jinv_def arity_ok_def)
  obtain q where "hc_step s t s'" "classes s' = classes s" "like t (set_refine q u)" "valid_bits q"
    using WithRefine_spec [OF minvD(2) [OF assms(1)] assms(2), of r]
      WithoutRefine_spec [OF minvD(2) [OF assms(1)] assms(2), of r] assms(3)
      valid_or [OF v] valid_and_not [OF v] by auto
  then show ?thesis using refine_step(1) [OF minvD(1) [OF assms(1)] assms(2)] met_good [OF assms(1)] by blast
qed

lemma union_call:
  assumes "minv s" "set ms \<subseteq> set (byID s)" "makeUnion ms s = Some (t, s')"
  shows "met s t s'"
proof -
  obtain r s1 where "makeUnion ms s = Some (r, s1)" "good s r s1" by (rule makeUnion_run [OF assms(1,2)])
  with assms(3) show ?thesis using met_good [OF assms(1)] by simp
qed

lemma api_met:
  assumes "api cls_ok s t s'" and s: "minv s"
  shows "met s t s'"
  using assms(1)
proof cases
  case call_single
  then show ?thesis using met_same [OF s] by simp
next
  case (call_callable sig)
  then show ?thesis
    using Callable_spec [OF minvD(2) [OF s], of sig] by (auto intro!: interned_met [OF s] simp: like_def)
next
  case (call_optional u)
  then show ?thesis
    using union_call [OF s, of "[u, in_none s]"] singles(2) [OF jinvD(1) [OF minvD(1) [OF s]]] by (simp add: Optional_def)
next
  case (call_join a b n)
  obtain r s1 where "Join n a b s = Some (r, s1)" "good s r s1"
    by (rule JspecD [OF Join_Jspec minvD(1) [OF s] call_join(1-4)])
  with call_join(5) show ?thesis using met_good [OF s] by simp
next
  case (call_meet a b n)
  obtain r s1 where "Meet n a b s = Some (r, s1)" "met s r s1"
    by (rule MspecD [OF Meet_Mspec s call_meet(1-3)])
  with call_meet(4) show ?thesis by simp
next
  case (call_list e)
  then show ?thesis by (intro container_call [of KindList "[e]" False]) (simp_all add: s List_def ListN_def)
next
  case (call_set e)
  then show ?thesis by (intro container_call [of KindSet "[e]" False]) (simp_all add: s Set_def)
next
  case (call_dict k v)
  then show ?thesis by (intro container_call [of KindDict "[k, v]" False]) (simp_all add: s Dict_def)
next
  case (call_tuple ps)
  then show ?thesis by (intro container_call [of KindTuple ps False]) (simp_all add: s Tuple_def)
next
  case (call_tuplevar e)
  then show ?thesis by (intro container_call [of KindTuple "[e]" True]) (simp_all add: s TupleVar_def)
next
  case call_class
  then show ?thesis by (intro class_call [OF s])
next
  case call_proto
  then show ?thesis by (intro proto_call [OF s])
next
  case (call_with u r)
  then show ?thesis using refine_call [OF s] by blast
next
  case (call_without u r)
  then show ?thesis using refine_call [OF s] by blast
next
  case call_union
  then show ?thesis using union_call [OF s] by (simp add: Union_def)
qed

lemma reach_minv: "reach cls_ok s \<Longrightarrow> minv s"
proof (induction rule: reach.induct)
  case (call s t s')
  then show ?case using metD(1) [OF api_met] by simp
qed (rule new_minv)

end

section \<open>Properties\<close>

lemma reach_canonical: "reach ok s \<Longrightarrow> meet_inv (\<lambda>_ (_::unit). False) (\<lambda>_. True) s"
proof (induction rule: reach.induct)
  case (call s t s')
  have "api (\<lambda>_. True) s t s'" using call(2) by (cases rule: api.cases) (blast intro: api.intros)+
  then show ?case using meet_total.metD(1) [OF meet_total.api_met] call.IH by simp
qed (rule meet_total.new_minv)

lemma single_facts:
  assumes "wf s"
  shows "plain (in_int s)" "plain (in_none s)" "tdepth (in_int s) = 0" "tdepth (in_none s) = 0"
    "tsize (in_int s) = 1" "tsize (in_none s) = 1"
proof -
  note l = singles(6,7) [OF assms]
  show "plain (in_int s)" "plain (in_none s)" "tdepth (in_int s) = 0" "tdepth (in_none s) = 0"
    "tsize (in_int s) = 1" "tsize (in_none s) = 1"
    using like_plain [OF l(1)] like_plain [OF l(2)] like_tdepth [OF l(1)] like_tdepth [OF l(2)]
      tsize_same [of "in_int s" "atom KindInt"] tsize_same [of "in_none s" "atom KindNone"] l
    by (auto simp: atom_def like_def)
qed

text \<open>C11: in every state a client can bring the interner into, two table types that agree in kind,
  class, elements, signature (up to parameter names), variadicity and refinement bits are one
  and the same entry, and every entry sits at the index its id names: structural equality is
  pointer equality.\<close>
theorem interner_canonical:
  assumes "reach ok s" and "t \<in> set (byID s)" and "u \<in> set (byID s)"
  shows "(t = u \<longleftrightarrow> like t u) \<and> Lookup (tid t) s = Some t"
proof -
  have wf: "hc_wf s" using reach_canonical [OF assms(1)] meet_total.minvD(2) by blast
  have "tid t < length (byID s) \<and> byID s ! tid t = t" using byID_distinct [OF wf] assms(2) by blast
  then show ?thesis using canonical_table [OF wf assms(2,3)] by (auto simp: Lookup_def)
qed

theorem interner_canonical_witness:
  "\<exists>s. NewInterner = Some s \<and> in_int s \<in> set (byID s) \<and> Lookup (tid (in_int s)) s = Some (in_int s) \<and>
     \<not> like (in_int s) (in_none s)"
proof -
  obtain s where s: "NewInterner = Some s" "wf s" using NewInterner_wf by blast
  note m = singles(3,2) [OF s(2)] and l = singles(7,6) [OF s(2)] and f = single_facts [OF s(2)]
  have "\<not> like (in_int s) (in_none s)" using l by (simp add: like_def)
  with s(1) m(1) conjunct2 [OF interner_canonical [OF reach.new [OF s(1)] m]] show ?thesis by (intro exI conjI)
qed

text \<open>C13: \<open>Join\<close> terminates. For any two types of a reachable table, fuel above their nesting depth
  returns a type of the table, and the state it leaves is again reachable.\<close>
theorem Join_total:
  assumes "reach ok s" and "a \<in> set (byID s)" "b \<in> set (byID s)" and "tdepth a < n" "tdepth b < n"
  shows "\<exists>r s'. Join n a b s = Some (r, s') \<and> reach ok s' \<and> hc_ext s s' \<and> r \<in> set (byID s') \<and>
    tdepth r \<le> max (tdepth a) (tdepth b)"
proof -
  have i: "meet_inv (\<lambda>_ (_::unit). False) (\<lambda>_. True) s" by (rule reach_canonical [OF assms(1)])
  obtain r s' where "Join n a b s = Some (r, s')" "meet_total.good s r s'" "meet_total.upper a b r"
    by (rule meet_total.JspecD [OF meet_total.Join_Jspec meet_total.minvD(1) [OF i] assms(2-5)])
  moreover from this(1) have "reach ok s'" by (rule reach.call [OF assms(1) api.call_join [OF assms(2-5)]])
  ultimately show ?thesis by (auto simp: good_in_def upper_in_def)
qed

theorem Join_total_witness:
  "\<exists>s r s'. NewInterner = Some s \<and> Join 1 (in_int s) (in_none s) s = Some (r, s') \<and> reach (\<lambda>_. True) s'"
proof -
  obtain s where s: "NewInterner = Some s" "wf s" using NewInterner_wf by blast
  note m = singles(3,2) [OF s(2)] and l = singles(7,6) [OF s(2)] and f = single_facts [OF s(2)]
  have "tdepth (in_int s) < 1" "tdepth (in_none s) < 1" using f by simp_all
  from Join_total [OF reach.new [OF s(1)] m this] obtain r s' where
    "Join 1 (in_int s) (in_none s) s = Some (r, s')" "reach (\<lambda>_. True) s'" by metis
  with s(1) show ?thesis by (intro exI conjI)
qed

lemma Join_run:
  assumes "world_ok W" and "reach (linear_ok W) s" and "a \<in> set (byID s)" "b \<in> set (byID s)"
    and "tdepth a < n" "tdepth b < n"
  obtains r s' where "Join n a b s = Some (r, s')" "reach (linear_ok W) s'" "hc_ext s s'" "r \<in> set (byID s')"
    "tdepth r \<le> max (tdepth a) (tdepth b)"
    "plain a \<and> plain b \<longrightarrow> plain r \<and> (\<forall>x. has_type W a x \<or> has_type W b x \<longrightarrow> has_type W r x)"
proof -
  let ?le = "\<lambda>t u. \<forall>x. has_type W t x \<longrightarrow> has_type W u x"
  note sem = has_type_meet [OF assms(1)]
  have jo: "join_order ?le (linear_ok W)" by (rule meet_sem.axioms(1) [OF sem])
  have "join_inv ?le (linear_ok W) s"
    by (rule meet_sem.minvD(1) [OF sem meet_sem.reach_minv [OF sem assms(2)]])
  then obtain r s' where r: "Join n a b s = Some (r, s')" "good_in ?le (linear_ok W) s r s'" "upper_in ?le a b r"
    using join_order.Join_Jspec [OF jo, of n] assms(3-6) unfolding join_order.Jspec_def [OF jo] by blast
  have "reach (linear_ok W) s'" by (rule reach.call [OF assms(2) api.call_join [OF assms(3-6) r(1)]])
  with r show ?thesis by (intro that) (auto simp: good_in_def upper_in_def)
qed

lemma Meet_run:
  assumes "world_ok W" and "reach (linear_ok W) s" and "a \<in> set (byID s)" "b \<in> set (byID s)"
    and "tsize a + tsize b < n"
  obtains r s' where "Meet n a b s = Some (r, s')" "reach (linear_ok W) s'" "hc_ext s s'" "r \<in> set (byID s')"
    "plain a \<and> plain b \<longrightarrow> plain r \<and>
      (separable (has_type W) a b \<longrightarrow> (\<forall>x. has_type W a x \<and> has_type W b x \<longrightarrow> has_type W r x)) \<and>
      (tight a b \<longrightarrow> (\<forall>x. has_type W r x \<longrightarrow> has_type W a x \<and> has_type W b x))"
proof -
  note sem = has_type_meet [OF assms(1)]
  have "meet_inv (has_type W) (linear_ok W) s" by (rule meet_sem.reach_minv [OF sem assms(2)])
  then obtain r s' where r: "Meet n a b s = Some (r, s')" "met_in (has_type W) (linear_ok W) s r s'"
    "lower_in (has_type W) a b r"
    using meet_sem.Meet_Mspec [OF sem, of n] assms(3-5) unfolding meet_sem.Mspec_def [OF sem] by blast
  have "reach (linear_ok W) s'" by (rule reach.call [OF assms(2) api.call_meet [OF assms(3-5) r(1)]])
  with r show ?thesis by (intro that) (auto simp: met_in_def lower_in_def)
qed



text \<open>C15: \<open>Meet\<close> terminates: for any two types of a reachable table, fuel above the sum of their
  sizes returns a type of the table and leaves a reachable state.\<close>
theorem Meet_total:
  assumes "reach ok s" and "a \<in> set (byID s)" "b \<in> set (byID s)" and "tsize a + tsize b < n"
  shows "\<exists>r s'. Meet n a b s = Some (r, s') \<and> reach ok s' \<and> hc_ext s s' \<and> r \<in> set (byID s')"
proof -
  have i: "meet_inv (\<lambda>_ (_::unit). False) (\<lambda>_. True) s" by (rule reach_canonical [OF assms(1)])
  obtain r s' where "Meet n a b s = Some (r, s')" "meet_total.met s r s'"
    by (rule meet_total.MspecD [OF meet_total.Meet_Mspec i assms(2-4)])
  moreover from this(1) have "reach ok s'" by (rule reach.call [OF assms(1) api.call_meet [OF assms(2-4)]])
  ultimately show ?thesis by (auto simp: met_in_def)
qed

theorem Meet_total_witness:
  "\<exists>s r s'. NewInterner = Some s \<and> Meet 3 (in_int s) (in_none s) s = Some (r, s') \<and> reach (\<lambda>_. True) s'"
proof -
  obtain s where s: "NewInterner = Some s" "wf s" using NewInterner_wf by blast
  note m = singles(3,2) [OF s(2)] and l = singles(7,6) [OF s(2)] and f = single_facts [OF s(2)]
  have "tsize (in_int s) + tsize (in_none s) < 3" using f by simp
  from Meet_total [OF reach.new [OF s(1)] m this] obtain r s' where
    "Meet 3 (in_int s) (in_none s) s = Some (r, s')" "reach (\<lambda>_. True) s'" by metis
  with s(1) show ?thesis by (intro exI conjI)
qed

lemma optional_int:
  assumes new: "NewInterner = Some s"
  obtains u s' where "Optional (in_int s) s = Some (u, s')" "reach ok s'" "hc_ext s s'" "u \<in> set (byID s')"
    "kind u = KindUnion" "set (elems u) = {in_int s, in_none s}" "length (elems u) = 2" "refine u = 0" "plain u" "tsize u = 3"
proof -
  have wf: "wf s" using NewInterner_wf new by (metis option.inject)
  note m = singles(3,2) [OF wf] and l = singles(7,6) [OF wf] and f = single_facts [OF wf]
  have k: "kind (in_int s) = KindInt" "kind (in_none s) = KindNone" using l by (auto simp: like_def)
  then have ne: "in_int s \<noteq> in_none s" by auto
  let ?ms = "[in_int s, in_none s]"
  have kept: "undominated (dedupe ?ms) = ?ms"
    using k ne by (simp add: undominated_def dedupe_def isSubtype_def enumerate_eq_zip)
  let ?t = "Type KindUnion None (sortKeys ?ms) None False 0 0"
  have hc: "hc_wf s" using wf by (simp add: wf_def)
  obtain u s' where u: "intern ?t s = Some (u, s')" "hc_step s u s'" "like u ?t"
    using container_spec [OF hc, of "sortKeys ?ms" KindUnion False 0] m by auto
  have run: "Optional (in_int s) s = Some (u, s')"
    using u(1) kept k by (simp add: Optional_def makeUnion_def unionBudget_def)
  have el: "elems u = sortKeys ?ms" "kind u = KindUnion" "refine u = 0" using u(3) by (auto simp: like_def)
  have perm: "mset (elems u) = mset ?ms" using el(1) by (simp add: sortKeys_def)
  have set: "set (elems u) = {in_int s, in_none s}" using mset_eq_setD [OF perm] by simp
  have len: "length (elems u) = 2" using mset_eq_length [OF perm] by simp
  have "reach ok s'" by (rule reach.call [OF reach.new [OF new] api.call_optional [OF m(1) run]])
  moreover have "plain u" using plain_iff [of u] el set f l by (auto simp: like_def)
  moreover have "tsize u = Suc (sum_list (map tsize (elems u)))" by (cases u) simp
  then have "tsize u = 3" using f(5,6) arg_cong [OF perm, of "\<lambda>M. sum_mset (image_mset tsize M)"]
    by (simp flip: mset_map sum_mset_sum_list)
  ultimately show ?thesis using u(2) by (intro that [OF run _ _ _ el(2) set len el(3)]) (auto simp: hc_step_def)
qed

lemma optional_int_apart:
  assumes "wf s" "set (elems u) = {in_int s, in_none s}" "length (elems u) = 2" "kind u = KindUnion" "refine u = 0"
  shows "separable (has_type builtin_world) u (in_int s)" "tight u (in_int s)"
proof -
  note l = singles(7,6) [OF assms(1)]
  have "\<not> (''int'' = c \<and> ''NoneType'' = c)" for c by (rule notI, elim conjE, drule sym) simp
  then have "apart (has_type builtin_world) m (in_int s)" if "m \<in> {in_int s, in_none s}" for m
    using l that
    by (auto simp: apart_def like_def has_type_sel [of _ "base (in_int s)"] has_type_sel [of _ "base (in_none s)"]
        kind_sem_def inst_def builtin_world_def)
  then have "separable (has_type builtin_world) m (in_int s)" if "m \<in> {in_int s, in_none s}" for m
    using l that by (intro sep_apart) (auto simp: like_def)
  then show "separable (has_type builtin_world) u (in_int s)" using assms(2) by (intro sep_left [OF assms(4)]) blast
  have "tight m (in_int s)" if "m \<in> {in_int s, in_none s}" for m
    using l that by (intro tight_flat) (auto simp: like_def)
  then show "tight u (in_int s)"
    using l assms by (intro tight_left) (auto simp: like_def unionBudget_def)
qed



end
