(* ===== verification/Evidence.thy ===== *)
theory Evidence
  imports Lattice
begin

text \<open>
  \<^verbatim>\<open>pkg/types/evidence.go\<close>: the evidence chain behind an inferred type, the proof/claim distinction
  and the constructors.

  A chain is a finite tree; \<open>IsProof\<close> is shown to hold exactly when no annotation or stub entry
  can be reached from the root along support links that do not cross a guard.
\<close>

section \<open>Data\<close>

datatype evidence_kind =
    EvLiteral | EvConstructor | EvOperator | EvNarrow | EvInterproc | EvGuard | EvAnnotation | EvTypeshed

fun proofKinds :: "evidence_kind \<Rightarrow> bool" where
  "proofKinds EvLiteral = True"
| "proofKinds EvConstructor = True"
| "proofKinds EvOperator = True"
| "proofKinds EvNarrow = True"
| "proofKinds EvInterproc = True"
| "proofKinds EvGuard = True"
| "proofKinds _ = False"

record span =
  File :: string
  Line :: int
  Col :: int

definition span_IsZero :: "span \<Rightarrow> bool" where
  "span_IsZero s \<longleftrightarrow> File s = [] \<and> Line s = 0 \<and> Col s = 0"

definition span_String :: "span \<Rightarrow> string" where
  "span_String s =
     (if span_IsZero s then ''<none>''
      else File s @ '':'' @ itoa (Line s) @ '':'' @ itoa (Col s))"

datatype evidence =
  Evidence (ev_kind: evidence_kind) (ev_type: ty) (ev_span: span) (ev_note: string) (Supports: "evidence list")

section \<open>Proofs and claims\<close>

primrec IsProof :: "evidence \<Rightarrow> bool" where
  "IsProof (Evidence k t s n ss) \<longleftrightarrow>
     (if \<not> proofKinds k then False
      else if k = EvGuard then True
      else list_all (\<lambda>b. b) (map IsProof ss))"

definition IsClaim :: "evidence \<Rightarrow> bool" where
  "IsClaim e \<longleftrightarrow> \<not> IsProof e"

fun evidence_kind_String :: "evidence_kind \<Rightarrow> string" where
  "evidence_kind_String EvLiteral = ''literal''"
| "evidence_kind_String EvConstructor = ''constructor''"
| "evidence_kind_String EvOperator = ''operator''"
| "evidence_kind_String EvNarrow = ''narrow''"
| "evidence_kind_String EvInterproc = ''interproc''"
| "evidence_kind_String EvGuard = ''guard''"
| "evidence_kind_String EvAnnotation = ''annotation''"
| "evidence_kind_String EvTypeshed = ''typeshed''"

section \<open>Constructors\<close>

definition Literal :: "ty \<Rightarrow> span \<Rightarrow> evidence" where
  "Literal t sp = Evidence EvLiteral t sp [] []"

definition FromConstructor :: "ty \<Rightarrow> span \<Rightarrow> string \<Rightarrow> evidence" where
  "FromConstructor t sp note = Evidence EvConstructor t sp note []"

definition FromOperator :: "ty \<Rightarrow> span \<Rightarrow> evidence list \<Rightarrow> evidence" where
  "FromOperator t sp operands = Evidence EvOperator t sp [] operands"

definition Narrowed :: "ty \<Rightarrow> span \<Rightarrow> evidence option \<Rightarrow> evidence" where
  "Narrowed t sp from =
     (case from of
        None \<Rightarrow> Evidence EvNarrow t sp [] []
      | Some e \<Rightarrow> Evidence EvNarrow t sp [] [e])"

definition Propagated :: "ty \<Rightarrow> span \<Rightarrow> evidence list \<Rightarrow> evidence" where
  "Propagated t sp from = Evidence EvInterproc t sp [] from"

definition Annotated :: "ty \<Rightarrow> span \<Rightarrow> evidence" where
  "Annotated t sp = Evidence EvAnnotation t sp [] []"

definition FromTypeshed :: "ty \<Rightarrow> span \<Rightarrow> string \<Rightarrow> evidence" where
  "FromTypeshed t sp note = Evidence EvTypeshed t sp note []"

definition Guarded :: "evidence \<Rightarrow> span \<Rightarrow> evidence" where
  "Guarded claim sp = Evidence EvGuard (ev_type claim) sp [] [claim]"

lemmas evidence_ctor_defs = Literal_def FromConstructor_def FromOperator_def Narrowed_def Propagated_def
  Annotated_def FromTypeshed_def Guarded_def

section \<open>What a proof rests on\<close>

text \<open>\<open>rests_on_unguarded e d\<close>: \<open>d\<close> is \<open>e\<close> or is reached from \<open>e\<close> along support links none of which leaves a guard. A
  guard also rests on the claim it upgraded; that link is the one left out here.\<close>

inductive rests_on_unguarded :: "evidence \<Rightarrow> evidence \<Rightarrow> bool" where
  here: "rests_on_unguarded e e"
| link: "ev_kind e \<noteq> EvGuard \<Longrightarrow> s \<in> set (Supports e) \<Longrightarrow> rests_on_unguarded s d \<Longrightarrow> rests_on_unguarded e d"

lemma IsProof_iff:
  "IsProof e \<longleftrightarrow> proofKinds (ev_kind e) \<and> (ev_kind e = EvGuard \<or> (\<forall>s\<in>set (Supports e). IsProof s))"
  by (cases e) (auto simp: list_all_iff)

lemma IsProof_rests: "rests_on_unguarded e d \<Longrightarrow> IsProof e \<Longrightarrow> proofKinds (ev_kind d)"
proof (induction rule: rests_on_unguarded.induct)
  case (here e)
  then show ?case using IsProof_iff [of e] by blast
next
  case (link e s d)
  then show ?case using IsProof_iff [of e] by blast
qed

lemma IsProof_complete: "(\<And>d. rests_on_unguarded e d \<Longrightarrow> proofKinds (ev_kind d)) \<Longrightarrow> IsProof e"
proof (induction e)
  case (Evidence k t s n ss)
  let ?e = "Evidence k t s n ss"
  have "proofKinds k" using Evidence.prems [OF here] by simp
  moreover have "IsProof d" if "d \<in> set ss" "k \<noteq> EvGuard" for d
    using Evidence.IH [OF that(1)] Evidence.prems link [of ?e d] that by auto
  ultimately show ?case by (auto simp: list_all_iff)
qed

text \<open>C16: a fact is a proof exactly when no user annotation and no typeshed entry is reachable from
  it without crossing a guard: a single unguarded claim makes the fact a claim, and a guard
  discharges the claims it rests on.\<close>
theorem IsProof_no_claim:
  "IsProof e \<longleftrightarrow> \<not> (\<exists>d. rests_on_unguarded e d \<and> ev_kind d \<in> {EvAnnotation, EvTypeshed})"
proof -
  have "\<not> proofKinds k \<longleftrightarrow> k \<in> {EvAnnotation, EvTypeshed}" for k by (cases k) auto
  then show ?thesis using IsProof_rests [of e] IsProof_complete [of e] by blast
qed

end
