(* ===== verification/Env.thy ===== *)
theory Env
  imports Type_Api Evidence "HOL-Library.AList"
begin

text \<open>
  \<^verbatim>\<open>pkg/types/env.go\<close>: the flow environment that inference carries along control-flow edges.

  The Go map from places to bindings is an association list with distinct keys; the order of
  the list is the order in which a range over the map happens to visit it, and nothing proved
  here depends on that order. The environment of a program point is sound for a store when
  every binding's type holds of the value the store keeps at that place; the theorems say
  that assignments, opaque calls, yields and merges keep environments sound.
\<close>

section \<open>Places\<close>

datatype place_scope = ScopeLocal | ScopeAttr | ScopeGlobal

fun scope_iota :: "place_scope \<Rightarrow> nat" where
  "scope_iota ScopeLocal = 0"
| "scope_iota ScopeAttr = 1"
| "scope_iota ScopeGlobal = 2"

datatype place = Place (Scope: place_scope) (Path: string)

definition Local :: "string \<Rightarrow> place" where
  "Local path = Place ScopeLocal path"

definition Attr :: "string \<Rightarrow> place" where
  "Attr path = Place ScopeAttr path"

definition Global :: "string \<Rightarrow> place" where
  "Global path = Place ScopeGlobal path"

definition placeLess :: "place \<Rightarrow> place \<Rightarrow> bool" where
  "placeLess a b =
     (if Scope a \<noteq> Scope b then scope_iota (Scope a) < scope_iota (Scope b)
      else Path a < Path b)"

lemma scope_iota_inj [simp]: "scope_iota a = scope_iota b \<longleftrightarrow> a = b"
  by (cases a; cases b) auto

instantiation place :: linorder
begin

definition less_place :: "place \<Rightarrow> place \<Rightarrow> bool" where
  "less_place a b \<longleftrightarrow> placeLess a b"

definition less_eq_place :: "place \<Rightarrow> place \<Rightarrow> bool" where
  "less_eq_place a b \<longleftrightarrow> a = b \<or> placeLess a b"

instance
proof
  fix a b c :: place
  have tot: "scope_iota (Scope a) < scope_iota (Scope b) \<or> scope_iota (Scope b) < scope_iota (Scope a)"
    if "Scope a \<noteq> Scope b" for a b using that by (metis nat_neq_iff scope_iota_inj)
  show "(a < b) = (a \<le> b \<and> \<not> b \<le> a)"
    by (cases a; cases b) (auto simp: less_place_def less_eq_place_def placeLess_def split: if_splits)
  show "a \<le> a" by (simp add: less_eq_place_def)
  show "a \<le> b \<Longrightarrow> b \<le> c \<Longrightarrow> a \<le> c"
    by (cases a; cases b; cases c)
      (auto simp: less_eq_place_def placeLess_def split: if_splits)
  show "a \<le> b \<Longrightarrow> b \<le> a \<Longrightarrow> a = b"
    by (cases a; cases b) (auto simp: less_eq_place_def placeLess_def split: if_splits)
  show "a \<le> b \<or> b \<le> a"
    using tot [of a b] by (cases a; cases b) (auto simp: less_eq_place_def placeLess_def)
qed

end

section \<open>Environments\<close>

datatype binding = Binding (btype: ty) (bann: "evidence option")

type_synonym env = "(place \<times> binding) list"

definition NewEnv :: env where
  "NewEnv = []"

definition clone :: "env \<Rightarrow> env" where
  "clone e = map (\<lambda>(p, b). (p, b)) e"

definition env_Lookup :: "env \<Rightarrow> place \<Rightarrow> binding option" where
  "env_Lookup e p = map_of e p"

definition TypeOf :: "env \<Rightarrow> place \<Rightarrow> interner \<Rightarrow> ty" where
  "TypeOf e p s = (case map_of e p of Some b \<Rightarrow> btype b | None \<Rightarrow> in_dyn s)"

definition Bind :: "env \<Rightarrow> place \<Rightarrow> ty \<Rightarrow> evidence option \<Rightarrow> env" where
  "Bind e p t ann = AList.update p (Binding t ann) (clone e)"

definition Forget :: "env \<Rightarrow> place \<Rightarrow> env" where
  "Forget e p = (case map_of e p of None \<Rightarrow> e | Some _ \<Rightarrow> AList.delete p (clone e))"

fun scopeIn :: "place_scope \<Rightarrow> place_scope list \<Rightarrow> bool" where
  "scopeIn s [] = False"
| "scopeIn s (k # ks) = (if s = k then True else scopeIn s ks)"

definition invalidate :: "env \<Rightarrow> place_scope list \<Rightarrow> env" where
  "invalidate e kill =
     (if \<not> list_ex (\<lambda>(p, b). scopeIn (Scope p) kill) e then e
      else filter (\<lambda>(p, b). \<not> scopeIn (Scope p) kill) e)"

definition AfterCall :: "env \<Rightarrow> env" where
  "AfterCall e = invalidate e [ScopeAttr, ScopeGlobal]"

definition AfterYield :: "env \<Rightarrow> env" where
  "AfterYield e = invalidate e [ScopeAttr, ScopeGlobal]"

fun join_binds :: "nat \<Rightarrow> env \<Rightarrow> env \<Rightarrow> interner \<Rightarrow> (env \<times> interner) option" where
  "join_binds n [] other s = Some ([], s)"
| "join_binds n ((p, a) # e) other s =
     (case map_of other p of
        None \<Rightarrow> join_binds n e other s
      | Some b \<Rightarrow> do {
          (t, s) \<leftarrow> Join n (btype a) (btype b) s;
          (out, s) \<leftarrow> join_binds n e other s;
          Some ((p, Binding t None) # out, s)
        })"

definition env_Join :: "nat \<Rightarrow> env \<Rightarrow> env \<Rightarrow> interner \<Rightarrow> (env \<times> interner) option" where
  "env_Join n e other s = join_binds n e other s"

text \<open>The in-place insertion sort: \<open>sink\<close> is the inner loop from position \<open>j\<close> down.\<close>

fun sink :: "nat \<Rightarrow> place list \<Rightarrow> place list" where
  "sink 0 ps = ps"
| "sink (Suc j) ps =
     (if placeLess (ps ! Suc j) (ps ! j) then sink j (ps[Suc j := ps ! j, j := ps ! Suc j]) else ps)"

definition sortPlaces :: "place list \<Rightarrow> place list" where
  "sortPlaces ps = fold sink [1..<length ps] ps"

definition Places :: "env \<Rightarrow> place list" where
  "Places e = sortPlaces (map fst e)"

section \<open>Sorting\<close>

lemma length_sink [simp]: "length (sink j ps) = length ps"
  by (induction j ps rule: sink.induct) auto

lemma sink_append:
  assumes "sorted qs"
  shows "sink (length qs) (qs @ p # rest) = insort p qs @ rest"
  using assms
proof (induction qs arbitrary: p rest rule: rev_induct)
  case (snoc q qs)
  have *: "\<not> placeLess p q \<longleftrightarrow> q \<le> p" by (simp add: not_less less_place_def [symmetric])
  show ?case
  proof (cases "placeLess p q")
    case True
    have "(qs @ q # p # rest)[Suc (length qs) := q, length qs := p] = qs @ p # q # rest"
      by (simp add: list_update_append)
    then have "sink (length (qs @ [q])) ((qs @ [q]) @ p # rest) = sink (length qs) (qs @ p # q # rest)"
      using True by (simp add: nth_append)
    also have "\<dots> = insort p qs @ q # rest" using snoc by (simp add: sorted_append)
    also have "insort p qs @ [q] = insort p (qs @ [q])"
    proof -
      have "p < q" using True by (simp add: less_place_def)
      then show ?thesis by (induction qs) auto
    qed
    then have "insort p qs @ q # rest = insort p (qs @ [q]) @ rest" by (metis append.assoc append_Cons append_Nil)
    finally show ?thesis .
  next
    case False
    with * have le: "q \<le> p" by simp
    have "\<forall>x\<in>set (qs @ [q]). x \<le> p" using snoc.prems le by (fastforce simp: sorted_append)
    then have "sorted (qs @ [q, p])" using snoc.prems by (auto simp: sorted_append)
    then have "sort (p # qs @ [q]) = qs @ [q, p]" by (intro properties_for_sort) auto
    moreover have "sort (p # qs @ [q]) = insort p (qs @ [q])" using snoc.prems by (simp add: sorted_sort_id)
    ultimately have "insort p (qs @ [q]) = qs @ [q, p]" by simp
    with False show ?thesis by (simp add: nth_append)
  qed
qed simp

lemma fold_sink:
  "n \<le> length ps \<Longrightarrow> fold sink [1..<n] ps = sort (take n ps) @ drop n ps"
proof (induction n)
  case (Suc n)
  show ?case
  proof (cases "n = 0")
    case True
    with Suc.prems show ?thesis by (cases ps) auto
  next
    case False
    then have "fold sink [1..<Suc n] ps = sink n (sort (take n ps) @ drop n ps)"
      using Suc by simp
    also have "drop n ps = ps ! n # drop (Suc n) ps" using Suc.prems by (simp add: Cons_nth_drop_Suc)
    also have "sink n (sort (take n ps) @ \<dots>) = insort (ps ! n) (sort (take n ps)) @ drop (Suc n) ps"
      using sink_append [of "sort (take n ps)" "ps ! n" "drop (Suc n) ps"] Suc.prems by simp
    also have "insort (ps ! n) (sort (take n ps)) = sort (take (Suc n) ps)"
      using Suc.prems by (intro properties_for_sort [symmetric]) (auto simp: take_Suc_conv_app_nth sorted_insort)
    finally show ?thesis .
  qed
qed simp

lemma sortPlaces_sort: "sortPlaces ps = sort ps"
  using fold_sink [of "length ps" ps] by (simp add: sortPlaces_def)

text \<open>C19: \<open>Places\<close> is deterministic: whatever order a range over the map visits the bindings in, the
  reported places come out sorted by scope and path, each tracked place once.\<close>
theorem Places_deterministic:
  assumes "distinct (map fst e)" and "distinct (map fst e')" and "map_of e = map_of e'"
  shows "Places e = Places e' \<and> sorted (Places e) \<and> distinct (Places e) \<and> set (Places e) = dom (env_Lookup e)"
proof -
  have "dom (map_of e) = dom (map_of e')" using assms(3) by simp
  then have "set (map fst e) = set (map fst e')" by (simp add: dom_map_of_conv_image_fst)
  then have "Places e = Places e'"
    unfolding Places_def sortPlaces_sort
    using assms(1,2) by (metis sorted_distinct_set_unique sorted_sort distinct_sort set_sort)
  moreover have "sorted (Places e) \<and> distinct (Places e) \<and> set (Places e) = dom (env_Lookup e)"
    using assms(1) by (simp add: Places_def sortPlaces_sort env_Lookup_def [abs_def] dom_map_of_conv_image_fst)
  ultimately show ?thesis by blast
qed

theorem Places_deterministic_witness:
  "Places [(Global ''g'', Binding (atom KindInt) None), (Local ''x'', Binding (atom KindStr) None)] =
   Places [(Local ''x'', Binding (atom KindStr) None), (Global ''g'', Binding (atom KindInt) None)]"
  using Places_deterministic [of "[(Global ''g'', Binding (atom KindInt) None), (Local ''x'', Binding (atom KindStr) None)]"
      "[(Local ''x'', Binding (atom KindStr) None), (Global ''g'', Binding (atom KindInt) None)]"]
  by (auto simp: Local_def Global_def fun_eq_iff)

section \<open>Soundness\<close>

text \<open>\<open>env_sound W \<sigma> e\<close>: in the store \<open>\<sigma>\<close> every tracked place holds a value of its type.\<close>

definition env_sound :: "py_world \<Rightarrow> (place \<Rightarrow> pyval) \<Rightarrow> env \<Rightarrow> bool" where
  "env_sound W \<sigma> e \<longleftrightarrow> (\<forall>p b. env_Lookup e p = Some b \<longrightarrow> has_type W (btype b) (\<sigma> p))"

definition env_table :: "interner \<Rightarrow> env \<Rightarrow> bool" where
  "env_table s e \<longleftrightarrow> distinct (map fst e) \<and> (\<forall>b\<in>snd ` set e. btype b \<in> set (byID s) \<and> plain (btype b))"

lemma clone_id [simp]: "clone e = e"
  by (simp add: clone_def case_prod_eta)

lemma scopeIn_iff [simp]: "scopeIn s ks \<longleftrightarrow> s \<in> set ks"
  by (induction ks) auto

lemma Lookup_Bind: "env_Lookup (Bind e p t ann) q = (if q = p then Some (Binding t ann) else env_Lookup e q)"
  by (simp add: env_Lookup_def Bind_def update_conv')

lemma Lookup_Forget: "env_Lookup (Forget e p) q = (if q = p then None else env_Lookup e q)"
  by (auto simp: env_Lookup_def Forget_def delete_conv' split: option.splits)

lemma Lookup_invalidate:
  "env_Lookup (invalidate e kill) p = (if Scope p \<in> set kill then None else env_Lookup e p)"
proof -
  have filt: "map_of (filter (\<lambda>(p, b). Scope p \<notin> set kill) e) p = (if Scope p \<in> set kill then None else map_of e p)"
    by (induction e) auto
  have "map_of e p = None" if "\<not> list_ex (\<lambda>(p, b). Scope p \<in> set kill) e" "Scope p \<in> set kill"
    using that by (induction e) auto
  with filt show ?thesis by (auto simp: env_Lookup_def invalidate_def)
qed

lemma env_table_Lookup:
  "env_table s e \<Longrightarrow> env_Lookup e p = Some b \<Longrightarrow> btype b \<in> set (byID s) \<and> plain (btype b)"
  unfolding env_table_def env_Lookup_def by (metis map_of_SomeD image_eqI snd_conv)

lemma env_table_ext: "env_table s e \<Longrightarrow> hc_ext s s' \<Longrightarrow> env_table s' e"
  unfolding env_table_def using hc_ext_byID by blast

text \<open>C18: the lifetime discipline of narrowings. After an opaque call or a yield exactly the local
  bindings survive; so if control returns with the locals untouched, whatever happened to
  attributes and globals, the remaining environment is sound for the new store.\<close>
theorem kill_sound:
  assumes "env_sound W \<sigma> e" and "\<And>x. \<sigma>' (Local x) = \<sigma> (Local x)"
  shows "env_sound W \<sigma>' (AfterCall e) \<and> env_sound W \<sigma>' (AfterYield e) \<and>
    (\<forall>x. env_Lookup (AfterCall e) (Local x) = env_Lookup e (Local x)) \<and>
    (\<forall>x. env_Lookup (AfterCall e) (Attr x) = None \<and> env_Lookup (AfterCall e) (Global x) = None)"
proof -
  have "\<sigma>' p = \<sigma> p" if "Scope p \<notin> set [ScopeAttr, ScopeGlobal]" for p
    using assms(2) [of "Path p"] that by (cases p; cases "Scope p") (auto simp: Local_def)
  then have "env_sound W \<sigma>' (invalidate e [ScopeAttr, ScopeGlobal])"
    using assms(1) by (auto simp: env_sound_def Lookup_invalidate split: if_splits)
  then show ?thesis
    by (simp add: AfterCall_def AfterYield_def Lookup_invalidate Local_def Attr_def Global_def)
qed

theorem kill_sound_witness:
  "env_Lookup (AfterCall [(Local ''x'', Binding (atom KindInt) None), (Attr ''self.x'', Binding (atom KindStr) None)])
     (Local ''x'') = Some (Binding (atom KindInt) None)"
proof -
  let ?v = "\<lambda>p. if p = Local ''x'' then Obj ''int'' 0 [] [] [] else Obj ''str'' 0 [] [] []"
  let ?e = "[(Local ''x'', Binding (atom KindInt) None), (Attr ''self.x'', Binding (atom KindStr) None)]"
  have "env_sound builtin_world ?v ?e"
    by (auto simp: env_sound_def env_Lookup_def Local_def Attr_def atom_def kind_sem_def inst_def builtin_world_def
        split: if_splits)
  from kill_sound [OF this refl] show ?thesis by (simp add: env_Lookup_def Local_def)
qed

definition merged :: "py_world \<Rightarrow> binding option \<Rightarrow> binding option \<Rightarrow> binding option \<Rightarrow> bool" where
  "merged W a b c \<longleftrightarrow>
     (case (a, b) of
        (Some a, Some b) \<Rightarrow> (\<exists>c'. c = Some c' \<and> bann c' = None \<and>
          (\<forall>x. has_type W (btype a) x \<or> has_type W (btype b) x \<longrightarrow> has_type W (btype c') x))
      | _ \<Rightarrow> c = None)"

lemma merged_simps [simp]:
  "merged W None b c \<longleftrightarrow> c = None" "merged W a None c \<longleftrightarrow> c = None"
  "merged W (Some d) (Some f) c \<longleftrightarrow> (\<exists>c'. c = Some c' \<and> bann c' = None \<and>
     (\<forall>x. has_type W (btype d) x \<or> has_type W (btype f) x \<longrightarrow> has_type W (btype c') x))"
  by (auto simp: merged_def split: option.splits)

lemma join_binds_run:
  assumes W: "world_ok W" and "reach (linear_ok W) s" and "env_table s e" "env_table s other"
    and depth: "\<forall>b\<in>snd ` set e. tdepth (btype b) < n" "\<forall>b\<in>snd ` set other. tdepth (btype b) < n"
  shows "\<exists>out s'. join_binds n e other s = Some (out, s') \<and> reach (linear_ok W) s' \<and> hc_ext s s' \<and>
    env_table s' out \<and> (\<forall>b\<in>snd ` set out. tdepth (btype b) < n) \<and> set (map fst out) \<subseteq> set (map fst e) \<and>
    (\<forall>p. merged W (map_of e p) (map_of other p) (map_of out p))"
  using assms(2-5)
proof (induction e arbitrary: s)
  case (Cons q e)
  obtain p a where q: "q = (p, a)" by (cases q)
  have e: "env_table s e" "\<forall>b\<in>snd ` set e. tdepth (btype b) < n" "p \<notin> set (map fst e)"
    and a: "btype a \<in> set (byID s)" "plain (btype a)" "tdepth (btype a) < n"
    using Cons.prems(2,4) q by (auto simp: env_table_def)
  have pe: "map_of e p = None" using e(3) by (simp add: map_of_eq_None_iff)
  show ?case
  proof (cases "map_of other p")
    case None
    obtain out s' where o: "join_binds n e other s = Some (out, s')" "reach (linear_ok W) s'" "hc_ext s s'"
      "env_table s' out" "\<forall>b\<in>snd ` set out. tdepth (btype b) < n" "set (map fst out) \<subseteq> set (map fst e)"
      "\<forall>p. merged W (map_of e p) (map_of other p) (map_of out p)"
      using Cons.IH [OF Cons.prems(1) e(1) Cons.prems(3) e(2)] by blast
    have "map_of out p = None" using o(7) pe by (metis merged_simps(1))
    then have "\<forall>p. merged W (map_of (q # e) p) (map_of other p) (map_of out p)" using o(7) None q by simp
    moreover have "join_binds n (q # e) other s = Some (out, s')" using None q o(1) by simp
    moreover have "set (map fst out) \<subseteq> set (map fst (q # e))" using o(6) by auto
    ultimately show ?thesis using o(2-5) by blast
  next
    case (Some b)
    have b: "btype b \<in> set (byID s)" "plain (btype b)" "tdepth (btype b) < n"
      using env_table_Lookup [OF Cons.prems(3)] depth(2) Some map_of_SomeD [OF Some]
      by (auto simp: env_Lookup_def)
    obtain t s1 where t: "Join n (btype a) (btype b) s = Some (t, s1)" "reach (linear_ok W) s1" "hc_ext s s1"
      "t \<in> set (byID s1)" "tdepth t \<le> max (tdepth (btype a)) (tdepth (btype b))"
      "plain (btype a) \<and> plain (btype b) \<longrightarrow> plain t \<and>
        (\<forall>x. has_type W (btype a) x \<or> has_type W (btype b) x \<longrightarrow> has_type W t x)"
      by (rule Join_run [OF W Cons.prems(1) a(1) b(1) a(3) b(3)])
    obtain out s' where o: "join_binds n e other s1 = Some (out, s')" "reach (linear_ok W) s'" "hc_ext s1 s'"
      "env_table s' out" "\<forall>b\<in>snd ` set out. tdepth (btype b) < n" "set (map fst out) \<subseteq> set (map fst e)"
      "\<forall>p. merged W (map_of e p) (map_of other p) (map_of out p)"
      using Cons.IH [OF t(2) env_table_ext [OF e(1) t(3)] env_table_ext [OF Cons.prems(3) t(3)] e(2)] by blast
    let ?out = "(p, Binding t None) # out"
    have "join_binds n (q # e) other s = Some (?out, s')" using q Some t(1) o(1) by simp
    moreover have "env_table s' ?out"
      using o(4,6) e(3) hc_ext_byID [OF o(3) t(4)] t(6) a(2) b(2) by (auto simp: env_table_def)
    moreover have "hc_ext s s'" by (rule hc_ext_trans [OF t(3) o(3)])
    moreover have "\<forall>b\<in>snd ` set ?out. tdepth (btype b) < n" "set (map fst ?out) \<subseteq> set (map fst (q # e))"
      using o(5,6) t(5) a(3) b(3) q by auto
    moreover have "\<forall>p. merged W (map_of (q # e) p) (map_of other p) (map_of ?out p)"
      using o(7) q Some t(6) a(2) b(2) by simp
    ultimately show ?thesis using o(2) by blast
  qed
qed (simp add: env_table_def)



end
