(* ===== verification/Narrow.thy ===== *)
theory Narrow
  imports Env
begin

text \<open>
  \<^verbatim>\<open>pkg/types/narrow.go\<close>: flow-sensitive narrowing of an environment by a branch condition.

  The Go interface \<open>Predicate\<close> and its five implementations are one datatype; \<open>edges\<close> and \<open>place\<close> are
  its methods. A predicate is read as a test on the value at its place, and \<open>Narrow\<close> is shown
  to give sound environments on both edges.
\<close>

section \<open>Predicates\<close>

datatype predicate =
    IsInstance place ty
  | IsNone place
  | Truthy place
  | TypeIs place ty
  | Not predicate

primrec pred_place :: "predicate \<Rightarrow> place" where
  "pred_place (IsInstance p c) = p"
| "pred_place (IsNone p) = p"
| "pred_place (Truthy p) = p"
| "pred_place (TypeIs p c) = p"
| "pred_place (Not q) = pred_place q"

definition Subtract :: "ty \<Rightarrow> ty \<Rightarrow> ty run" where
  "Subtract t other s =
     (if kind t = KindDyn \<or> kind t = KindNever then Some (t, s)
      else if kind t = KindUnion then
        let kept = filter (\<lambda>m. \<not> isSubtype m other) (elems t)
        in if length kept = length (elems t) then Some (t, s) else makeUnion kept s
      else if isSubtype t other then Some (in_never s, s)
      else Some (t, s))"

primrec edges :: "nat \<Rightarrow> predicate \<Rightarrow> ty \<Rightarrow> (ty \<times> ty) run" where
  "edges n (IsInstance p c) cur s = do {
     (t, s) \<leftarrow> Meet n cur c s;
     (f, s) \<leftarrow> Subtract cur c s;
     Some ((t, f), s)
   }"
| "edges n (IsNone p) cur s = do {
     (t, s) \<leftarrow> Meet n cur (in_none s) s;
     (f, s) \<leftarrow> Subtract cur (in_none s) s;
     Some ((t, f), s)
   }"
| "edges n (Truthy p) cur s = do {
     (t, s) \<leftarrow> Subtract cur (in_none s) s;
     Some ((t, cur), s)
   }"
| "edges n (TypeIs p c) cur s = do {
     (t, s) \<leftarrow> Meet n cur c s;
     (t, s) \<leftarrow> WithRefine t RefineExactType s;
     Some ((t, cur), s)
   }"
| "edges n (Not q) cur s = do {
     ((t, f), s) \<leftarrow> edges n q cur s;
     Some ((f, t), s)
   }"

definition Narrow :: "nat \<Rightarrow> env \<Rightarrow> predicate \<Rightarrow> span \<Rightarrow> (env \<times> env) run" where
  "Narrow n env pred sp s = do {
     let p = pred_place pred;
     let cur = TypeOf env p s;
     ((t, f), s) \<leftarrow> edges n pred cur s;
     let prior = (case env_Lookup env p of Some b \<Rightarrow> bann b | None \<Rightarrow> None);
     let truthy = Bind env p t (Some (Narrowed t sp prior));
     let falsy = Bind env p f (Some (Narrowed f sp prior));
     Some ((truthy, falsy), s)
   }"

definition Assert :: "nat \<Rightarrow> env \<Rightarrow> predicate \<Rightarrow> span \<Rightarrow> env run" where
  "Assert n env pred sp s = do {
     ((truthy, _), s) \<leftarrow> Narrow n env pred sp s;
     Some (truthy, s)
   }"

section \<open>Subtraction\<close>

lemma Subtract_run:
  assumes W: "world_ok W" and s: "reach (linear_ok W) s" and t: "t \<in> set (byID s)" and other: "unref other"
  obtains r s' where "Subtract t other s = Some (r, s')" "reach (linear_ok W) s'" "hc_ext s s'" "r \<in> set (byID s')"
    "plain t \<longrightarrow> plain r \<and> (\<forall>x. has_type W t x \<and> \<not> has_type W other x \<longrightarrow> has_type W r x)"
proof -
  note sem = has_type_meet [OF W]
  note inv = meet_sem.reach_minv [OF sem s]
  note jinv = meet_sem.minvD(1) [OF sem inv] and wf = meet_sem.minvD(2) [OF sem inv]
  have jo: "join_order (\<lambda>t u. \<forall>x. has_type W t x \<longrightarrow> has_type W u x) (linear_ok W)" by (rule meet_sem.axioms(1) [OF sem])
  have sub: "has_type W other x" if "isSubtype m other" "m \<in> set (byID s)" "has_type W m x" for m x
    using belowD [OF subtype_below [OF W that(1) hc_wfD(3) [OF wf that(2)] other] that(3)]
      join_order.table_class(1) [OF jo jinv that(2)] by blast
  let ?kept = "filter (\<lambda>m. \<not> isSubtype m other) (elems t)"
  consider (same) "kind t = KindDyn \<or> kind t = KindNever \<or> kind t = KindUnion \<and> length ?kept = length (elems t) \<or>
      kind t \<noteq> KindUnion \<and> \<not> isSubtype t other"
    | (none) "\<not> (kind t = KindDyn \<or> kind t = KindNever)" "kind t \<noteq> KindUnion" "isSubtype t other"
    | (union) "kind t = KindUnion" "length ?kept \<noteq> length (elems t)" by blast
  then show ?thesis
  proof cases
    case same
    then have "Subtract t other s = Some (t, s)" by (auto simp: Subtract_def Let_def)
    then show ?thesis by (rule that) (use s t in auto)
  next
    case none
    then have "Subtract t other s = Some (in_never s, s)" by (auto simp: Subtract_def)
    then show ?thesis
      by (rule that) (use s sub [OF none(3) t] meet_sem.never_good [OF sem inv] in \<open>auto simp: met_in_def\<close>)
  next
    case union
    have el: "set ?kept \<subseteq> set (byID s)" using elems_in_table [OF wf t] by auto
    obtain r s' where r: "makeUnion ?kept s = Some (r, s')" "good_in (\<lambda>t u. \<forall>x. has_type W t x \<longrightarrow> has_type W u x) (linear_ok W) s r s'"
      "(\<forall>m\<in>set ?kept. join_order.member_ok m) \<longrightarrow> plain r \<and> unref r \<and> (\<forall>m\<in>set ?kept. \<forall>x. has_type W m x \<longrightarrow> has_type W r x)"
      by (rule meet_sem.makeUnion_run [OF sem inv el])
    have run: "Subtract t other s = Some (r, s')" using union r(1) by (auto simp: Subtract_def Let_def)
    have "reach (linear_ok W) s'"
      by (rule reach.call [OF s api.call_union [OF el]]) (simp add: Union_def r(1))
    moreover have "plain t \<longrightarrow> plain r \<and> (\<forall>x. has_type W t x \<and> \<not> has_type W other x \<longrightarrow> has_type W r x)"
    proof
      assume p: "plain t"
      then have "\<forall>m\<in>set ?kept. join_order.member_ok m"
        using plainD [OF p] union(1) by (auto simp: join_order.member_ok_def [OF jo])
      note R = mp [OF r(3) this]
      have "has_type W r x" if x: "has_type W t x" "\<not> has_type W other x" for x
      proof -
        obtain m where "m \<in> set (elems t)" "has_type W m x" using x(1) has_type_union [OF union(1)] by blast
        then show ?thesis using sub x(2) R elems_in_table [OF wf t] by auto
      qed
      with R show "plain r \<and> (\<forall>x. has_type W t x \<and> \<not> has_type W other x \<longrightarrow> has_type W r x)" by blast
    qed
    ultimately show ?thesis using r(2) by (intro that [OF run]) (auto simp: good_in_def)
  qed
qed

section \<open>Narrowing\<close>

text \<open>\<open>holds W truth q x\<close>: the outcome of the test on the value \<open>x\<close>; \<open>truth\<close> is Python truthiness. \<open>type_name\<close> is the
  class a \<open>type(x) is C\<close> test compares with.\<close>

definition type_name :: "ty \<Rightarrow> string" where
  "type_name c = (if kind c = KindClass then cname (the (tclass c)) else builtinClassName (kind c))"

primrec holds :: "py_world \<Rightarrow> (pyval \<Rightarrow> bool) \<Rightarrow> predicate \<Rightarrow> pyval \<Rightarrow> bool" where
  "holds W truth (IsInstance p c) x \<longleftrightarrow> has_type W c x"
| "holds W truth (IsNone p) x \<longleftrightarrow> inst W ''NoneType'' x"
| "holds W truth (Truthy p) x \<longleftrightarrow> truth x"
| "holds W truth (TypeIs p c) x \<longleftrightarrow> has_type W c x \<and> vcls x = type_name c"
| "holds W truth (Not q) x \<longleftrightarrow> \<not> holds W truth q x"

text \<open>\<open>pred_ok\<close>: the tests the theorem covers. The tested class is an unrefined table type separable from
  the current type; for an exact-type test a class that results from the meet is the tested
  one.\<close>

definition class_ok :: "py_world \<Rightarrow> nat \<Rightarrow> interner \<Rightarrow> ty \<Rightarrow> ty \<Rightarrow> bool" where
  "class_ok W n s cur c \<longleftrightarrow> c \<in> set (byID s) \<and> plain c \<and> unref c \<and> separable (has_type W) cur c \<and> tsize cur + tsize c < n"

primrec pred_ok :: "py_world \<Rightarrow> nat \<Rightarrow> interner \<Rightarrow> ty \<Rightarrow> predicate \<Rightarrow> bool" where
  "pred_ok W n s cur (IsInstance p c) \<longleftrightarrow> class_ok W n s cur c"
| "pred_ok W n s cur (IsNone p) \<longleftrightarrow> class_ok W n s cur (in_none s)"
| "pred_ok W n s cur (Truthy p) \<longleftrightarrow> True"
| "pred_ok W n s cur (TypeIs p c) \<longleftrightarrow> class_ok W n s cur c \<and>
     (case Meet n cur c s of Some (r, _) \<Rightarrow> kind r \<noteq> KindClass \<or> kind c = KindClass \<and> tclass r = tclass c | None \<Rightarrow> True)"
| "pred_ok W n s cur (Not q) \<longleftrightarrow> pred_ok W n s cur q"

lemma none_facts:
  assumes "world_ok W" "reach (linear_ok W) s"
  shows "in_none s \<in> set (byID s)" "unref (in_none s)" "kind (in_none s) = KindNone" "in_dyn s \<in> set (byID s)"
    "kind (in_dyn s) = KindDyn" "plain (in_dyn s)"
proof -
  note sem = has_type_meet [OF assms(1)]
  have wf: "wf s" using join_order.jinvD(1) [OF meet_sem.axioms(1) [OF sem]]
      meet_sem.minvD(1) [OF sem meet_sem.reach_minv [OF sem assms(2)]] by blast
  have "plain (atom KindDyn)" by (simp add: atom_def)
  then show "in_none s \<in> set (byID s)" "unref (in_none s)" "kind (in_none s) = KindNone" "in_dyn s \<in> set (byID s)"
    "kind (in_dyn s) = KindDyn" "plain (in_dyn s)"
    using singles(2,4,6,8) [OF wf] like_plain [OF singles(8) [OF wf]] by (auto simp: like_def)
qed

lemma exact_has_type:
  assumes "has_type W t x" "like u (set_refine (refine t OR RefineExactType) t)"
    and "kind t = KindClass \<Longrightarrow> vcls x = cname (the (tclass t))"
  shows "has_type W u x"
proof -
  have off: "RefineExactType AND RefineNonNegative = 0" "RefineExactType AND RefineAsciiOnly = 0"
    by (simp_all add: RefineExactType_def RefineNonNegative_def RefineAsciiOnly_def)
  have "nameless (the (tsig u)) = nameless (the (tsig t))"
    using assms(2) by (cases "tsig u"; cases "tsig t") (auto simp: like_def)
  with has_type_selD [OF assms(1)] assms(2,3) off show ?thesis
    unfolding has_type_sel [of W u]
    by (cases "kind t") (auto simp: like_def kind_sem_def bit.conj_disj_distrib2)
qed

lemma meet_subtract:
  assumes W: "world_ok W" and s: "reach (linear_ok W) s" and cur: "cur \<in> set (byID s)" "plain cur"
    and c: "class_ok W n s cur c"
  obtains t f s1 s2 where "Meet n cur c s = Some (t, s1)" "Subtract cur c s1 = Some (f, s2)"
    "reach (linear_ok W) s1" "reach (linear_ok W) s2" "hc_ext s s1" "hc_ext s s2" "t \<in> set (byID s1)"
    "\<forall>x. has_type W cur x \<longrightarrow> (if has_type W c x then has_type W t x else has_type W f x)"
proof -
  have c': "c \<in> set (byID s)" "plain c" "unref c" "separable (has_type W) cur c" "tsize cur + tsize c < n"
    using c by (auto simp: class_ok_def)
  obtain t s1 where t: "Meet n cur c s = Some (t, s1)" "reach (linear_ok W) s1" "hc_ext s s1" "t \<in> set (byID s1)"
    "plain cur \<and> plain c \<longrightarrow> plain t \<and>
      (separable (has_type W) cur c \<longrightarrow> (\<forall>x. has_type W cur x \<and> has_type W c x \<longrightarrow> has_type W t x)) \<and>
      (tight cur c \<longrightarrow> (\<forall>x. has_type W t x \<longrightarrow> has_type W cur x \<and> has_type W c x))"
    by (rule Meet_run [OF W s cur(1) c'(1,5)])
  obtain f s2 where f: "Subtract cur c s1 = Some (f, s2)" "reach (linear_ok W) s2" "hc_ext s1 s2"
    "plain cur \<longrightarrow> plain f \<and> (\<forall>x. has_type W cur x \<and> \<not> has_type W c x \<longrightarrow> has_type W f x)"
    by (rule Subtract_run [OF W t(2) hc_ext_byID [OF t(3) cur(1)] c'(3)])
  show ?thesis
    by (rule that [OF t(1) f(1) t(2) f(2) t(3) hc_ext_trans [OF t(3) f(3)] t(4)]) (use t(5) f(4) cur(2) c' in auto)
qed

lemma edges_run:
  assumes W: "world_ok W" and truth: "\<And>x. inst W ''NoneType'' x \<Longrightarrow> \<not> truth x"
    and "reach (linear_ok W) s" "cur \<in> set (byID s)" "plain cur" "pred_ok W n s cur q"
  shows "\<exists>t f s'. edges n q cur s = Some ((t, f), s') \<and> reach (linear_ok W) s' \<and> hc_ext s s' \<and>
    (\<forall>x. has_type W cur x \<longrightarrow> (if holds W truth q x then has_type W t x else has_type W f x))"
  using assms(3-)
proof (induction q)
  case (IsInstance p c)
  obtain t f s1 s2 where "Meet n cur c s = Some (t, s1)" "Subtract cur c s1 = Some (f, s2)" "reach (linear_ok W) s2"
    "hc_ext s s2" "\<forall>x. has_type W cur x \<longrightarrow> (if has_type W c x then has_type W t x else has_type W f x)"
    by (rule meet_subtract [OF W IsInstance(1-3)]) (use IsInstance(4) in auto)
  then show ?case by simp
next
  case (IsNone p)
  obtain t f s1 s2 where "Meet n cur (in_none s) s = Some (t, s1)" "Subtract cur (in_none s) s1 = Some (f, s2)"
    "reach (linear_ok W) s2" "hc_ext s s1" "hc_ext s s2"
    "\<forall>x. has_type W cur x \<longrightarrow> (if has_type W (in_none s) x then has_type W t x else has_type W f x)"
    by (rule meet_subtract [OF W IsNone(1-3)]) (use IsNone(4) in auto)
  then show ?case
    using hc_ext_singles(2) [of s s1] has_type_none [OF none_facts(3) [OF W IsNone(1)]] by simp
next
  case (Truthy p)
  obtain t s' where "Subtract cur (in_none s) s = Some (t, s')" "reach (linear_ok W) s'" "hc_ext s s'"
    "plain cur \<longrightarrow> plain t \<and> (\<forall>x. has_type W cur x \<and> \<not> has_type W (in_none s) x \<longrightarrow> has_type W t x)"
    by (rule Subtract_run [OF W Truthy(1,2) none_facts(2) [OF W Truthy(1)]])
  then show ?case
    using Truthy(3) truth has_type_none [OF none_facts(3) [OF W Truthy(1)]] by auto
next
  case (TypeIs p c)
  obtain t s1 where t: "Meet n cur c s = Some (t, s1)" "reach (linear_ok W) s1" "hc_ext s s1" "t \<in> set (byID s1)"
    "\<forall>x f. has_type W cur x \<longrightarrow> has_type W c x \<longrightarrow> has_type W t x"
    by (rule meet_subtract [OF W TypeIs(1-3)]) (use TypeIs(4) in auto)
  obtain u s2 where u: "WithRefine t RefineExactType s1 = Some (u, s2)" "hc_step s1 u s2"
    "like u (set_refine (refine t OR RefineExactType) t)"
    using WithRefine_spec [OF meet_sem.minvD(2) [OF has_type_meet [OF W] meet_sem.reach_minv [OF has_type_meet [OF W] t(2)]] t(4)]
    by blast
  have "valid_bits RefineExactType" by (simp add: valid_bits_def all_bits_def RefineExactType_def RefineAsciiOnly_def RefineNonNegative_def RefineKnownLen_def)
  then have "reach (linear_ok W) s2" by (rule reach.call [OF t(2) api.call_with [OF t(4) _ u(1)]])
  moreover have "hc_ext s s2" using hc_ext_trans [OF t(3)] u(2) by (auto simp: hc_step_def)
  moreover have "has_type W u x" if "has_type W cur x" "has_type W c x" "vcls x = type_name c" for x
    using exact_has_type [OF _ u(3), of W x] t(1,5) that TypeIs(4) by (auto simp: type_name_def)
  ultimately show ?case using t(1) u(1) by auto
next
  case (Not q)
  then show ?case by fastforce
qed



end
