(* ===== verification/Contagion.thy ===== *)
theory Contagion
  imports Evidence "HOL-Library.AList" "HOL-Library.Product_Lexorder"
begin

text \<open>
  \<^verbatim>\<open>pkg/types/contagion.go\<close>: how far an untyped value spreads through a module.

  The taint graph is a record with the slot slice, the index from slot id to position as an
  association list and the edge map as a function (a missing key reads as the empty slice).
  The walk of \<open>poisonSet\<close> is a worklist loop; it terminates because every step that pushes
  marks a slot of the index that was not marked before. \<^const>\<open>None\<close> is an index panic, which
  a graph built through the API never reaches.
\<close>

section \<open>Data\<close>

datatype origin_kind =
    OriginNone | OriginExportedParam | OriginUnannotatedParam | OriginReturnsAny
  | OriginExternalImport | OriginDynamicAttr

fun origin_String :: "origin_kind \<Rightarrow> string" where
  "origin_String OriginExportedParam = ''exported-function parameter, no annotation''"
| "origin_String OriginUnannotatedParam = ''parameter without a proof''"
| "origin_String OriginReturnsAny = ''returns Any by contract''"
| "origin_String OriginExternalImport = ''graph-external import''"
| "origin_String OriginDynamicAttr = ''attribute of an untyped object''"
| "origin_String OriginNone = ''not an origin''"

fun Unlock :: "origin_kind \<Rightarrow> string" where
  "Unlock OriginExportedParam = ''annotate the parameter; call sites suggest a concrete type''"
| "Unlock OriginUnannotatedParam = ''annotate the parameter or add a guard at the call''"
| "Unlock OriginReturnsAny = ''narrow with isinstance or a match after the call''"
| "Unlock OriginExternalImport = ''none at compile time; calls stay boxed''"
| "Unlock OriginDynamicAttr = ''narrow the object before the attribute access''"
| "Unlock OriginNone = []"

record slot =
  slot_ID :: int
  slot_Func :: string
  slot_Span :: span
  slot_Label :: string
  slot_Dyn :: bool
  slot_Origin :: origin_kind

record taint_graph =
  slots :: "slot list"
  index :: "(int \<times> nat) list"
  edges :: "int \<Rightarrow> int list"

definition NewTaintGraph :: taint_graph where
  "NewTaintGraph = \<lparr>slots = [], index = [], edges = (\<lambda>_. [])\<rparr>"

definition AddSlot :: "slot \<Rightarrow> taint_graph \<Rightarrow> taint_graph option" where
  "AddSlot s g =
     (case map_of (index g) (slot_ID s) of
        Some i \<Rightarrow> if i < length (slots g) then Some (g\<lparr>slots := (slots g)[i := s]\<rparr>) else None
      | None \<Rightarrow> Some (g\<lparr>index := AList.update (slot_ID s) (length (slots g)) (index g), slots := slots g @ [s]\<rparr>))"

definition AddEdge :: "int \<Rightarrow> int \<Rightarrow> taint_graph \<Rightarrow> taint_graph" where
  "AddEdge from to g =
     (if list_ex (\<lambda>e. e = to) (edges g from) then g
      else g\<lparr>edges := (edges g)(from := edges g from @ [to])\<rparr>)"

datatype origin_rank = OriginRank (rank_Slot: slot) (Poisons: nat)

record contagion_report =
  Total :: nat
  DynDyn :: nat
  Origins :: "origin_rank list"
  report_cause :: "string \<Rightarrow> int option"

section \<open>The walk\<close>

lemma unmarked_less:
  assumes "d \<notin> set seen" "map_of (index g) d = Some i"
  shows "length (filter (\<lambda>(k, _). k \<notin> set (d # seen)) (index g)) < length (filter (\<lambda>(k, _). k \<notin> set seen) (index g))"
proof -
  have eq: "filter (\<lambda>(k, _). k \<notin> set (d # seen)) (index g) = filter (\<lambda>(k, _). k \<noteq> d) (filter (\<lambda>(k, _). k \<notin> set seen) (index g))"
    by (auto intro: filter_cong)
  have "(d, i) \<in> set (filter (\<lambda>(k, _). k \<notin> set seen) (index g))" using assms map_of_SomeD by fastforce
  then show ?thesis unfolding eq by (rule length_filter_less) simp
qed

text \<open>The stack is kept with its top at the head, so appending the edges of a slot pushes them in
  reverse.\<close>

function poison_loop :: "taint_graph \<Rightarrow> int list \<Rightarrow> int list \<Rightarrow> int list option" where
  "poison_loop g [] seen = Some seen"
| "poison_loop g (d # stack) seen =
     (if d \<in> set seen then poison_loop g stack seen
      else
        case map_of (index g) d of
          None \<Rightarrow> poison_loop g stack seen
        | Some i \<Rightarrow>
            if length (slots g) \<le> i then None
            else if \<not> slot_Dyn (slots g ! i) then poison_loop g stack seen
            else poison_loop g (rev (edges g d) @ stack) (d # seen))"
  by pat_completeness auto

termination
  by (relation "measures [\<lambda>(g, stack, seen). length (filter (\<lambda>(k, _). k \<notin> set seen) (index g)), \<lambda>(g, stack, seen). length stack]")
    (use unmarked_less in auto)

definition poisonSet :: "taint_graph \<Rightarrow> int \<Rightarrow> int list option" where
  "poisonSet g origin = poison_loop g (rev (edges g origin)) []"

section \<open>The report\<close>

definition per_func :: "taint_graph \<Rightarrow> int list \<Rightarrow> (string \<times> nat) list option" where
  "per_func g reached =
     fold_opt (\<lambda>d m.
       case map_of (index g) d of
         None \<Rightarrow> None
       | Some i \<Rightarrow>
           if length (slots g) \<le> i then None
           else
             let fn = slot_Func (slots g ! i);
                 n = (case map_of m fn of Some n \<Rightarrow> n | None \<Rightarrow> 0)
             in Some (AList.update fn (Suc n) m)) reached []"

definition originWins :: "int \<Rightarrow> int \<Rightarrow> bool" where
  "originWins candidate current \<longleftrightarrow> current = 0 \<or> candidate < current"

type_synonym cause_state = "(string \<Rightarrow> nat option) \<times> (string \<Rightarrow> int option)"

definition map_or :: "'v \<Rightarrow> ('k \<Rightarrow> 'v option) \<Rightarrow> 'k \<Rightarrow> 'v" where
  "map_or z m k = (case m k of Some v \<Rightarrow> v | None \<Rightarrow> z)"

definition note_cause :: "int \<Rightarrow> string \<times> nat \<Rightarrow> cause_state \<Rightarrow> cause_state" where
  "note_cause sid fnn st =
     (case (fnn, st) of ((fn, n), (best, cause)) \<Rightarrow>
        if map_or 0 best fn < n \<or> n = map_or 0 best fn \<and> originWins sid (map_or 0 cause fn)
        then (best(fn \<mapsto> n), cause(fn \<mapsto> sid))
        else (best, cause))"

fun analyze_loop :: "taint_graph \<Rightarrow> slot list \<Rightarrow> origin_rank list \<Rightarrow> cause_state \<Rightarrow> (origin_rank list \<times> cause_state) option" where
  "analyze_loop g [] os st = Some (os, st)"
| "analyze_loop g (s # ss) os st =
     (if \<not> slot_Dyn s \<or> slot_Origin s = OriginNone then analyze_loop g ss os st
      else do {
        reached \<leftarrow> poisonSet g (slot_ID s);
        perFunc \<leftarrow> per_func g reached;
        analyze_loop g ss (os @ [OriginRank s (length reached)]) (fold (note_cause (slot_ID s)) perFunc st)
      })"

definition rank_less :: "origin_rank \<Rightarrow> origin_rank \<Rightarrow> bool" where
  "rank_less a b =
     (if Poisons a \<noteq> Poisons b then Poisons a > Poisons b
      else slot_ID (rank_Slot a) < slot_ID (rank_Slot b))"

definition Analyze :: "taint_graph \<Rightarrow> contagion_report option" where
  "Analyze g = do {
     (os, best, cause) \<leftarrow> analyze_loop g (slots g) [] (\<lambda>_. None, \<lambda>_. None);
     Some \<lparr>Total = length (slots g), DynDyn = length (filter slot_Dyn (slots g)),
       Origins = sort_slice rank_less os, report_cause = cause\<rparr>
   }"

definition CauseFor :: "contagion_report \<Rightarrow> string \<Rightarrow> slot option" where
  "CauseFor r fn =
     (case report_cause r fn of
        None \<Rightarrow> None
      | Some d \<Rightarrow> map_option rank_Slot (List.find (\<lambda>q. slot_ID (rank_Slot q) = d) (Origins r)))"

section \<open>Graphs built through the API\<close>

definition graph_wf :: "taint_graph \<Rightarrow> bool" where
  "graph_wf g \<longleftrightarrow>
     (\<forall>d i. map_of (index g) d = Some i \<longleftrightarrow> i < length (slots g) \<and> slot_ID (slots g ! i) = d)"

inductive built :: "taint_graph \<Rightarrow> bool" where
  new: "built NewTaintGraph"
| slot: "built g \<Longrightarrow> AddSlot s g = Some g' \<Longrightarrow> built g'"
| edge: "built g \<Longrightarrow> built (AddEdge from to g)"

lemma graph_wf_AddSlot:
  assumes "graph_wf g"
  shows "\<exists>g'. AddSlot s g = Some g' \<and> graph_wf g'"
proof (cases "map_of (index g) (slot_ID s)")
  case None
  then have "slot_ID (slots g ! i) \<noteq> slot_ID s" if "i < length (slots g)" for i
    using assms that unfolding graph_wf_def by (metis option.distinct(1))
  with None assms show ?thesis by (auto simp: AddSlot_def graph_wf_def update_conv' nth_append less_Suc_eq)
next
  case (Some i)
  then have i: "i < length (slots g)" "slot_ID (slots g ! i) = slot_ID s" using assms by (auto simp: graph_wf_def)
  then have "slot_ID ((slots g)[i := s] ! j) = slot_ID (slots g ! j)" if "j < length (slots g)" for j
    using that by (cases "j = i") auto
  then have "graph_wf (g\<lparr>slots := (slots g)[i := s]\<rparr>)" using assms by (auto simp: graph_wf_def)
  with Some i(1) show ?thesis by (simp add: AddSlot_def)
qed

lemma built_wf: "built g \<Longrightarrow> graph_wf g"
proof (induction rule: built.induct)
  case (slot g s g')
  then show ?case using graph_wf_AddSlot [of g s] by auto
qed (auto simp: graph_wf_def NewTaintGraph_def AddEdge_def)

section \<open>What the walk finds\<close>

text \<open>\<open>flow g a b\<close>: an edge from \<open>a\<close> to a slot that sealed at Dyn.\<close>

definition dyn_slot :: "taint_graph \<Rightarrow> int \<Rightarrow> bool" where
  "dyn_slot g d \<longleftrightarrow> (\<exists>i. map_of (index g) d = Some i \<and> slot_Dyn (slots g ! i))"

definition flow :: "taint_graph \<Rightarrow> int \<Rightarrow> int \<Rightarrow> bool" where
  "flow g a b \<longleftrightarrow> b \<in> set (edges g a) \<and> dyn_slot g b"

definition walked :: "taint_graph \<Rightarrow> int list \<Rightarrow> int list \<Rightarrow> int list \<Rightarrow> bool" where
  "walked g stack seen r \<longleftrightarrow> distinct r \<and> set seen \<subseteq> set r \<and>
     (\<forall>b\<in>set stack. dyn_slot g b \<longrightarrow> b \<in> set r) \<and> (\<forall>a b. a \<in> set r \<longrightarrow> flow g a b \<longrightarrow> b \<in> set r) \<and>
     (\<forall>b\<in>set r. b \<in> set seen \<or> (\<exists>c\<in>set stack. dyn_slot g c \<and> (flow g)\<^sup>*\<^sup>* c b))"

lemma walked_skip:
  assumes "d \<in> set seen \<or> \<not> dyn_slot g d" "walked g stack seen r"
  shows "walked g (d # stack) seen r"
  using assms unfolding walked_def by auto

lemma walked_push:
  assumes "dyn_slot g d" "walked g (rev (edges g d) @ stack) (d # seen) r"
  shows "walked g (d # stack) seen r"
proof -
  have "(flow g)\<^sup>*\<^sup>* d b" if "c \<in> set (edges g d)" "dyn_slot g c" "(flow g)\<^sup>*\<^sup>* c b" for b c
    using that by (meson converse_rtranclp_into_rtranclp flow_def)
  then show ?thesis using assms unfolding walked_def by auto
qed

lemma poison_loop_spec:
  "graph_wf g \<Longrightarrow> distinct seen \<Longrightarrow> (\<And>a b. a \<in> set seen \<Longrightarrow> flow g a b \<Longrightarrow> b \<in> set seen \<union> set stack) \<Longrightarrow>
    \<exists>r. poison_loop g stack seen = Some r \<and> walked g stack seen r"
proof (induction g stack seen rule: poison_loop.induct)
  case (1 g seen)
  then show ?case by (auto simp: walked_def)
next
  case (2 g d stack seen)
  have idx: "i < length (slots g)" if "map_of (index g) d = Some i" for i
    using that 2(5) by (simp add: graph_wf_def)
  consider (skip) "d \<in> set seen \<or> \<not> dyn_slot g d"
    | (push) i where "d \<notin> set seen" "map_of (index g) d = Some i" "slot_Dyn (slots g ! i)"
    by (auto simp: dyn_slot_def)
  then show ?case
  proof cases
    case skip
    have run: "poison_loop g (d # stack) seen = poison_loop g stack seen"
      using skip idx by (auto simp: dyn_slot_def split: option.splits)
    have "b \<in> set seen \<union> set stack" if "a \<in> set seen" "flow g a b" for a b
      using 2(7) [OF that] that(2) skip by (auto simp: flow_def)
    then have "\<exists>r. poison_loop g stack seen = Some r \<and> walked g stack seen r"
      using 2(1-3) 2(5,6) skip idx by (cases "d \<in> set seen"; cases "map_of (index g) d") (auto simp: dyn_slot_def)
    with run walked_skip [OF skip] show ?thesis by auto
  next
    case push
    have run: "poison_loop g (d # stack) seen = poison_loop g (rev (edges g d) @ stack) (d # seen)"
      using push idx [OF push(2)] by simp
    have "b \<in> set (d # seen) \<union> set (rev (edges g d) @ stack)" if "a \<in> set (d # seen)" "flow g a b" for a b
      using 2(7) [of a b] that by (auto simp: flow_def)
    then have "\<exists>r. poison_loop g (rev (edges g d) @ stack) (d # seen) = Some r \<and> walked g (rev (edges g d) @ stack) (d # seen) r"
      using 2(4) [OF push(1,2)] idx [OF push(2)] push 2(5,6) by auto
    with run walked_push [of g d] push(2,3) show ?thesis by (auto simp: dyn_slot_def)
  qed
qed

lemma poisonSet_spec:
  assumes "graph_wf g"
  shows "\<exists>r. poisonSet g d = Some r \<and> distinct r \<and> set r = {b. (flow g)\<^sup>+\<^sup>+ d b}"
proof -
  obtain r where r: "poison_loop g (rev (edges g d)) [] = Some r" "distinct r"
    "\<forall>b\<in>set (edges g d). dyn_slot g b \<longrightarrow> b \<in> set r" "\<forall>a b. a \<in> set r \<longrightarrow> flow g a b \<longrightarrow> b \<in> set r"
    "\<forall>b\<in>set r. \<exists>c\<in>set (edges g d). dyn_slot g c \<and> (flow g)\<^sup>*\<^sup>* c b"
    using poison_loop_spec [OF assms, of "[]" "rev (edges g d)"] by (auto simp: walked_def)
  have "b \<in> set r" if "(flow g)\<^sup>+\<^sup>+ d b" for b
    using that by (induction rule: tranclp_induct) (use r(3,4) in \<open>auto simp: flow_def\<close>)
  moreover have "(flow g)\<^sup>+\<^sup>+ d b" if "b \<in> set r" for b
    using r(5) that by (metis flow_def rtranclp_into_tranclp2)
  ultimately show ?thesis using r(1,2) by (auto simp: poisonSet_def)
qed

definition demo_graph :: taint_graph where
  "demo_graph = AddEdge 1 2 \<lparr>
     slots = [\<lparr>slot_ID = 1, slot_Func = ''f'', slot_Span = \<lparr>File = [], Line = 0, Col = 0\<rparr>, slot_Label = ''p'',
        slot_Dyn = True, slot_Origin = OriginReturnsAny\<rparr>,
      \<lparr>slot_ID = 2, slot_Func = ''g'', slot_Span = \<lparr>File = [], Line = 0, Col = 0\<rparr>, slot_Label = ''q'',
        slot_Dyn = True, slot_Origin = OriginNone\<rparr>],
     index = [(1, 0), (2, 1)], edges = (\<lambda>_. [])\<rparr>"

lemma demo_graph_built: "built demo_graph"
proof -
  let ?s1 = "\<lparr>slot_ID = 1, slot_Func = ''f'', slot_Span = \<lparr>File = [], Line = 0, Col = 0\<rparr>, slot_Label = ''p'',
        slot_Dyn = True, slot_Origin = OriginReturnsAny\<rparr>"
  let ?s2 = "\<lparr>slot_ID = 2, slot_Func = ''g'', slot_Span = \<lparr>File = [], Line = 0, Col = 0\<rparr>, slot_Label = ''q'',
        slot_Dyn = True, slot_Origin = OriginNone\<rparr>"
  have 1: "AddSlot ?s1 NewTaintGraph = Some (NewTaintGraph\<lparr>slots := [?s1], index := [(1, 0)]\<rparr>)"
    by (simp add: AddSlot_def NewTaintGraph_def)
  have 2: "AddSlot ?s2 (NewTaintGraph\<lparr>slots := [?s1], index := [(1, 0)]\<rparr>) =
      Some (NewTaintGraph\<lparr>slots := [?s1, ?s2], index := [(1, 0), (2, 1)]\<rparr>)"
    by (simp add: AddSlot_def)
  show ?thesis
    using built.edge [OF built.slot [OF built.slot [OF built.new 1] 2], of 1 2] by (simp add: demo_graph_def NewTaintGraph_def)
qed

text \<open>C22: the poison set is reachability. On every graph built through the API the walk returns, without
  an index panic, each slot exactly once, and it returns precisely the slots that can be
  reached from the origin along one or more edges into Dyn slots. An origin that is a Dyn slot on a cycle is
  therefore in its own poison set.\<close>
theorem poisonSet_reachable:
  assumes "built g"
  shows "\<exists>r. poisonSet g d = Some r \<and> distinct r \<and> set r = {b. (flow g)\<^sup>+\<^sup>+ d b}"
  using poisonSet_spec [OF built_wf [OF assms]] .

theorem poisonSet_reachable_witness:
  "\<exists>r. poisonSet (AddEdge 2 1 demo_graph) 1 = Some r \<and> distinct r \<and> set r = {1, 2}"
proof -
  let ?g = "AddEdge 2 1 demo_graph"
  have f: "flow ?g 1 2" "flow ?g 2 1" by (simp_all add: flow_def dyn_slot_def demo_graph_def AddEdge_def)
  have "b \<in> {1, 2}" if "flow ?g a b" for a b
    using that by (auto simp: flow_def dyn_slot_def demo_graph_def AddEdge_def split: if_splits)
  then have "b \<in> {1, 2}" if "(flow ?g)\<^sup>+\<^sup>+ 1 b" for b using that by (metis tranclp.cases)
  moreover have "(flow ?g)\<^sup>+\<^sup>+ 1 1" "(flow ?g)\<^sup>+\<^sup>+ 1 2" using f by (auto intro: tranclp.intros)
  ultimately have "{b. (flow ?g)\<^sup>+\<^sup>+ 1 b} = {1, 2}" by auto
  then show ?thesis using poisonSet_reachable [OF built.edge [OF demo_graph_built], of 2 1 1] by simp
qed

section \<open>The cause of a boxed function\<close>

text \<open>\<open>poison_count g d fn\<close>: how many slots of the function \<open>fn\<close> the origin \<open>d\<close> poisons.\<close>

definition slot_func :: "taint_graph \<Rightarrow> int \<Rightarrow> string" where
  "slot_func g d = slot_Func (slots g ! the (map_of (index g) d))"

definition poison_count :: "taint_graph \<Rightarrow> int \<Rightarrow> string \<Rightarrow> nat" where
  "poison_count g d fn = card {b. (flow g)\<^sup>+\<^sup>+ d b \<and> slot_func g b = fn}"

definition is_origin :: "slot \<Rightarrow> bool" where
  "is_origin s \<longleftrightarrow> slot_Dyn s \<and> slot_Origin s \<noteq> OriginNone"

lemma per_func_spec:
  assumes "graph_wf g" and "\<forall>d\<in>set r. dyn_slot g d"
  shows "\<exists>m. per_func g r = Some m \<and> distinct (map fst m) \<and>
    (\<forall>fn. map_of m fn = (let n = length (filter (\<lambda>d. slot_func g d = fn) r) in if n = 0 then None else Some n))"
proof -
  let ?f = "\<lambda>d m. case map_of (index g) d of None \<Rightarrow> None
       | Some i \<Rightarrow> if length (slots g) \<le> i then None
           else let fn = slot_Func (slots g ! i); n = (case map_of m fn of Some n \<Rightarrow> n | None \<Rightarrow> 0)
             in Some (AList.update fn (Suc n) m)"
  have step: "?f d m = Some (AList.update (slot_func g d) (Suc (map_or 0 (map_of m) (slot_func g d))) m)"
    if "dyn_slot g d" for d and m :: "(string \<times> nat) list"
  proof -
    obtain i where i: "map_of (index g) d = Some i" using \<open>dyn_slot g d\<close> by (auto simp: dyn_slot_def)
    then have "i < length (slots g)" using assms(1) by (simp add: graph_wf_def)
    with i show ?thesis by (simp add: slot_func_def map_or_def Let_def)
  qed
  have "\<exists>m'. fold_opt ?f r m = Some m' \<and> distinct (map fst m') \<and>
      (\<forall>fn. map_of m' fn = (let n = map_or 0 (map_of m) fn + length (filter (\<lambda>d. slot_func g d = fn) r)
        in if n = 0 then None else Some n))"
    if "\<forall>d\<in>set r. dyn_slot g d" "distinct (map fst m)" "\<forall>fn. map_of m fn \<noteq> Some 0" for r m
    using that
  proof (induction r arbitrary: m)
    case Nil
    then show ?case by (auto simp: map_or_def split: option.splits)
  next
    case (Cons d r)
    let ?m = "AList.update (slot_func g d) (Suc (map_or 0 (map_of m) (slot_func g d))) m"
    have "distinct (map fst ?m)" "\<forall>fn. map_of ?m fn \<noteq> Some 0"
      using Cons.prems(2,3) by (auto simp: distinct_update update_conv')
    with Cons.IH [of ?m] Cons.prems(1) obtain m' where m': "fold_opt ?f r ?m = Some m'" "distinct (map fst m')"
      "\<forall>fn. map_of m' fn = (let n = map_or 0 (map_of ?m) fn + length (filter (\<lambda>d. slot_func g d = fn) r)
        in if n = 0 then None else Some n)" by auto
    have "fold_opt ?f (d # r) m = Some m'" using step [of d m] Cons.prems(1) m'(1) by simp
    with m'(2,3) show ?case by (auto simp: Let_def map_or_def update_conv')
  qed
  from this [OF assms(2), of "[]"] show ?thesis by (simp add: per_func_def map_or_def)
qed

lemma fold_note_cause:
  assumes "distinct (map fst m)"
  shows "fst (fold (note_cause sid) m (best, cause)) fn =
      (case map_of m fn of None \<Rightarrow> best fn | Some n \<Rightarrow> fst (note_cause sid (fn, n) (best, cause)) fn) \<and>
    snd (fold (note_cause sid) m (best, cause)) fn =
      (case map_of m fn of None \<Rightarrow> cause fn | Some n \<Rightarrow> snd (note_cause sid (fn, n) (best, cause)) fn)"
  using assms
proof (induction m arbitrary: best cause)
  case (Cons x m)
  obtain f n where x: "x = (f, n)" by (cases x)
  obtain b c where bc: "note_cause sid x (best, cause) = (b, c)" by (cases "note_cause sid x (best, cause)")
  have other: "b fn = best fn" "c fn = cause fn" if "fn \<noteq> f"
    using bc that x by (auto simp: note_cause_def split: if_splits)
  have "map_of m f = None" using Cons.prems x by (simp add: map_of_eq_None_iff)
  then show ?case
    using Cons.IH [of b c] Cons.prems x bc other
    by (cases "fn = f") (auto simp: note_cause_def map_or_def split: option.splits)
qed simp

text \<open>\<open>chosen g os best cause\<close>: for each function the recorded origin is one of \<open>os\<close> that poisons the most of
  it, the lowest id among equals; a function none of them poisons has no cause.\<close>

definition leads :: "taint_graph \<Rightarrow> string \<Rightarrow> int \<Rightarrow> int \<Rightarrow> bool" where
  "leads g fn a b \<longleftrightarrow> poison_count g b fn < poison_count g a fn \<or> poison_count g b fn = poison_count g a fn \<and> a \<le> b"

definition chosen :: "taint_graph \<Rightarrow> int list \<Rightarrow> cause_state \<Rightarrow> bool" where
  "chosen g os st \<longleftrightarrow>
     (\<forall>fn. case snd st fn of
         None \<Rightarrow> fst st fn = None \<and> (\<forall>d\<in>set os. poison_count g d fn = 0)
       | Some d \<Rightarrow> d \<in> set os \<and> fst st fn = Some (poison_count g d fn) \<and> 0 < poison_count g d fn \<and>
           (\<forall>e\<in>set os. leads g fn d e))"

lemma chosen_step:
  assumes "chosen g os (best, cause)" and "distinct (map fst m)" and "0 \<notin> set os" and "d \<notin> set os"
    and m: "\<And>fn. map_of m fn = (if poison_count g d fn = 0 then None else Some (poison_count g d fn))"
  shows "chosen g (os @ [d]) (fold (note_cause d) m (best, cause))"
  unfolding chosen_def
proof
  fix fn
  obtain best' cause' where st: "fold (note_cause d) m (best, cause) = (best', cause')" by fastforce
  note f = fold_note_cause [OF assms(2), of d best cause fn, unfolded st fst_conv snd_conv m]
  show "case snd (fold (note_cause d) m (best, cause)) fn of
         None \<Rightarrow> fst (fold (note_cause d) m (best, cause)) fn = None \<and> (\<forall>d\<in>set (os @ [d]). poison_count g d fn = 0)
       | Some e \<Rightarrow> e \<in> set (os @ [d]) \<and> fst (fold (note_cause d) m (best, cause)) fn = Some (poison_count g e fn) \<and>
           0 < poison_count g e fn \<and> (\<forall>b\<in>set (os @ [d]). leads g fn e b)"
  proof (cases "cause fn")
    case None
    then have o: "best fn = None" "\<forall>d\<in>set os. poison_count g d fn = 0"
      using assms(1) by (auto simp: chosen_def dest: spec [of _ fn])
    with None f show ?thesis
      by (auto simp: st note_cause_def map_or_def leads_def)
  next
    case (Some e)
    then have o: "e \<in> set os" "best fn = Some (poison_count g e fn)" "0 < poison_count g e fn" "\<forall>b\<in>set os. leads g fn e b"
      using assms(1) by (auto simp: chosen_def dest: spec [of _ fn])
    have "e \<noteq> 0" "e \<noteq> d" using o(1) assms(3,4) by auto
    with Some o f show ?thesis
      by (fastforce simp: st note_cause_def map_or_def leads_def originWins_def split: if_splits)
  qed
qed

definition ranked :: "taint_graph \<Rightarrow> slot \<Rightarrow> origin_rank" where
  "ranked g s = OriginRank s (card {b. (flow g)\<^sup>+\<^sup>+ (slot_ID s) b})"

abbreviation rank_id :: "origin_rank \<Rightarrow> int" where
  "rank_id q \<equiv> slot_ID (rank_Slot q)"

lemma ranked_id [simp]: "rank_Slot (ranked g s) = s"
  by (simp add: ranked_def)

lemma origin_step:
  assumes "graph_wf g"
  obtains r m where "poisonSet g d = Some r" "length r = card {b. (flow g)\<^sup>+\<^sup>+ d b}" "per_func g r = Some m"
    "distinct (map fst m)" "\<forall>fn. map_of m fn = (if poison_count g d fn = 0 then None else Some (poison_count g d fn))"
proof -
  obtain r where r: "poisonSet g d = Some r" "distinct r" "set r = {b. (flow g)\<^sup>+\<^sup>+ d b}"
    using poisonSet_spec [OF assms] by blast
  have "dyn_slot g b" if "(flow g)\<^sup>+\<^sup>+ d b" for b
    using that by (induction rule: tranclp_induct) (auto simp: flow_def)
  then obtain m where m: "per_func g r = Some m" "distinct (map fst m)"
    "\<forall>fn. map_of m fn = (let n = length (filter (\<lambda>d. slot_func g d = fn) r) in if n = 0 then None else Some n)"
    using per_func_spec [OF assms, of r] r(3) by auto
  have "length (filter (\<lambda>d. slot_func g d = fn) r) = poison_count g d fn" for fn
    using r(2,3) distinct_card [of "filter (\<lambda>d. slot_func g d = fn) r"] by (simp add: poison_count_def)
  moreover have "length r = card {b. (flow g)\<^sup>+\<^sup>+ d b}" using distinct_card [OF r(2)] r(3) by simp
  ultimately show ?thesis using m by (intro that [OF r(1) _ m(1,2)]) (auto simp: Let_def)
qed

lemma analyze_loop_spec:
  assumes g: "graph_wf g" and "chosen g (map rank_id os) st"
    and "distinct (map rank_id os @ map slot_ID (filter is_origin ss))" "0 \<notin> set (map rank_id os @ map slot_ID (filter is_origin ss))"
  shows "\<exists>st'. analyze_loop g ss os st = Some (os @ map (ranked g) (filter is_origin ss), st') \<and>
    chosen g (map rank_id os @ map slot_ID (filter is_origin ss)) st'"
  using assms(2-)
proof (induction ss arbitrary: os st)
  case (Cons s ss)
  show ?case
  proof (cases "is_origin s")
    case False
    then have "analyze_loop g (s # ss) os st = analyze_loop g ss os st" by (simp add: is_origin_def)
    with Cons.IH [OF Cons.prems(1)] Cons.prems False show ?thesis by simp
  next
    case True
    obtain r m where r: "poisonSet g (slot_ID s) = Some r" "length r = card {b. (flow g)\<^sup>+\<^sup>+ (slot_ID s) b}"
      "per_func g r = Some m" "distinct (map fst m)"
      "\<forall>fn. map_of m fn = (if poison_count g (slot_ID s) fn = 0 then None else Some (poison_count g (slot_ID s) fn))"
      by (rule origin_step [OF g, of "slot_ID s"])
    let ?os = "os @ [ranked g s]" and ?st = "fold (note_cause (slot_ID s)) m st"
    have "chosen g (map rank_id ?os) ?st"
      using chosen_step [of g "map rank_id os" "fst st" "snd st" m "slot_ID s"] Cons.prems True r(4,5) by (simp add: ranked_def)
    then have "\<exists>st'. analyze_loop g ss ?os ?st = Some (?os @ map (ranked g) (filter is_origin ss), st') \<and>
        chosen g (map rank_id ?os @ map slot_ID (filter is_origin ss)) st'"
      by (rule Cons.IH) (use Cons.prems True in \<open>auto simp: ranked_def\<close>)
    moreover have "analyze_loop g (s # ss) os st = analyze_loop g ss ?os ?st"
      using True r(1-3) by (simp add: is_origin_def ranked_def)
    ultimately show ?thesis using True by (simp del: analyze_loop.simps)
  qed
qed simp

lemma rank_less_key: "rank_less = (\<lambda>a b. (- int (Poisons a), rank_id a) < (- int (Poisons b), rank_id b))"
  by (auto simp: rank_less_def fun_eq_iff)

lemma slot_ids_distinct: "graph_wf g \<Longrightarrow> distinct (map slot_ID (slots g))"
  unfolding distinct_conv_nth graph_wf_def by (metis length_map nth_map option.inject)

text \<open>C21: the report names the right origins. On every graph built through the API whose origins avoid the
  id 0, the report lists each origin once, with the number of slots it poisons, in descending
  order of that number and then ascending id; and the cause it names for a function is an
  origin that poisons the most of its slots, the lowest id among equals. A function without
  a cause is poisoned by no origin.\<close>
theorem Analyze_names_cause:
  assumes "built g" and "\<forall>s\<in>set (slots g). is_origin s \<longrightarrow> slot_ID s \<noteq> 0"
  shows "\<exists>r. Analyze g = Some r \<and> DynDyn r = length (filter slot_Dyn (slots g)) \<and>
    mset (Origins r) = mset (map (ranked g) (filter is_origin (slots g))) \<and>
    sorted_wrt (\<lambda>a b. \<not> rank_less b a) (Origins r) \<and>
    (\<forall>fn. case CauseFor r fn of
        None \<Rightarrow> (\<forall>s\<in>set (slots g). is_origin s \<longrightarrow> poison_count g (slot_ID s) fn = 0)
      | Some c \<Rightarrow> c \<in> set (slots g) \<and> is_origin c \<and> 0 < poison_count g (slot_ID c) fn \<and>
          (\<forall>s\<in>set (slots g). is_origin s \<longrightarrow> leads g fn (slot_ID c) (slot_ID s)))"
proof -
  let ?os = "filter is_origin (slots g)"
  have g: "graph_wf g" by (rule built_wf [OF assms(1)])
  have ids: "distinct (map slot_ID (slots g))" by (rule slot_ids_distinct [OF g])
  then have "distinct (map slot_ID ?os)" by (rule distinct_map_filter)
  moreover have "0 \<notin> set (map slot_ID ?os)" using assms(2) by auto
  moreover have "chosen g (map rank_id []) (\<lambda>_. None, \<lambda>_. None)" by (simp add: chosen_def)
  ultimately obtain best cause where run: "analyze_loop g (slots g) [] (\<lambda>_. None, \<lambda>_. None) = Some (map (ranked g) ?os, (best, cause))"
    and ch: "chosen g (map slot_ID ?os) (best, cause)"
    using analyze_loop_spec [OF g, of "[]" "(\<lambda>_. None, \<lambda>_. None)" "slots g"] by auto
  let ?s = "sort_slice rank_less (map (ranked g) ?os)"
  let ?r = "\<lparr>Total = length (slots g), DynDyn = length (filter slot_Dyn (slots g)), Origins = ?s, report_cause = cause\<rparr>"
  let ?k = "\<lambda>a. (- int (Poisons a), rank_id a)"
  have "sorted (map ?k (sort_key ?k (map (ranked g) ?os)))" by (rule sorted_sort_key)
  then have "sorted_wrt (\<lambda>a b. \<not> rank_less b a) ?s"
    unfolding rank_less_key sort_slice_key not_less sorted_map .
  moreover have "Analyze g = Some ?r" using run by (simp add: Analyze_def)
  moreover have find: "List.find (\<lambda>q. rank_id q = slot_ID c) ?s = Some (ranked g c)" if c: "c \<in> set ?os" for c
  proof -
    have "\<exists>q\<in>set ?s. rank_id q = slot_ID c" using c by (auto simp: ranked_def)
    then obtain q where q: "List.find (\<lambda>q. rank_id q = slot_ID c) ?s = Some q"
      by (cases "List.find (\<lambda>q. rank_id q = slot_ID c) ?s") (auto simp: find_None_iff)
    then have "q \<in> set ?s" "rank_id q = slot_ID c" unfolding find_Some_iff by (metis nth_mem)+
    then obtain s where "s \<in> set ?os" "q = ranked g s" "slot_ID s = slot_ID c" by (auto simp: ranked_def)
    then show ?thesis using q c ids by (auto simp: distinct_map inj_on_def)
  qed
  moreover have "case CauseFor ?r fn of
        None \<Rightarrow> (\<forall>s\<in>set (slots g). is_origin s \<longrightarrow> poison_count g (slot_ID s) fn = 0)
      | Some c \<Rightarrow> c \<in> set (slots g) \<and> is_origin c \<and> 0 < poison_count g (slot_ID c) fn \<and>
          (\<forall>s\<in>set (slots g). is_origin s \<longrightarrow> leads g fn (slot_ID c) (slot_ID s))" for fn
  proof (cases "cause fn")
    case None
    then show ?thesis using spec [OF ch [unfolded chosen_def], of fn] by (auto simp: CauseFor_def)
  next
    case (Some d)
    then obtain c where "c \<in> set ?os" "d = slot_ID c" "0 < poison_count g d fn" "\<forall>e\<in>set (map slot_ID ?os). leads g fn d e"
      using spec [OF ch [unfolded chosen_def], of fn] by auto
    with Some find [of c] show ?thesis by (auto simp: CauseFor_def ranked_def)
  qed
  ultimately show ?thesis by (intro exI [of _ ?r]) simp
qed

theorem Analyze_names_cause_witness:
  "\<exists>r. Analyze demo_graph = Some r \<and> length (Origins r) = 1"
proof -
  have "built demo_graph" by (rule demo_graph_built)
  moreover have "\<forall>s\<in>set (slots demo_graph). is_origin s \<longrightarrow> slot_ID s \<noteq> 0"
    by (simp add: demo_graph_def AddEdge_def)
  ultimately obtain r where "Analyze demo_graph = Some r" "mset (Origins r) = mset (map (ranked demo_graph) (filter is_origin (slots demo_graph)))"
    using Analyze_names_cause by blast
  moreover from this(2) have "length (Origins r) = length (filter is_origin (slots demo_graph))"
    by (metis length_map mset_eq_length)
  ultimately show ?thesis by (auto simp: demo_graph_def AddEdge_def is_origin_def)
qed

end
