(* ===== verification/Rules.thy ===== *)
theory Rules
  imports Evidence
begin

text \<open>
  \<^verbatim>\<open>pkg/partition/rule.go\<close> and \<^verbatim>\<open>pkg/partition/state.go\<close>: the disqualifier catalog and the states a
  partition unit can be decided to.

  The catalog is built from the list of rules the way the package initialiser builds it, with a
  duplicate id as a panic; the theory shows that the initialiser does not panic and that every
  rule id constant of the package is registered, so that no fire site can panic in \<open>MustRule\<close>.
\<close>

section \<open>Scopes and rules\<close>

datatype scope = ScopeUnit | ScopeRegion | ScopeClass | ScopeBinding | ScopeModule | ScopeProgram

fun scope_String :: "scope \<Rightarrow> string" where
  "scope_String ScopeUnit = ''unit''"
| "scope_String ScopeRegion = ''region''"
| "scope_String ScopeClass = ''class''"
| "scope_String ScopeBinding = ''binding''"
| "scope_String ScopeModule = ''module''"
| "scope_String ScopeProgram = ''program''"

datatype rule =
  Rule (rule_ID: string) (Section: string) (rule_Scope: scope) (Guardable: bool) (Hard: bool) (Prose: string)

section \<open>Rule ids\<close>

definition RuleEvalDynamicSource :: string where "RuleEvalDynamicSource = ''eval-dynamic-source''"
definition RuleExecDynamicSource :: string where "RuleExecDynamicSource = ''exec-dynamic-source''"
definition RuleCompileDynamicSource :: string where "RuleCompileDynamicSource = ''compile-dynamic-source''"
definition RuleSetattrDynamic :: string where "RuleSetattrDynamic = ''setattr-dynamic''"
definition RuleDictWriteDynamic :: string where "RuleDictWriteDynamic = ''dict-write-dynamic''"
definition RuleVarsMutation :: string where "RuleVarsMutation = ''vars-mutation''"
definition RuleCrossModuleRebind :: string where "RuleCrossModuleRebind = ''cross-module-rebind''"
definition RuleCrossModuleRebindWild :: string where "RuleCrossModuleRebindWild = ''cross-module-rebind-dynamic''"
definition RuleMetaclassOpaque :: string where "RuleMetaclassOpaque = ''metaclass-opaque''"
definition RuleDynamicClassConstruct :: string where "RuleDynamicClassConstruct = ''dynamic-class-construction''"
definition RuleClassDecoratorOpaque :: string where "RuleClassDecoratorOpaque = ''class-decorator-opaque''"
definition RuleClassReassignment :: string where "RuleClassReassignment = ''class-reassignment''"
definition RuleFrameWalkerDirect :: string where "RuleFrameWalkerDirect = ''frame-walker-direct''"
definition RuleLocalsCall :: string where "RuleLocalsCall = ''locals-call''"
definition RuleFrameWalkerCaller :: string where "RuleFrameWalkerCaller = ''frame-walker-caller''"
definition RuleDynamicImport :: string where "RuleDynamicImport = ''dynamic-import''"
definition RuleAnyWidth :: string where "RuleAnyWidth = ''any-width''"
definition RuleDelPossiblyUnbound :: string where "RuleDelPossiblyUnbound = ''del-possibly-unbound''"
definition RuleStarargsUnknownCallee :: string where "RuleStarargsUnknownCallee = ''starargs-unknown-callee''"
definition RuleGetattrHook :: string where "RuleGetattrHook = ''getattr-hook''"
definition RuleSetattrHook :: string where "RuleSetattrHook = ''setattr-hook''"
definition RuleGetattributeHook :: string where "RuleGetattributeHook = ''getattribute-hook''"
definition RuleDescriptorUnmodeled :: string where "RuleDescriptorUnmodeled = ''descriptor-unmodeled''"
definition RuleInheritBoxedBase :: string where "RuleInheritBoxedBase = ''inherit-boxed-base''"
definition RuleDecoratorOpaque :: string where "RuleDecoratorOpaque = ''decorator-opaque''"
definition RuleModuleNameRedefined :: string where "RuleModuleNameRedefined = ''module-name-redefined''"
definition RuleExcursionBudget :: string where "RuleExcursionBudget = ''excursion-budget-exceeded''"
definition RuleCostModel :: string where "RuleCostModel = ''cost-model-verdict''"
definition RuleGuardBudget :: string where "RuleGuardBudget = ''guard-budget-exceeded''"
definition RuleTierForcedBoxed :: string where "RuleTierForcedBoxed = ''tier-forced-boxed''"

lemmas rule_ids =
  RuleEvalDynamicSource_def RuleExecDynamicSource_def RuleCompileDynamicSource_def RuleSetattrDynamic_def
  RuleDictWriteDynamic_def RuleVarsMutation_def RuleCrossModuleRebind_def RuleCrossModuleRebindWild_def
  RuleMetaclassOpaque_def RuleDynamicClassConstruct_def RuleClassDecoratorOpaque_def RuleClassReassignment_def
  RuleFrameWalkerDirect_def RuleLocalsCall_def RuleFrameWalkerCaller_def RuleDynamicImport_def
  RuleAnyWidth_def RuleDelPossiblyUnbound_def RuleStarargsUnknownCallee_def RuleGetattrHook_def
  RuleSetattrHook_def RuleGetattributeHook_def RuleDescriptorUnmodeled_def RuleInheritBoxedBase_def
  RuleDecoratorOpaque_def RuleModuleNameRedefined_def RuleExcursionBudget_def RuleCostModel_def
  RuleGuardBudget_def RuleTierForcedBoxed_def

section \<open>The catalog\<close>

definition rules :: "rule list" where
  "rules = [
     Rule RuleEvalDynamicSource ''4.1'' ScopeProgram False True
       (''eval on a non-constant string can read and write the caller'' @ [CHR 0x27] @ ''s namespace''),
     Rule RuleExecDynamicSource ''4.1'' ScopeProgram False True
       (''exec on a non-constant string can mutate locals no static analysis survives''),
     Rule RuleCompileDynamicSource ''4.1'' ScopeUnit False True
       (''compile of a non-constant string builds code the analysis cannot see''),
     Rule RuleSetattrDynamic ''4.2'' ScopeClass False True
       (''setattr with a computed name opens the target class'' @ [CHR 0x27] @ ''s layout''),
     Rule RuleDictWriteDynamic ''4.2'' ScopeClass False True
       (''a direct __dict__ write opens the target class'' @ [CHR 0x27] @ ''s layout''),
     Rule RuleVarsMutation ''4.2'' ScopeClass False True
       (''vars(obj) mutation opens the target class'' @ [CHR 0x27] @ ''s layout''),
     Rule RuleCrossModuleRebind ''4.3'' ScopeBinding True False
       (''a store to another module'' @ [CHR 0x27] @ ''s attribute makes the binding rebindable, covered by a binding guard''),
     Rule RuleCrossModuleRebindWild ''4.3'' ScopeModule False True
       (''a store through a computed module attribute name poisons the module'' @ [CHR 0x27] @ ''s namespace''),
     Rule RuleMetaclassOpaque ''4.4'' ScopeClass False True
       (''a metaclass outside the analyzable allow list is opaque, so instances are boxed''),
     Rule RuleDynamicClassConstruct ''4.4'' ScopeClass False True
       (''three-argument type(name, bases, ns) builds a class the analysis cannot lay out''),
     Rule RuleClassDecoratorOpaque ''4.4'' ScopeClass False True
       (''a class decorator that returns a different object than it received is opaque''),
     Rule RuleClassReassignment ''15'' ScopeClass False True
       (''assigning obj.__class__ opens both classes involved''),
     Rule RuleFrameWalkerDirect ''4.5'' ScopeUnit False True
       (''sys._getframe or inspect.currentframe observes the live frame, which the static tier has no dictionary for''),
     Rule RuleLocalsCall ''4.5'' ScopeUnit False True
       (''locals() has no dictionary to return when locals are Go variables''),
     Rule RuleFrameWalkerCaller ''4.5'' ScopeProgram False False
       (''a caller of a frame-walker is observable, so it emits synthetic-frame tables''),
     Rule RuleDynamicImport ''4.6'' ScopeRegion False False
       (''a non-constant import becomes a boxed excursion yielding a boxed module object''),
     Rule RuleAnyWidth ''4.7'' ScopeRegion True False
       (''an Any with no usable hint flows into boxed excursions operation by operation''),
     Rule RuleDelPossiblyUnbound ''4.8'' ScopeUnit False True
       (''a possibly-unbound read after del needs the boxed frame'' @ [CHR 0x27] @ ''s unbound tracking''),
     Rule RuleStarargsUnknownCallee ''4.8'' ScopeRegion False False
       (''f(*args, **kwargs) on an untyped callee is a boxed excursion at the call site''),
     Rule RuleGetattrHook ''4.8'' ScopeClass False True
       (''__getattr__ or __getattribute__ on a class means instances cannot honor a static layout''),
     Rule RuleSetattrHook ''4.8'' ScopeClass False True
       (''__setattr__ on a class means a static layout cannot honor per-access hooks''),
     Rule RuleGetattributeHook ''4.8'' ScopeClass False True
       (''__getattribute__ on a class intercepts every access, so instances are boxed''),
     Rule RuleDescriptorUnmodeled ''4.8'' ScopeRegion False False
       (''an unmodeled side-effecting descriptor lowers that access to the boxed descriptor path''),
     Rule RuleInheritBoxedBase ''4.8'' ScopeClass False True
       (''a subclass of a boxed class is boxed, since struct embedding cannot extend a compact-dict instance''),
     Rule RuleDecoratorOpaque ''15'' ScopeUnit False False
       (''an unmodeled decorator binds the name to a boxed callable; the body may still be static behind it''),
     Rule RuleModuleNameRedefined ''4.8'' ScopeUnit False True
       (''a module-level name defined more than once resolves through its module variable, so each def is boxed and the last binding to run wins''),
     Rule RuleExcursionBudget ''5.6'' ScopeUnit False False
       (''the unit'' @ [CHR 0x27] @ ''s boxed excursions exceed the 25 percent budget''),
     Rule RuleCostModel ''5.7'' ScopeUnit False False
       (''the static score is not below 60 percent of the boxed score, so the static form is not worth emitting''),
     Rule RuleGuardBudget ''7.6'' ScopeUnit False False
       (''the planned guards exceed 15 percent of the static score, so the unit spends its time checking assumptions''),
     Rule RuleTierForcedBoxed ''10'' ScopeUnit False False
       (''the build forced the boxed tier, so a unit the cost model would emit static runs boxed for a tier-vs-tier differential'')]"

definition catalog :: "(string \<times> rule) list option" where
  "catalog = fold_opt (\<lambda>r m. case map_of m (rule_ID r) of Some _ \<Rightarrow> None | None \<Rightarrow> Some (m @ [(rule_ID r, r)])) rules []"

definition LookupRule :: "string \<Rightarrow> rule option" where
  "LookupRule i = (case catalog of None \<Rightarrow> None | Some m \<Rightarrow> map_of m i)"

text \<open>\<^const>\<open>None\<close> is the panic on an unknown id.\<close>

definition MustRule :: "string \<Rightarrow> rule option" where
  "MustRule i = LookupRule i"

definition AllRules :: "rule list" where
  "AllRules = (case catalog of None \<Rightarrow> [] | Some m \<Rightarrow> sort_slice (\<lambda>a b. rule_ID a < rule_ID b) (map snd m))"

section \<open>States\<close>

datatype state = StaticProven | StaticWithExcursions | BoxedByCensus | BoxedByCost

fun state_String :: "state \<Rightarrow> string" where
  "state_String StaticProven = ''StaticProven''"
| "state_String StaticWithExcursions = ''StaticWithExcursions''"
| "state_String BoxedByCensus = ''BoxedByCensus''"
| "state_String BoxedByCost = ''BoxedByCost''"

definition IsStatic :: "state \<Rightarrow> bool" where
  "IsStatic s \<longleftrightarrow> s = StaticProven \<or> s = StaticWithExcursions"

fun state_Tier :: "state \<Rightarrow> string" where
  "state_Tier StaticProven = ''static''"
| "state_Tier StaticWithExcursions = ''static+excursions''"
| "state_Tier _ = ''boxed''"

section \<open>The catalog is total\<close>

lemma catalog_fold:
  assumes "distinct (map rule_ID (map snd m @ rs))" and "map fst m = map rule_ID (map snd m)"
  shows "fold_opt (\<lambda>r m. case map_of m (rule_ID r) of Some _ \<Rightarrow> None | None \<Rightarrow> Some (m @ [(rule_ID r, r)])) rs m =
    Some (m @ map (\<lambda>r. (rule_ID r, r)) rs)"
  using assms
proof (induction rs arbitrary: m)
  case (Cons r rs)
  have "rule_ID r \<notin> set (map fst m)" using Cons.prems by auto
  then have "map_of m (rule_ID r) = None" by (simp add: map_of_eq_None_iff)
  moreover have "fold_opt (\<lambda>r m. case map_of m (rule_ID r) of Some _ \<Rightarrow> None | None \<Rightarrow> Some (m @ [(rule_ID r, r)])) rs
      (m @ [(rule_ID r, r)]) = Some ((m @ [(rule_ID r, r)]) @ map (\<lambda>r. (rule_ID r, r)) rs)"
    by (rule Cons.IH) (use Cons.prems in auto)
  ultimately show ?case by simp
qed simp

lemma rule_ids_distinct: "distinct (map rule_ID rules)"
  by (simp add: rules_def rule_ids)

lemma catalog_eq: "catalog = Some (map (\<lambda>r. (rule_ID r, r)) rules)"
  using catalog_fold [of "[]" rules] rule_ids_distinct by (simp add: catalog_def)

lemma LookupRule_rules: "LookupRule i = map_of (map (\<lambda>r. (rule_ID r, r)) rules) i"
  by (simp add: LookupRule_def catalog_eq)

lemma MustRule_rules: "r \<in> set rules \<Longrightarrow> MustRule (rule_ID r) = Some r"
  unfolding MustRule_def LookupRule_rules using rule_ids_distinct
  by (intro map_of_is_SomeI) (auto simp: comp_def)

lemma AllRules_sorted:
  "AllRules = sort_key rule_ID rules" "sorted_wrt (\<lambda>a b. rule_ID a < rule_ID b) AllRules"
proof -
  show eq: "AllRules = sort_key rule_ID rules" by (simp add: AllRules_def catalog_eq sort_slice_key comp_def)
  have "sorted_wrt (<) (map rule_ID (sort_key rule_ID rules))"
    using rule_ids_distinct by (simp add: strict_sorted_iff distinct_map inj_on_def)
  then show "sorted_wrt (\<lambda>a b. rule_ID a < rule_ID b) AllRules" by (simp add: eq sorted_wrt_map)
qed

text \<open>C23: the catalog is a single source of truth. The initialiser that registers the rules never panics on a
  duplicate id; \<open>MustRule\<close> returns, for every id, exactly the declared rule that carries it, so that it panics on precisely
  the ids no rule carries; every rule id constant a fire site can name is one that is carried, once; and \<open>AllRules\<close> lists
  every rule once in strictly ascending id order.\<close>
theorem catalog_complete:
  "catalog \<noteq> None \<and>
   (\<forall>i r. MustRule i = Some r \<longleftrightarrow> r \<in> set rules \<and> rule_ID r = i) \<and>
   map rule_ID rules = [
     RuleEvalDynamicSource, RuleExecDynamicSource, RuleCompileDynamicSource, RuleSetattrDynamic,
     RuleDictWriteDynamic, RuleVarsMutation, RuleCrossModuleRebind, RuleCrossModuleRebindWild,
     RuleMetaclassOpaque, RuleDynamicClassConstruct, RuleClassDecoratorOpaque, RuleClassReassignment,
     RuleFrameWalkerDirect, RuleLocalsCall, RuleFrameWalkerCaller, RuleDynamicImport,
     RuleAnyWidth, RuleDelPossiblyUnbound, RuleStarargsUnknownCallee, RuleGetattrHook,
     RuleSetattrHook, RuleGetattributeHook, RuleDescriptorUnmodeled, RuleInheritBoxedBase,
     RuleDecoratorOpaque, RuleModuleNameRedefined, RuleExcursionBudget, RuleCostModel,
     RuleGuardBudget, RuleTierForcedBoxed] \<and> distinct (map rule_ID rules) \<and>
   mset AllRules = mset rules \<and> sorted_wrt (\<lambda>a b. rule_ID a < rule_ID b) AllRules"
proof (intro conjI allI)
  show "MustRule i = Some r \<longleftrightarrow> r \<in> set rules \<and> rule_ID r = i" for i r
    using MustRule_rules [of r] by (auto simp: MustRule_def LookupRule_rules dest: map_of_SomeD)
  show "distinct (map rule_ID rules)" by (rule rule_ids_distinct)
  show "sorted_wrt (\<lambda>a b. rule_ID a < rule_ID b) AllRules" by (rule AllRules_sorted(2))
qed (simp_all add: catalog_eq AllRules_sorted(1), simp only: rules_def list.map rule.sel)

end
