(* ===== verification/Census.thy ===== *)
theory Census
  imports Rules "HOL-Library.AList" "HOL-Library.Product_Lexorder"
begin

text \<open>
  \<^verbatim>\<open>pkg/partition/census.go\<close>: the facts the IR pass records against partition units and the
  whole-program side tables they imply.

  The Go maps are partial functions where only lookups matter and association lists where the
  code ranges over them; \<open>Record\<close> returns \<^const>\<open>None\<close> where \<open>MustRule\<close> panics. The theorems show that the
  side tables only grow, that a class never closes again and keeps the first reason, and that
  \<open>Units\<close> lists every recorded unit once, in an order that does not depend on map iteration.
\<close>

section \<open>Units and facts\<close>

record part_unit =
  unit_Module :: string
  unit_Name :: string
  unit_Span :: span
  unit_Offset :: int

definition nul :: string where
  "nul = [CHR 0x00]"

definition unit_Key :: "part_unit \<Rightarrow> string" where
  "unit_Key u = unit_Module u @ nul @ unit_Name u @ nul @ itoa (unit_Offset u)"

definition unit_String :: "part_unit \<Rightarrow> string" where
  "unit_String u = unit_Module u @ ''.'' @ unit_Name u @ ''  '' @ span_String (unit_Span u)"

datatype fact = Fact (fact_Rule: string) (fact_Span: span) (fact_Target: string)

datatype open_reason = OpenReason (open_Rule: string) (open_Span: span)

record census =
  facts :: "string \<Rightarrow> fact list option"
  units :: "(string \<times> part_unit) list"
  opened :: "string \<Rightarrow> open_reason option"
  poison :: "string \<Rightarrow> open_reason option"
  rebind :: "string \<Rightarrow> bool option"
  walkers :: "string \<Rightarrow> bool option"

definition NewCensus :: census where
  "NewCensus = \<lparr>facts = (\<lambda>_. None), units = [], opened = (\<lambda>_. None), poison = (\<lambda>_. None),
     rebind = (\<lambda>_. None), walkers = (\<lambda>_. None)\<rparr>"

definition Facts :: "census \<Rightarrow> part_unit \<Rightarrow> fact list" where
  "Facts c u = (case facts c (unit_Key u) of Some fs \<Rightarrow> fs | None \<Rightarrow> [])"

definition record_scope :: "rule \<Rightarrow> fact \<Rightarrow> census \<Rightarrow> census" where
  "record_scope r f c =
     (case rule_Scope r of
        ScopeClass \<Rightarrow>
          if fact_Target f \<noteq> [] \<and> opened c (fact_Target f) = None
          then c\<lparr>opened := (opened c)(fact_Target f \<mapsto> OpenReason (fact_Rule f) (fact_Span f))\<rparr> else c
      | ScopeModule \<Rightarrow>
          if fact_Target f \<noteq> [] \<and> poison c (fact_Target f) = None
          then c\<lparr>poison := (poison c)(fact_Target f \<mapsto> OpenReason (fact_Rule f) (fact_Span f))\<rparr> else c
      | ScopeBinding \<Rightarrow>
          if fact_Target f \<noteq> [] then c\<lparr>rebind := (rebind c)(fact_Target f \<mapsto> True)\<rparr> else c
      | _ \<Rightarrow> c)"

definition Record :: "part_unit \<Rightarrow> fact \<Rightarrow> census \<Rightarrow> census option" where
  "Record u f c = do {
     rule \<leftarrow> MustRule (fact_Rule f);
     let c1 = c\<lparr>units := AList.update (unit_Key u) u (units c),
                facts := (facts c)(unit_Key u \<mapsto> Facts c u @ [f])\<rparr>;
     let c2 = record_scope rule f c1;
     Some (if fact_Rule f = RuleFrameWalkerDirect \<or> fact_Rule f = RuleLocalsCall
           then c2\<lparr>walkers := (walkers c2)(unit_Key u \<mapsto> True)\<rparr> else c2)
   }"

definition ClassClosed :: "census \<Rightarrow> string \<Rightarrow> bool" where
  "ClassClosed c cls \<longleftrightarrow> opened c cls = None"

definition ClassOpenedBy :: "census \<Rightarrow> string \<Rightarrow> (string \<times> span) option" where
  "ClassOpenedBy c cls = map_option (\<lambda>r. (open_Rule r, open_Span r)) (opened c cls)"

definition ModulePoisoned :: "census \<Rightarrow> string \<Rightarrow> bool" where
  "ModulePoisoned c m \<longleftrightarrow> poison c m \<noteq> None"

definition BindingRebindable :: "census \<Rightarrow> string \<Rightarrow> bool" where
  "BindingRebindable c n = (case rebind c n of Some b \<Rightarrow> b | None \<Rightarrow> False)"

definition CallsFrameWalker :: "census \<Rightarrow> part_unit \<Rightarrow> bool" where
  "CallsFrameWalker c u = (case walkers c (unit_Key u) of Some b \<Rightarrow> b | None \<Rightarrow> False)"

definition unit_less :: "part_unit \<Rightarrow> part_unit \<Rightarrow> bool" where
  "unit_less a b =
     (if unit_Module a \<noteq> unit_Module b then unit_Module a < unit_Module b
      else if unit_Offset a \<noteq> unit_Offset b then unit_Offset a < unit_Offset b
      else if unit_Name a \<noteq> unit_Name b then unit_Name a < unit_Name b
      else unit_Key a < unit_Key b)"

definition Units :: "census \<Rightarrow> part_unit list" where
  "Units c = sort_slice unit_less (map snd (units c))"

section \<open>Unit keys\<close>

definition plain_name :: "string \<Rightarrow> bool" where
  "plain_name s \<longleftrightarrow> CHR 0x00 \<notin> set s"

lemma split_nul:
  assumes "plain_name a" "plain_name b" "a @ nul @ x = b @ nul @ y"
  shows "a = b \<and> x = y"
  using assms
proof (induction a arbitrary: b)
  case Nil
  then show ?case by (cases b) (auto simp: plain_name_def nul_def)
next
  case (Cons c a)
  then show ?case by (cases b) (auto simp: plain_name_def nul_def)
qed

text \<open>C26: a unit's key identifies it: for module and unit names without a NUL byte the key determines
  module, name and offset, so two same-named nested units get different keys.\<close>
theorem unit_Key_injective:
  assumes "plain_name (unit_Module u)" "plain_name (unit_Name u)" "plain_name (unit_Module v)" "plain_name (unit_Name v)"
  shows "unit_Key u = unit_Key v \<longleftrightarrow>
    unit_Module u = unit_Module v \<and> unit_Name u = unit_Name v \<and> unit_Offset u = unit_Offset v"
proof
  assume "unit_Key u = unit_Key v"
  then have k: "unit_Module u = unit_Module v \<and>
      unit_Name u @ nul @ itoa (unit_Offset u) = unit_Name v @ nul @ itoa (unit_Offset v)"
    unfolding unit_Key_def by (rule split_nul [OF assms(1,3)])
  have "unit_Name u = unit_Name v \<and> itoa (unit_Offset u) = itoa (unit_Offset v)"
    by (rule split_nul [OF assms(2,4) conjunct2 [OF k]])
  with k show "unit_Module u = unit_Module v \<and> unit_Name u = unit_Name v \<and> unit_Offset u = unit_Offset v" by simp
qed (simp add: unit_Key_def)

theorem unit_Key_injective_witness:
  "unit_Key \<lparr>unit_Module = ''m'', unit_Name = ''f'', unit_Span = \<lparr>File = [], Line = 0, Col = 0\<rparr>, unit_Offset = 12\<rparr> \<noteq>
   unit_Key \<lparr>unit_Module = ''m'', unit_Name = ''f'', unit_Span = \<lparr>File = [], Line = 0, Col = 0\<rparr>, unit_Offset = 40\<rparr>"
  using unit_Key_injective
    [of "\<lparr>unit_Module = ''m'', unit_Name = ''f'', unit_Span = \<lparr>File = [], Line = 0, Col = 0\<rparr>, unit_Offset = 12\<rparr>"
      "\<lparr>unit_Module = ''m'', unit_Name = ''f'', unit_Span = \<lparr>File = [], Line = 0, Col = 0\<rparr>, unit_Offset = 40\<rparr>"]
  by (simp add: plain_name_def)

section \<open>The tables only grow\<close>

text \<open>\<open>recorded c us c'\<close>: \<open>c'\<close> is \<open>c\<close> after a run of \<open>Record\<close> calls.\<close>

inductive recorded :: "census \<Rightarrow> census \<Rightarrow> bool" where
  start: "recorded c c"
| more: "recorded c c' \<Longrightarrow> Record u f c' = Some c'' \<Longrightarrow> recorded c c''"

lemma record_scope_units: "units (record_scope r f c) = units c"
  by (cases "rule_Scope r") (simp_all add: record_scope_def)

lemma Record_units: "Record u f c = Some c' \<Longrightarrow> units c' = AList.update (unit_Key u) u (units c)"
  by (cases "MustRule (fact_Rule f)") (auto simp: Record_def Let_def record_scope_units)

lemma Record_grows:
  assumes "Record u f c = Some c'"
  shows "opened c \<subseteq>\<^sub>m opened c'" "poison c \<subseteq>\<^sub>m poison c'" "BindingRebindable c n \<Longrightarrow> BindingRebindable c' n"
    "CallsFrameWalker c v \<Longrightarrow> CallsFrameWalker c' v" "\<exists>fs. Facts c' v = Facts c v @ fs"
    "Facts c' u = Facts c u @ [f]" "map_of (units c') (unit_Key u) = Some u"
    "set (map fst (units c')) = insert (unit_Key u) (set (map fst (units c)))"
    "distinct (map fst (units c)) \<Longrightarrow> distinct (map fst (units c'))"
proof -
  obtain r where r: "MustRule (fact_Rule f) = Some r" using assms by (auto simp: Record_def bind_eq_Some_conv)
  define c1 where "c1 = c\<lparr>units := AList.update (unit_Key u) u (units c), facts := (facts c)(unit_Key u \<mapsto> Facts c u @ [f])\<rparr>"
  define c2 where "c2 = record_scope r f c1"
  have c': "c' = c2 \<or> c' = c2\<lparr>walkers := (walkers c2)(unit_Key u \<mapsto> True)\<rparr>"
    using assms r unfolding Record_def c1_def [symmetric] Let_def by (simp add: c2_def split: if_splits)
  have 2: "opened c \<subseteq>\<^sub>m opened c2" "poison c \<subseteq>\<^sub>m poison c2" "rebind c2 = rebind c \<or> (\<exists>t. rebind c2 = (rebind c)(t \<mapsto> True))"
    "walkers c2 = walkers c" "facts c2 = facts c1"
    by (cases "rule_Scope r"; auto simp: c2_def record_scope_def c1_def map_le_def)+
  then show "opened c \<subseteq>\<^sub>m opened c'" "poison c \<subseteq>\<^sub>m poison c'" using c' by auto
  show "BindingRebindable c n \<Longrightarrow> BindingRebindable c' n"
    using c' 2(3) by (auto simp: BindingRebindable_def split: option.splits if_splits)
  show "CallsFrameWalker c v \<Longrightarrow> CallsFrameWalker c' v"
    using c' 2(4) by (auto simp: CallsFrameWalker_def split: option.splits if_splits)
  show "\<exists>fs. Facts c' v = Facts c v @ fs" "Facts c' u = Facts c u @ [f]"
    using c' 2(5) by (auto simp: Facts_def c1_def split: option.splits if_splits)
  note u' = Record_units [OF assms]
  show "map_of (units c') (unit_Key u) = Some u" "set (map fst (units c')) = insert (unit_Key u) (set (map fst (units c)))"
    "distinct (map fst (units c)) \<Longrightarrow> distinct (map fst (units c'))"
    using u' by (auto simp: update_conv' distinct_update dom_update)
qed

lemma recorded_grows:
  assumes "recorded c c'"
  shows "opened c \<subseteq>\<^sub>m opened c' \<and> poison c \<subseteq>\<^sub>m poison c' \<and> (\<forall>n. BindingRebindable c n \<longrightarrow> BindingRebindable c' n) \<and>
    (\<forall>u. CallsFrameWalker c u \<longrightarrow> CallsFrameWalker c' u) \<and> (\<forall>u. \<exists>fs. Facts c' u = Facts c u @ fs)"
  using assms
proof (induction rule: recorded.induct)
  case (more c c' u f c'')
  note g = Record_grows [OF more(2)]
  have "\<exists>fs. Facts c'' v = Facts c v @ fs" for v using more.IH g(5) [of v] by (metis append.assoc)
  then show ?case using more.IH g(1-4) map_le_trans by blast
qed simp

text \<open>C24: the census is monotone. Whatever is recorded later, a class that has been opened stays open and keeps the
  rule and span that first opened it, a poisoned module stays poisoned, a rebindable binding
  stays rebindable, a frame-walking unit stays marked, and a unit's facts are only appended to.\<close>
theorem census_monotone:
  assumes "recorded c c'"
  shows "(ClassClosed c' cls \<longrightarrow> ClassClosed c cls) \<and>
    (ClassOpenedBy c cls = None \<or> ClassOpenedBy c' cls = ClassOpenedBy c cls) \<and>
    (ModulePoisoned c m \<longrightarrow> ModulePoisoned c' m) \<and> (BindingRebindable c n \<longrightarrow> BindingRebindable c' n) \<and>
    (CallsFrameWalker c u \<longrightarrow> CallsFrameWalker c' u) \<and> (\<exists>fs. Facts c' u = Facts c u @ fs)"
proof -
  note g = recorded_grows [OF assms]
  have o: "opened c cls = None \<or> opened c' cls = opened c cls"
    using g by (cases "opened c cls") (auto simp: map_le_def dom_def)
  have "poison c m = None \<or> poison c' m = poison c m"
    using g by (cases "poison c m") (auto simp: map_le_def dom_def)
  with o g show ?thesis by (cases "opened c cls"; cases "poison c m") (auto simp: ClassClosed_def ClassOpenedBy_def ModulePoisoned_def)
qed

definition demo_unit :: "int \<Rightarrow> part_unit" where
  "demo_unit n = \<lparr>unit_Module = ''m'', unit_Name = ''f'', unit_Span = \<lparr>File = ''m.py'', Line = 1, Col = 1\<rparr>, unit_Offset = n\<rparr>"

definition demo_fact :: "string \<Rightarrow> fact" where
  "demo_fact c = Fact RuleSetattrDynamic \<lparr>File = ''m.py'', Line = 2, Col = 5\<rparr> c"

lemma demo_rule: "\<exists>r. MustRule RuleSetattrDynamic = Some r \<and> rule_Scope r = ScopeClass"
  by (simp add: MustRule_def LookupRule_rules rules_def rule_ids)

theorem census_monotone_witness:
  "\<exists>c c'. Record (demo_unit 0) (demo_fact ''C'') NewCensus = Some c \<and> Record (demo_unit 9) (demo_fact ''C'') c = Some c' \<and>
     ClassClosed NewCensus ''C'' \<and> \<not> ClassClosed c' ''C'' \<and> ClassOpenedBy c' ''C'' = ClassOpenedBy c ''C''"
proof -
  obtain c where c: "Record (demo_unit 0) (demo_fact ''C'') NewCensus = Some c" "ClassOpenedBy c ''C'' \<noteq> None"
    using demo_rule by (auto simp: Record_def demo_fact_def record_scope_def ClassOpenedBy_def NewCensus_def Let_def)
  then obtain c' where c': "Record (demo_unit 9) (demo_fact ''C'') c = Some c'"
    using demo_rule by (auto simp: Record_def demo_fact_def Let_def)
  have "recorded c c'" by (rule recorded.more [OF recorded.start c'])
  note m = census_monotone [OF this, of "''C''"]
  then have "\<not> ClassClosed c' ''C''" "ClassOpenedBy c' ''C'' = ClassOpenedBy c ''C''"
    using c(2) by (auto simp: ClassClosed_def ClassOpenedBy_def)
  moreover have "ClassClosed NewCensus ''C''" by (simp add: ClassClosed_def NewCensus_def)
  ultimately show ?thesis using c(1) c' by (intro exI conjI)
qed

section \<open>Processing order\<close>

text \<open>The unit table maps keys to units with that key.\<close>

definition units_ok :: "census \<Rightarrow> bool" where
  "units_ok c \<longleftrightarrow> distinct (map fst (units c)) \<and> list_all (\<lambda>(k, u). k = unit_Key u) (units c)"

definition unit_rank :: "part_unit \<Rightarrow> string \<times> int \<times> string \<times> string" where
  "unit_rank u = (unit_Module u, unit_Offset u, unit_Name u, unit_Key u)"

lemma unit_less_rank: "unit_less = (\<lambda>a b. unit_rank a < unit_rank b)"
  by (intro ext) (auto simp: unit_less_def unit_rank_def)

lemma Units_sort: "Units c = sort_key unit_rank (map snd (units c))"
  unfolding Units_def unit_less_rank by (rule sort_slice_key)

lemma set_update_sub: "set (AList.update k v al) \<subseteq> insert (k, v) (set al)"
  by (induction al) auto

lemma units_ok_update: "units_ok c \<Longrightarrow> units c' = AList.update (unit_Key u) u (units c) \<Longrightarrow> units_ok c'"
  using set_update_sub [of "unit_Key u" u "units c"] by (auto simp: units_ok_def list_all_iff distinct_update)

lemma recorded_units_ok: "recorded c c' \<Longrightarrow> units_ok c \<Longrightarrow> units_ok c'"
  by (induction rule: recorded.induct) (auto dest: Record_units units_ok_update)

lemma units_keys: "units_ok c \<Longrightarrow> map fst (units c) = map unit_Key (map snd (units c))"
  by (auto simp: units_ok_def list_all_iff)

lemma units_inj: "units_ok c \<Longrightarrow> distinct (map snd (units c)) \<and> inj_on unit_rank (set (map snd (units c)))"
proof -
  assume ok: "units_ok c"
  then have "distinct (map unit_Key (map snd (units c)))" by (metis units_keys units_ok_def)
  then have "distinct (map snd (units c))" "inj_on unit_Key (set (map snd (units c)))" by (simp_all only: distinct_map)
  then show ?thesis by (auto simp: inj_on_def unit_rank_def)
qed

text \<open>C25: the processing order is deterministic. Two censuses built from the empty one that know the same units, however their
  maps are laid out, list them identically; the list holds each known unit once, in strictly ascending order.\<close>
theorem Units_deterministic:
  assumes "recorded NewCensus c" "recorded NewCensus c'" "map_of (units c) = map_of (units c')"
  shows "Units c = Units c' \<and> sorted_wrt unit_less (Units c) \<and> set (Units c) = ran (map_of (units c))"
proof -
  have "units_ok NewCensus" by (simp add: units_ok_def NewCensus_def)
  then have ok: "units_ok c" "units_ok c'" using assms recorded_units_ok by blast+
  then have d: "distinct (map fst (units c))" "distinct (map fst (units c'))" by (simp_all add: units_ok_def)
  then have "set (units c) = set (units c')" using assms(3) map_of_inject_set by blast
  then have "mset (units c) = mset (units c')" using d by (simp add: set_eq_iff_mset_eq_distinct [symmetric] distinct_map)
  then have "mset (map snd (units c)) = mset (map snd (units c'))" by simp
  then have eq: "Units c = Units c'" unfolding Units_sort using units_inj [OF ok(1)] by (intro sort_key_perm) auto
  have "distinct (map unit_rank (Units c))"
    unfolding Units_sort using units_inj [OF ok(1)] by (simp add: distinct_map)
  moreover have "sorted (map unit_rank (Units c))" unfolding Units_sort by (rule sorted_sort_key)
  ultimately have "sorted_wrt (<) (map unit_rank (Units c))" by (simp only: strict_sorted_iff)
  then have "sorted_wrt unit_less (Units c)" unfolding unit_less_rank by (simp add: sorted_wrt_map)
  moreover have "set (Units c) = ran (map_of (units c))"
    unfolding Units_sort using ok(1) by (simp add: units_ok_def ran_distinct)
  ultimately show ?thesis using eq by blast
qed

theorem Units_deterministic_witness:
  "\<exists>c. Record (demo_unit 0) (demo_fact ''C'') NewCensus = Some c \<and> Units c = [demo_unit 0] \<and> sorted_wrt unit_less (Units c)"
proof -
  obtain c where c: "Record (demo_unit 0) (demo_fact ''C'') NewCensus = Some c"
    using demo_rule by (auto simp: Record_def demo_fact_def Let_def)
  have u: "units c = [(unit_Key (demo_unit 0), demo_unit 0)]" using Record_units [OF c] by (simp add: NewCensus_def)
  have "recorded NewCensus c" by (rule recorded.more [OF recorded.start c])
  note d = Units_deterministic [OF this this refl]
  moreover have "Units c = [demo_unit 0]" by (simp add: Units_sort u)
  ultimately show ?thesis using c by blast
qed

end
