(* ===== verification/Static_Tier.thy ===== *)
theory Static_Tier
  imports Prelude "HOL-Library.Signed_Division"
begin

text \<open>
  \<^verbatim>\<open>pkg/runtime/statictier.go\<close>: the overflow-checked int64 helpers the static tier calls.
  A Go \<open>int64\<close> is a \<open>64 word\<close> read through \<^const>\<open>sint\<close>; \<open>+\<close>, \<open>-\<close> and \<open>*\<close> wrap as in Go.
  Go's \<open>/\<close> and \<open>%\<close> truncate toward zero and panic on a zero divisor, which is \<^const>\<open>None\<close>.
  Python's ints are \<^typ>\<open>int\<close>, whose \<open>div\<close> and \<open>mod\<close> floor as \<open>//\<close> and \<open>%\<close> do.
\<close>

type_synonym int64 = "64 word"

definition in64 :: "int \<Rightarrow> bool" where
  "in64 x \<longleftrightarrow> - (2 ^ 63) \<le> x \<and> x < 2 ^ 63"

definition MinInt64 :: int64 where
  "MinInt64 = word_of_int (- (2 ^ 63))"

definition go_quo :: "int64 \<Rightarrow> int64 \<Rightarrow> int64 option" where
  "go_quo a b = (if b = 0 then None else Some (word_of_int (sint a sdiv sint b)))"

definition go_rem :: "int64 \<Rightarrow> int64 \<Rightarrow> int64 option" where
  "go_rem a b = (if b = 0 then None else Some (word_of_int (sint a smod sint b)))"

definition AddInt64 :: "int64 \<Rightarrow> int64 \<Rightarrow> int64 \<times> bool" where
  "AddInt64 a b =
     (let s = a + b
      in (s, ((0 \<le> sint a) = (0 \<le> sint b)) \<and> ((0 \<le> sint s) \<noteq> (0 \<le> sint a))))"

definition SubInt64 :: "int64 \<Rightarrow> int64 \<Rightarrow> int64 \<times> bool" where
  "SubInt64 a b =
     (let d = a - b
      in (d, ((0 \<le> sint a) \<noteq> (0 \<le> sint b)) \<and> ((0 \<le> sint d) \<noteq> (0 \<le> sint a))))"

definition MulInt64 :: "int64 \<Rightarrow> int64 \<Rightarrow> int64 \<times> bool" where
  "MulInt64 a b =
     (if a = 0 \<or> b = 0 then (0, False)
      else let p = a * b
           in if (a = MinInt64 \<and> b = -1) \<or> (b = MinInt64 \<and> a = -1) then (p, True)
              else (p, go_quo p a \<noteq> Some b))"

definition FloorDivInt64 :: "int64 \<Rightarrow> int64 \<Rightarrow> (int64 \<times> bool) option" where
  "FloorDivInt64 a b =
     (if a = MinInt64 \<and> b = -1 then Some (0, True)
      else do {
        q \<leftarrow> go_quo a b;
        r \<leftarrow> go_rem a b;
        Some (if r \<noteq> 0 \<and> (sint a < 0) \<noteq> (sint b < 0) then q - 1 else q, False)
      })"

definition FloorModInt64 :: "int64 \<Rightarrow> int64 \<Rightarrow> int64 option" where
  "FloorModInt64 a b =
     do {
       r \<leftarrow> go_rem a b;
       Some (if r \<noteq> 0 \<and> (sint r < 0) \<noteq> (sint b < 0) then r + b else r)
     }"

text \<open>The squaring loop of \<open>PowInt64\<close>: one round multiplies the odd bit in, halves the
  exponent and squares the base only while a further round will use it.\<close>

function pow_loop :: "int64 \<Rightarrow> int64 \<Rightarrow> int64 \<Rightarrow> int64 \<times> bool" where
  "pow_loop result base e =
     (if 0 < sint e then
        let (v, ovf) = (if e AND 1 = 1 then MulInt64 result base else (result, False))
        in if ovf then (0, True)
           else
             let e' = signed_drop_bit 1 e
             in if 0 < sint e' then
                  let (b2, ovf2) = MulInt64 base base
                  in if ovf2 then (0, True) else pow_loop v b2 e'
                else pow_loop v base e'
      else (result, False))"
  by pat_completeness auto
termination
  by (relation "measure (\<lambda>(r, b, e). nat (sint e))")
    (auto simp: sint_signed_drop_bit_eq drop_bit_Suc)

declare pow_loop.simps [simp del]

definition PowInt64 :: "int64 \<Rightarrow> int64 \<Rightarrow> int64 \<times> bool" where
  "PowInt64 a b = (if sint b < 0 then (0, True) else pow_loop 1 a b)"

definition LShiftInt64 :: "int64 \<Rightarrow> int64 \<Rightarrow> int64 \<times> bool" where
  "LShiftInt64 a b =
     (if a = 0 then (0, False)
      else let r = push_bit (unat b) a
           in if signed_drop_bit (unat b) r \<noteq> a then (0, True) else (r, False))"

definition RShiftInt64 :: "int64 \<Rightarrow> int64 \<Rightarrow> int64" where
  "RShiftInt64 a b = signed_drop_bit (unat b) a"

definition BoolToInt :: "bool \<Rightarrow> int64" where
  "BoolToInt b = (if b then 1 else 0)"

definition OrInt64 :: "int64 \<Rightarrow> int64 \<Rightarrow> int64" where
  "OrInt64 a b = (if a \<noteq> 0 then a else b)"

definition AndInt64 :: "int64 \<Rightarrow> int64 \<Rightarrow> int64" where
  "AndInt64 a b = (if a = 0 then a else b)"

definition OrStr :: "string \<Rightarrow> string \<Rightarrow> string" where
  "OrStr a b = (if a \<noteq> [] then a else b)"

definition AndStr :: "string \<Rightarrow> string \<Rightarrow> string" where
  "AndStr a b = (if a = [] then a else b)"

section \<open>The signed reading of a 64-bit word\<close>

lemma in64_sint [simp]: "in64 (sint (a :: int64))"
  using sint_ge [of a] sint_lt [of a] by (simp add: in64_def)

lemma sint_word_of_int: "sint (word_of_int x :: int64) = signed_take_bit 63 x"
  by (simp add: sint_sbintrunc')

lemma in64_0: "in64 0"
  by (simp add: in64_def)

lemma wrap_self: "in64 x \<Longrightarrow> signed_take_bit 63 x = x"
  by (simp add: in64_def signed_take_bit_int_eq_self)

lemma sint_word_of_int_in64 [simp]: "in64 x \<Longrightarrow> sint (word_of_int x :: int64) = x"
  by (simp add: sint_word_of_int wrap_self)

lemma wrap_eq: "signed_take_bit 63 x = (x + 2 ^ 63) mod 2 ^ 64 - 2 ^ 63"
  for x :: int
  by (simp add: signed_take_bit_eq_take_bit_shift take_bit_eq_mod)

lemma wrap_cong: "2 ^ 64 dvd (x - signed_take_bit 63 x)"
  for x :: int
proof -
  have "x - signed_take_bit 63 x = 2 ^ 64 * ((x + 2 ^ 63) div 2 ^ 64)"
    unfolding wrap_eq using mult_div_mod_eq [of "2 ^ 64" "x + 2 ^ 63"] by linarith
  then show ?thesis by simp
qed

lemma wrap_cases:
  fixes x :: int
  assumes "- (2 ^ 64) \<le> x" and "x < 2 ^ 64"
  shows "signed_take_bit 63 x =
    (if x < - (2 ^ 63) then x + 2 ^ 64 else if 2 ^ 63 \<le> x then x - 2 ^ 64 else x)"
proof -
  consider "x < - (2 ^ 63)" | "2 ^ 63 \<le> x" | "in64 x" by (fastforce simp: in64_def)
  then show ?thesis
  proof cases
    case 1
    with assms have "(x + 2 ^ 63) mod 2 ^ 64 = x + 2 ^ 63 + 2 ^ 64"
      by (intro int_mod_pos_eq [where q = "-1"]) simp_all
    with 1 show ?thesis by (simp add: wrap_eq)
  next
    case 2
    with assms have "(x + 2 ^ 63) mod 2 ^ 64 = x + 2 ^ 63 - 2 ^ 64"
      by (intro int_mod_pos_eq [where q = "1"]) simp_all
    with 2 show ?thesis by (simp add: wrap_eq)
  next
    case 3
    then show ?thesis by (auto simp: wrap_self in64_def)
  qed
qed

lemma sint_eq_iff64: "sint (a :: int64) = sint b \<longleftrightarrow> a = b"
  by (rule signed_word_eqI [THEN iffI]) auto

lemma sint_MinInt64 [simp]: "sint MinInt64 = - (2 ^ 63)"
  by (simp add: MinInt64_def in64_def)

lemma eq_MinInt64_iff: "a = MinInt64 \<longleftrightarrow> sint a = - (2 ^ 63)"
  by (metis sint_MinInt64 sint_eq_iff64)

lemma eq_minus_one_iff: "(a :: int64) = -1 \<longleftrightarrow> sint a = -1"
  by (metis sint_eq_iff64 sint_n1)

lemma eq_zero_iff64: "(a :: int64) = 0 \<longleftrightarrow> sint a = 0"
  by (metis sint_eq_iff64 sint_0)

lemma sint_add64: "sint (a + b :: int64) = signed_take_bit 63 (sint a + sint b)"
  by (simp add: sint_word_ariths)

lemma sint_sub64: "sint (a - b :: int64) = signed_take_bit 63 (sint a - sint b)"
  by (simp add: sint_word_ariths)

lemma sint_mul64: "sint (a * b :: int64) = signed_take_bit 63 (sint a * sint b)"
  by (simp add: sint_word_ariths)

section \<open>Exactness of the checked operations\<close>

text \<open>A checked result is exact for an integer when its flag says that the integer does not
  fit and, with the flag clear, its word reads back as the integer.\<close>

definition exact64 :: "int64 \<times> bool \<Rightarrow> int \<Rightarrow> bool" where
  "exact64 r x \<longleftrightarrow> (snd r \<longleftrightarrow> \<not> in64 x) \<and> (\<not> snd r \<longrightarrow> sint (fst r) = x)"

lemma AddInt64_exact: "exact64 (AddInt64 a b) (sint a + sint b)"
proof -
  have "in64 (sint a)" and "in64 (sint b)" by simp_all
  then have "sint (a + b) =
      (let x = sint a + sint b in
        if x < - (2 ^ 63) then x + 2 ^ 64 else if 2 ^ 63 \<le> x then x - 2 ^ 64 else x)"
    unfolding sint_add64 Let_def by (intro wrap_cases) (auto simp: in64_def)
  with \<open>in64 (sint a)\<close> \<open>in64 (sint b)\<close> show ?thesis
    by (auto simp: exact64_def AddInt64_def Let_def in64_def split: if_splits)
qed

lemma SubInt64_exact: "exact64 (SubInt64 a b) (sint a - sint b)"
proof -
  have "in64 (sint a)" and "in64 (sint b)" by simp_all
  then have "sint (a - b) =
      (let x = sint a - sint b in
        if x < - (2 ^ 63) then x + 2 ^ 64 else if 2 ^ 63 \<le> x then x - 2 ^ 64 else x)"
    unfolding sint_sub64 Let_def by (intro wrap_cases) (auto simp: in64_def)
  with \<open>in64 (sint a)\<close> \<open>in64 (sint b)\<close> show ?thesis
    by (auto simp: exact64_def SubInt64_def Let_def in64_def split: if_splits)
qed

text \<open>Truncated division reads the dividend back as quotient times divisor plus a remainder
  smaller than the divisor.\<close>

lemma sdiv_smod_bound:
  fixes p a :: int
  assumes "a \<noteq> 0"
  shows "\<bar>p smod a\<bar> < \<bar>a\<bar>" and "p = a * (p sdiv a) + p smod a"
proof -
  show "p = a * (p sdiv a) + p smod a" by (simp add: mult_sdiv_smod_eq)
  show "\<bar>p smod a\<bar> < \<bar>a\<bar>"
    using assms by (simp add: signed_modulo_int_def abs_mult sgn_if)
qed

lemma sdiv_in64:
  assumes "in64 p" and "in64 a" and "a \<noteq> 0" and "\<not> (p = - (2 ^ 63) \<and> a = -1)"
  shows "in64 (p sdiv a)"
proof (cases "a = -1")
  case True
  with assms show ?thesis by (auto simp: in64_def signed_divide_int_def sgn_if)
next
  case False
  show ?thesis
  proof (cases "a = 1")
    case True
    with assms show ?thesis by (auto simp: in64_def signed_divide_int_def sgn_if)
  next
    case a1: False
    with False assms(3) have "2 \<le> \<bar>a\<bar>" by linarith
    then have "\<bar>p\<bar> div \<bar>a\<bar> \<le> \<bar>p\<bar> div 2" by (intro zdiv_mono2) auto
    moreover have "\<bar>p\<bar> \<le> 2 ^ 63" using assms(1) by (auto simp: in64_def)
    ultimately have "\<bar>p\<bar> div \<bar>a\<bar> \<le> 2 ^ 62" by auto
    moreover have "\<bar>p sdiv a\<bar> = \<bar>p\<bar> div \<bar>a\<bar>" if "p \<noteq> 0"
      using that assms(3) by (simp add: signed_divide_int_def abs_mult sgn_if pos_imp_zdiv_nonneg_iff)
    ultimately show ?thesis
      by (cases "p = 0") (auto simp: in64_def signed_divide_int_def)
  qed
qed

lemma sdiv_mult_cancel:
  fixes a b :: int
  assumes "a \<noteq> 0"
  shows "(a * b) sdiv a = b"
proof -
  have "(a * b) sdiv a = (sgn a * sgn a) * (sgn b * \<bar>b\<bar>)"
    using assms by (simp only: signed_divide_int_def sgn_mult abs_mult) simp
  with assms show ?thesis by (simp add: sgn_mult_self_eq sgn_mult_abs)
qed

lemma MulInt64_exact: "exact64 (MulInt64 a b) (sint a * sint b)"
proof -
  let ?A = "sint a" and ?B = "sint b" and ?P = "sint (a * b)"
  have ranges: "in64 ?A" "in64 ?B" "in64 ?P" by simp_all
  consider (zero) "a = 0 \<or> b = 0"
    | (min) "a \<noteq> 0" "b \<noteq> 0" "(a = MinInt64 \<and> b = -1) \<or> (b = MinInt64 \<and> a = -1)"
    | (gen) "a \<noteq> 0" "b \<noteq> 0" "\<not> (a = MinInt64 \<and> b = -1)" "\<not> (b = MinInt64 \<and> a = -1)"
    by blast
  then show ?thesis
  proof cases
    case zero
    then show ?thesis by (auto simp: exact64_def MulInt64_def in64_def)
  next
    case min
    then have "?A * ?B = 2 ^ 63" by (auto simp: eq_minus_one_iff)
    with min show ?thesis by (auto simp: exact64_def MulInt64_def in64_def)
  next
    case gen
    then have A0: "?A \<noteq> 0" by (simp add: eq_zero_iff64)
    have quo: "go_quo (a * b) a = Some b \<longleftrightarrow> sint (word_of_int (?P sdiv ?A) :: int64) = ?B"
      using gen by (auto simp: go_quo_def sint_eq_iff64)
    have "go_quo (a * b) a = Some b \<longleftrightarrow> in64 (?A * ?B)"
    proof
      assume "in64 (?A * ?B)"
      then have "?P = ?A * ?B" by (simp add: sint_mul64 wrap_self)
      then have "?P sdiv ?A = ?B" using A0 by (simp add: sdiv_mult_cancel)
      then show "go_quo (a * b) a = Some b" by (simp add: quo)
    next
      assume "go_quo (a * b) a = Some b"
      then have q: "sint (word_of_int (?P sdiv ?A) :: int64) = ?B" by (simp add: quo)
      show "in64 (?A * ?B)"
      proof (cases "?P = - (2 ^ 63) \<and> ?A = -1")
        case True
        then have "sint (word_of_int (?P sdiv ?A) :: int64) = - (2 ^ 63)"
          by (simp add: sint_word_of_int signed_divide_int_def sgn_if)
        with q True gen show ?thesis by (simp add: eq_MinInt64_iff eq_minus_one_iff)
      next
        case False
        with ranges A0 have "in64 (?P sdiv ?A)" by (intro sdiv_in64) auto
        with q have "?P sdiv ?A = ?B" by simp
        then have R: "?P = ?A * ?B + ?P smod ?A" "\<bar>?P smod ?A\<bar> < \<bar>?A\<bar>"
          using sdiv_smod_bound [OF A0, of ?P] by simp_all
        have "2 ^ 64 dvd (?A * ?B - ?P)" using wrap_cong [of "?A * ?B"] by (simp add: sint_mul64)
        with R(1) have "2 ^ 64 dvd ?P smod ?A" by (metis add_diff_cancel_left' dvd_minus_iff minus_diff_eq)
        moreover have "\<bar>?P smod ?A\<bar> < 2 ^ 64" using R(2) ranges(1) by (auto simp: in64_def)
        ultimately have "?P smod ?A = 0"
          by (metis abs_of_nonneg dvd_imp_le_int zero_le_numeral zero_le_power linorder_not_le)
        with R(1) ranges(3) show ?thesis by simp
      qed
    qed
    moreover have "?P = ?A * ?B" if "in64 (?A * ?B)" using that by (simp add: sint_mul64 wrap_self)
    ultimately show ?thesis using gen by (auto simp: exact64_def MulInt64_def Let_def)
  qed
qed

subsection \<open>Floored division and modulo\<close>

lemma floor_of_trunc:
  fixes a b :: int
  assumes "b \<noteq> 0"
  defines "adj \<equiv> a smod b \<noteq> 0 \<and> (a smod b < 0) \<noteq> (b < 0)"
  shows "a div b = (if adj then a sdiv b - 1 else a sdiv b)"
    and "a mod b = (if adj then a smod b + b else a smod b)"
proof -
  have "a = b * (a sdiv b) + a smod b" and lt: "\<bar>a smod b\<bar> < \<bar>b\<bar>"
    using sdiv_smod_bound [OF assms(1)] by auto
  then have eq: "a = b * (if adj then a sdiv b - 1 else a sdiv b) +
      (if adj then a smod b + b else a smod b)"
    by (simp add: algebra_simps)
  consider (pos) "0 < b" | (neg) "b < 0" using assms(1) by linarith
  then show div: "a div b = (if adj then a sdiv b - 1 else a sdiv b)"
  proof cases
    case pos
    with lt show ?thesis by (intro int_div_pos_eq [OF eq]) (auto simp: adj_def)
  next
    case neg
    with lt show ?thesis by (intro int_div_neg_eq [OF eq]) (auto simp: adj_def)
  qed
  have "a = b * (a div b) + a mod b" by simp
  with eq show "a mod b = (if adj then a smod b + b else a smod b)" unfolding div by linarith
qed

lemma smod_sign:
  fixes a b :: int
  assumes "b \<noteq> 0" and "a smod b \<noteq> 0"
  shows "(a smod b < 0) = (a < 0)"
proof -
  have "0 \<le> \<bar>a\<bar> mod \<bar>b\<bar>" using assms(1) by simp
  with assms(2) show ?thesis
    by (cases "0 < a"; cases "a = 0") (auto simp: signed_modulo_int_def)
qed

lemma div_in64:
  assumes "in64 a" and "in64 b" and "b \<noteq> 0" and "\<not> (a = - (2 ^ 63) \<and> b = -1)"
  shows "in64 (a div b)"
proof -
  have le: "x div y \<le> c" if "x \<le> c" "0 < y" "0 \<le> c" for x y c :: int
  proof -
    have "x div y \<le> c div y" using that(1,2) by (rule zdiv_mono1)
    also have "\<dots> \<le> c div 1" using that by (intro zdiv_mono2) auto
    finally show ?thesis by simp
  qed
  have ge: "- c \<le> x div y" if "- c \<le> x" "0 < y" "0 \<le> c" for x y c :: int
  proof -
    have "1 * c \<le> y * c" using that by (intro mult_right_mono) auto
    then have "y * (- c) \<le> x" using that by simp
    then have "y * (- c) div y \<le> x div y" using that(2) by (rule zdiv_mono1)
    moreover have "y * (- c) div y = - c" using that(2) by (intro nonzero_mult_div_cancel_left) simp
    ultimately show ?thesis by simp
  qed
  consider "0 < b" | "b = -1" | "b \<le> -2" using assms(3) by linarith
  then show ?thesis
  proof cases
    case 1
    with assms(1) show ?thesis
      using le [of a "2 ^ 63 - 1" b] ge [of "2 ^ 63" a b] by (auto simp: in64_def)
  next
    case 2
    with assms(1,4) show ?thesis by (auto simp: in64_def)
  next
    case 3
    have "- a div - b \<le> 2 ^ 63 div - b"
      using assms(1) 3 by (intro zdiv_mono1) (auto simp: in64_def)
    also have "\<dots> \<le> 2 ^ 63 div 2" using 3 by (intro zdiv_mono2) auto
    finally have "- a div - b \<le> 2 ^ 63 div 2" .
    moreover have "- (2 ^ 63) \<le> - a div - b" using assms(1) 3 by (intro ge) (auto simp: in64_def)
    ultimately show ?thesis by (simp add: in64_def)
  qed
qed

lemma mod_in64: "in64 b \<Longrightarrow> b \<noteq> 0 \<Longrightarrow> in64 (a mod b)"
  using pos_mod_bound [of b a] pos_mod_sign [of b a] neg_mod_bound [of b a] neg_mod_sign [of b a]
  unfolding in64_def by linarith

lemma smod_in64: "in64 b \<Longrightarrow> b \<noteq> 0 \<Longrightarrow> in64 (a smod b)"
  using sdiv_smod_bound(1) [of b a] by (auto simp: in64_def)

lemma FloorDivInt64_exact:
  assumes "b \<noteq> 0"
  shows "\<exists>r. FloorDivInt64 a b = Some r \<and> exact64 r (sint a div sint b)"
proof (cases "a = MinInt64 \<and> b = -1")
  case True
  then show ?thesis by (simp add: FloorDivInt64_def exact64_def in64_def)
next
  case False
  let ?A = "sint a" and ?B = "sint b"
  have B0: "?B \<noteq> 0" using assms by (simp add: eq_zero_iff64)
  have nov: "\<not> (?A = - (2 ^ 63) \<and> ?B = -1)"
    using False by (simp add: eq_MinInt64_iff eq_minus_one_iff)
  let ?q = "word_of_int (?A sdiv ?B) :: int64"
  define adj where "adj \<longleftrightarrow> ?A smod ?B \<noteq> 0 \<and> (?A smod ?B < 0) \<noteq> (?B < 0)"
  have ranges: "in64 (?A div ?B)" "in64 (?A sdiv ?B)" "in64 (?A smod ?B)"
    using B0 nov by (auto intro: div_in64 sdiv_in64 smod_in64)
  have "adj \<longleftrightarrow> word_of_int (?A smod ?B) \<noteq> (0 :: int64) \<and> (?A < 0) \<noteq> (?B < 0)"
    using smod_sign [OF B0, of ?A] ranges(3) by (auto simp: adj_def eq_zero_iff64)
  then have run: "FloorDivInt64 a b = Some (if adj then ?q - 1 else ?q, False)"
    using False assms by (simp add: FloorDivInt64_def go_quo_def go_rem_def)
  have "?A div ?B = (if adj then ?A sdiv ?B - 1 else ?A sdiv ?B)"
    unfolding adj_def by (rule floor_of_trunc(1) [OF B0])
  with ranges have "sint (if adj then ?q - 1 else ?q) = ?A div ?B"
    by (cases adj) (simp_all add: sint_sub64 wrap_self)
  with run ranges(1) show ?thesis by (simp add: exact64_def)
qed

lemma FloorModInt64_exact:
  assumes "b \<noteq> 0"
  shows "\<exists>r. FloorModInt64 a b = Some r \<and> sint r = sint a mod sint b"
proof -
  let ?A = "sint a" and ?B = "sint b"
  have B0: "?B \<noteq> 0" using assms by (simp add: eq_zero_iff64)
  have "in64 (?A mod ?B)" and "in64 (?A smod ?B)" using B0 by (auto intro: mod_in64 smod_in64)
  then show ?thesis
    using assms floor_of_trunc(2) [OF B0, of ?A]
    by (auto simp: FloorModInt64_def go_rem_def eq_zero_iff64 sint_add64 wrap_self)
qed

subsection \<open>Shifts\<close>

lemma sint_push_bit64: "sint (push_bit n a :: int64) = signed_take_bit 63 (sint a * 2 ^ n)"
proof -
  have "(push_bit n a :: int64) = word_of_int (sint a * 2 ^ n)"
    by (simp add: push_bit_eq_mult)
  then show ?thesis unfolding \<open>push_bit n a = _\<close> by (simp only: sint_word_of_int)
qed

lemma sint_signed_drop_bit64: "sint (signed_drop_bit n a :: int64) = sint a div 2 ^ n"
  by (simp add: sint_signed_drop_bit_eq drop_bit_eq_div)

lemma push_bit_big64: "64 \<le> n \<Longrightarrow> (push_bit n a :: int64) = 0"
  by (rule bit_word_eqI) (simp add: bit_push_bit_iff)

lemma unat_nonneg: "0 \<le> sint (b :: int64) \<Longrightarrow> unat b = nat (sint b)"
  using sint_lt [of b] by (simp add: unat_eq_nat_uint uint_sint take_bit_int_eq_self)

lemma RShiftInt64_exact:
  assumes "0 \<le> sint b"
  shows "sint (RShiftInt64 a b) = sint a div 2 ^ nat (sint b)"
  using assms by (simp add: RShiftInt64_def sint_signed_drop_bit64 unat_nonneg)

lemma LShiftInt64_exact:
  assumes "0 \<le> sint b"
  shows "exact64 (LShiftInt64 a b) (sint a * 2 ^ nat (sint b))"
proof (cases "a = 0")
  case True
  then show ?thesis by (simp add: LShiftInt64_def exact64_def in64_def)
next
  case False
  define n where "n = unat b"
  let ?A = "sint a" and ?r = "push_bit n a :: int64"
  have n: "nat (sint b) = n" using assms by (simp add: n_def unat_nonneg)
  have "signed_drop_bit n ?r = a \<longleftrightarrow> in64 (?A * 2 ^ n)"
  proof
    assume shifted: "signed_drop_bit n ?r = a"
    have "n < 64"
    proof (rule ccontr)
      assume "\<not> n < 64"
      with shifted False show False by (simp add: push_bit_big64)
    qed
    then have "(2 ^ n :: int) dvd 2 ^ 64" by (intro le_imp_power_dvd) simp
    with wrap_cong [of "?A * 2 ^ n"] have "2 ^ n dvd ?A * 2 ^ n - sint ?r"
      unfolding sint_push_bit64 by (rule dvd_trans [rotated])
    then have "2 ^ n dvd sint ?r" by (simp add: dvd_diff_right_iff)
    moreover have "sint ?r div 2 ^ n = ?A" using shifted by (metis sint_signed_drop_bit64)
    ultimately have "sint ?r = ?A * 2 ^ n" by auto
    then show "in64 (?A * 2 ^ n)" by (metis in64_sint)
  next
    assume "in64 (?A * 2 ^ n)"
    then have "sint (signed_drop_bit n ?r) = ?A"
      by (simp add: sint_signed_drop_bit64 sint_push_bit64 wrap_self)
    then show "signed_drop_bit n ?r = a" by (simp add: sint_eq_iff64)
  qed
  moreover have "sint ?r = ?A * 2 ^ n" if "in64 (?A * 2 ^ n)"
    using that by (simp add: sint_push_bit64 wrap_self)
  ultimately show ?thesis
    using False by (auto simp: LShiftInt64_def exact64_def Let_def n n_def [symmetric])
qed

subsection \<open>Powers\<close>

lemma in64_factor:
  assumes "in64 (x * k)" and "1 \<le> k"
  shows "in64 x"
proof -
  have le: "\<bar>x\<bar> * 1 \<le> \<bar>x\<bar> * k" using assms(2) by (intro mult_left_mono) auto
  show ?thesis
  proof (cases "0 \<le> x")
    case True
    with le assms(1) show ?thesis by (simp add: in64_def)
  next
    case False
    with le have "x * k \<le> x" by simp
    with False assms(1) show ?thesis unfolding in64_def by linarith
  qed
qed

text \<open>No square is \<open>2 ^ 63\<close>, so a square that does not fit is strictly above it and no
  nonzero factor brings it back into range.\<close>

lemma square_not_in64:
  fixes b :: int
  assumes "\<not> in64 (b * b)"
  shows "2 ^ 63 < b * b"
proof -
  have "(3037000499::int) ^ 2 < 2 ^ 63" and "2 ^ 63 < (3037000500::int) ^ 2" by simp_all
  moreover have "2 ^ 63 \<le> \<bar>b\<bar> ^ 2" using assms zero_le_square [of b]
    by (auto simp: in64_def power2_eq_square abs_mult_self_eq)
  ultimately have "\<not> \<bar>b\<bar> \<le> 3037000499" using power_mono [of "\<bar>b\<bar>" 3037000499 2] by auto
  then have "3037000500 ^ 2 \<le> \<bar>b\<bar> ^ 2" by (intro power_mono) auto
  then show ?thesis by (simp add: power2_eq_square abs_mult_self_eq)
qed

lemma square_power_not_in64:
  fixes b v :: int
  assumes "\<not> in64 (b * b)" and "v \<noteq> 0" and "0 < n"
  shows "\<not> in64 (v * (b * b) ^ n)"
proof -
  have sq: "2 ^ 63 < b * b" by (rule square_not_in64 [OF assms(1)])
  then have "b * b \<le> (b * b) ^ n" using assms(3) by (intro self_le_power) auto
  moreover have "1 * (b * b) ^ n \<le> \<bar>v\<bar> * (b * b) ^ n"
    using assms(2) sq by (intro mult_right_mono) auto
  moreover have "\<bar>v * (b * b) ^ n\<bar> = \<bar>v\<bar> * (b * b) ^ n" by (simp add: abs_mult)
  ultimately have "2 ^ 63 < \<bar>v * (b * b) ^ n\<bar>" using sq by linarith
  then show ?thesis by (auto simp: in64_def abs_if split: if_splits)
qed

lemma and_one_odd: "(e AND 1 = (1::int64)) \<longleftrightarrow> odd (sint e)"
proof -
  have "(e AND 1 = (1::int64)) \<longleftrightarrow> odd e" by (auto simp: and_one_eq odd_iff_mod_2_eq_one)
  also have "\<dots> \<longleftrightarrow> odd (sint e)" by (simp add: bit_sint_iff flip: bit_0)
  finally show ?thesis .
qed

text \<open>The loop invariant: the product of the accumulator and the remaining power is the
  answer, and the accumulator is only zero when the base is.\<close>

lemma pow_loop_done: "\<not> 0 < sint e \<Longrightarrow> pow_loop r b e = (r, False)"
  by (simp add: pow_loop.simps)

lemma pow_loop_exact:
  assumes "0 \<le> sint e" and "sint r \<noteq> 0 \<or> sint b = 0"
  shows "exact64 (pow_loop r b e) (sint r * sint b ^ nat (sint e))"
  using assms
proof (induction r b e rule: pow_loop.induct)
  case (1 r b e)
  let ?R = "sint r" and ?B = "sint b" and ?E = "nat (sint e)"
  define e' where "e' = signed_drop_bit 1 e"
  define v where "v = (if e AND 1 = 1 then MulInt64 r b else (r, False))"
  show ?case
  proof (cases "0 < sint e")
    case False
    with "1.prems" show ?thesis by (simp add: pow_loop.simps [of r b e] exact64_def)
  next
    case True
    have e': "nat (sint e') = ?E div 2"
      by (simp add: e'_def sint_signed_drop_bit64 nat_div_distrib)
    have par: "?E mod 2 = (if e AND 1 = 1 then 1 else 0)"
      using True by (simp add: and_one_odd mod_2_eq_odd even_nat_iff)
    have vx: "exact64 v (?R * ?B ^ (?E mod 2))"
      using MulInt64_exact [of r b] unfolding par v_def by (simp add: exact64_def)
    have split: "?R * ?B ^ ?E = ?R * ?B ^ (?E mod 2) * (?B * ?B) ^ (?E div 2)"
      using power_add [of ?B "?E mod 2" "2 * (?E div 2)"]
      by (simp add: power_mult power2_eq_square)
    have unfold: "pow_loop r b e =
        (if snd v then (0, True)
         else if 0 < sint e' then
           if snd (MulInt64 b b) then (0, True) else pow_loop (fst v) (fst (MulInt64 b b)) e'
         else (fst v, False))"
      using True pow_loop_done [of e' "fst v" b]
      by (subst pow_loop.simps, unfold v_def [symmetric] e'_def [symmetric] Let_def)
        (simp add: case_prod_beta)
    consider (ovf) "snd v" | (last) "\<not> snd v" "\<not> 0 < sint e'"
      | (sqovf) "\<not> snd v" "0 < sint e'" "snd (MulInt64 b b)"
      | (step) "\<not> snd v" "0 < sint e'" "\<not> snd (MulInt64 b b)" by blast
    then show ?thesis
    proof cases
      case ovf
      with vx have nin: "\<not> in64 (?R * ?B ^ (?E mod 2))" by (simp add: exact64_def)
      then have "?B \<noteq> 0" by (cases "?E mod 2 = 0") (auto simp: in64_0)
      then have "0 < ?B * ?B" by (auto simp: zero_less_mult_iff linorder_neq_iff)
      then have "1 \<le> (?B * ?B) ^ (?E div 2)" by (intro one_le_power) simp
      with nin have "\<not> in64 (?R * ?B ^ ?E)" unfolding split using in64_factor by blast
      with ovf show ?thesis by (simp add: unfold exact64_def)
    next
      case last
      with e' have "?E div 2 = 0" by simp
      with last vx show ?thesis unfolding split by (simp add: unfold exact64_def)
    next
      case sqovf
      then have nin: "\<not> in64 (?B * ?B)" using MulInt64_exact [of b b] by (simp add: exact64_def)
      then have "?R * ?B ^ (?E mod 2) \<noteq> 0" using "1.prems"(2) in64_0 by auto
      then have "\<not> in64 (?R * ?B ^ ?E)"
        unfolding split using nin sqovf(2) e' by (intro square_power_not_in64) auto
      with sqovf show ?thesis by (simp add: unfold exact64_def)
    next
      case step
      then have v: "sint (fst v) = ?R * ?B ^ (?E mod 2)"
        and sq: "sint (fst (MulInt64 b b)) = ?B * ?B"
        using vx MulInt64_exact [of b b] by (simp_all add: exact64_def)
      then have "sint (fst v) \<noteq> 0 \<or> sint (fst (MulInt64 b b)) = 0" using "1.prems"(2) by auto
      with step True have "exact64 (pow_loop (fst v) (fst (MulInt64 b b)) e')
          (sint (fst v) * sint (fst (MulInt64 b b)) ^ nat (sint e'))"
        by (intro "1.IH"(1)) (auto simp: v_def e'_def prod_eq_iff)
      with step v sq show ?thesis unfolding split by (simp add: unfold e')
    qed
  qed
qed

lemma PowInt64_deopt: "snd (PowInt64 a b) \<longleftrightarrow> sint b < 0 \<or> \<not> in64 (sint a ^ nat (sint b))"
proof (cases "sint b < 0")
  case False
  with pow_loop_exact [of b 1 a] show ?thesis by (simp add: PowInt64_def exact64_def)
qed (simp add: PowInt64_def)

lemma PowInt64_value:
  assumes "\<not> snd (PowInt64 a b)"
  shows "sint (fst (PowInt64 a b)) = sint a ^ nat (sint b)"
proof (cases "sint b < 0")
  case False
  with assms pow_loop_exact [of b 1 a] show ?thesis by (simp add: PowInt64_def exact64_def)
qed (use assms in \<open>simp add: PowInt64_def\<close>)

section \<open>Properties\<close>

text \<open>C4: The checked add, subtract and multiply of the static tier are exact. The flag is
  raised precisely when the mathematical result leaves the int64 range, so the compiled
  code falls back to the boxed tier exactly when Python's unbounded int would not fit, and
  with the flag clear the word is Python's result.\<close>

theorem int64_ring_ops_exact:
  "exact64 (AddInt64 a b) (sint a + sint b) \<and>
   exact64 (SubInt64 a b) (sint a - sint b) \<and>
   exact64 (MulInt64 a b) (sint a * sint b)"
  by (simp add: AddInt64_exact SubInt64_exact MulInt64_exact)

text \<open>C8: The squaring loop of \<open>PowInt64\<close> always returns, and it asks for the boxed tier
  precisely when the exponent is negative or the exact power leaves the int64 range: no
  intermediate square raises a false overflow. Otherwise the word is the exact power.\<close>

theorem PowInt64_exact:
  "if sint b < 0 then snd (PowInt64 a b) else exact64 (PowInt64 a b) (sint a ^ nat (sint b))"
  using PowInt64_deopt [of a b] PowInt64_value [of a b] by (auto simp: exact64_def)

text \<open>C9: For every nonzero divisor \<open>FloorDivInt64\<close> and \<open>FloorModInt64\<close> return (neither
  panics), and they compute Python's floored quotient and modulo; the only quotient
  reported as an overflow is the one that does not fit.\<close>

theorem int64_floor_ops_exact:
  assumes "b \<noteq> 0"
  shows "\<exists>q m. FloorDivInt64 a b = Some q \<and> exact64 q (sint a div sint b) \<and>
    FloorModInt64 a b = Some m \<and> sint m = sint a mod sint b"
  using FloorDivInt64_exact [OF assms, of a] FloorModInt64_exact [OF assms, of a] by blast

theorem int64_floor_ops_exact_witness:
  "(3::int64) \<noteq> 0 \<and> (\<exists>q m. FloorDivInt64 (-7) 3 = Some q \<and> exact64 q (sint (-7::int64) div sint (3::int64)) \<and>
    FloorModInt64 (-7) 3 = Some m \<and> sint m = sint (-7::int64) mod sint (3::int64))"
  using int64_floor_ops_exact [of 3 "-7"] by simp

text \<open>C10: For every non-negative count the shifts are Python's: the left shift flags exactly
  the results that leave the int64 range (also for counts of 64 and more), and the right
  shift floors toward negative infinity.\<close>

theorem int64_shifts_exact:
  assumes "0 \<le> sint b"
  shows "exact64 (LShiftInt64 a b) (sint a * 2 ^ nat (sint b)) \<and>
    sint (RShiftInt64 a b) = sint a div 2 ^ nat (sint b)"
  using LShiftInt64_exact [OF assms] RShiftInt64_exact [OF assms] by blast

theorem int64_shifts_exact_witness:
  "0 \<le> sint (62::int64) \<and> exact64 (LShiftInt64 3 62) (sint (3::int64) * 2 ^ nat (sint (62::int64))) \<and>
    sint (RShiftInt64 3 62) = sint (3::int64) div 2 ^ nat (sint (62::int64))"
  using int64_shifts_exact [of 62 3] by simp

end
