(* ===== verification/Guards.thy ===== *)
theory Guards
  imports Census Static_Tier
begin

text \<open>
  \<^verbatim>\<open>pkg/partition/cost.go\<close> and \<^verbatim>\<open>pkg/partition/guard.go\<close>: the cost model and guard planning.

  The counts, weights and scores are Go \<open>int\<close>s and are kept at their width: sums and products wrap, and
  comparisons are signed. \<open>LoopDepth\<close>, \<open>Dom\<close> and the resume id are only compared and printed and are \<^typ>\<open>int\<close>.
  The theorems show that a plan keeps exactly the first guard of every (assumption, dominator) pair in
  the order of the comparison, whichever way the sort breaks ties, that planning a plan keeps the same guards
  and that, as long as the scores do not overflow, planning never makes the guards dearer.
\<close>

section \<open>The cost model\<close>

record weights =
  Version :: int64
  UnboxedOp :: int64
  BoxedOp :: int64
  ThunkCrossW :: int64
  GuardEntryW :: int64
  GuardLoopW :: int64

definition DefaultWeights :: weights where
  "DefaultWeights = \<lparr>Version = 1, UnboxedOp = 1, BoxedOp = 8, ThunkCrossW = 16, GuardEntryW = 2, GuardLoopW = 4\<rparr>"

record profile =
  UnboxedOps :: int64
  ExcursionOps :: int64
  ThunkCross :: int64
  EntryGuards :: int64
  LoopGuards :: int64
  prof_Excursions :: int64

definition TotalOps :: "profile \<Rightarrow> int64" where
  "TotalOps p = UnboxedOps p + ExcursionOps p"

record score =
  Static :: int64
  Boxed :: int64

definition Score :: "weights \<Rightarrow> profile \<Rightarrow> score" where
  "Score w p =
     \<lparr>Static = UnboxedOps p * UnboxedOp w + ExcursionOps p * BoxedOp w + ThunkCross p * ThunkCrossW w +
               EntryGuards p * GuardEntryW w + LoopGuards p * GuardLoopW w,
      Boxed = TotalOps p * BoxedOp w\<rparr>"

definition EmitStatic :: "score \<Rightarrow> bool" where
  "EmitStatic s \<longleftrightarrow> sint (Static s * 5) < sint (Boxed s * 3)"

definition ExcursionBudgetOK :: "profile \<Rightarrow> bool" where
  "ExcursionBudgetOK p \<longleftrightarrow> sint (ExcursionOps p * 4) \<le> sint (TotalOps p)"

section \<open>Guards\<close>

datatype guard_kind = GuardEntryKind | GuardBinding | GuardClassVersion | GuardOverflow | GuardRepresentation

fun guard_kind_iota :: "guard_kind \<Rightarrow> nat" where
  "guard_kind_iota GuardEntryKind = 0"
| "guard_kind_iota GuardBinding = 1"
| "guard_kind_iota GuardClassVersion = 2"
| "guard_kind_iota GuardOverflow = 3"
| "guard_kind_iota GuardRepresentation = 4"

fun guard_kind_String :: "guard_kind \<Rightarrow> string" where
  "guard_kind_String GuardEntryKind = ''entry''"
| "guard_kind_String GuardBinding = ''binding''"
| "guard_kind_String GuardClassVersion = ''class-version''"
| "guard_kind_String GuardOverflow = ''overflow''"
| "guard_kind_String GuardRepresentation = ''representation''"

datatype failure_edge = EdgeRouteBoxed | EdgeDeopt

fun failure_edge_String :: "failure_edge \<Rightarrow> string" where
  "failure_edge_String EdgeRouteBoxed = ''route-boxed''"
| "failure_edge_String EdgeDeopt = ''deopt''"

record guard =
  guard_Kind :: guard_kind
  guard_Site :: span
  Assumption :: string
  guard_Edge :: failure_edge
  LoopDepth :: int
  LoopInvariant :: bool
  Dom :: int
  guard_Resume :: int
  Hoisted :: bool

definition atEntry :: "guard \<Rightarrow> bool" where
  "atEntry g \<longleftrightarrow> LoopDepth g = 0 \<or> Hoisted g"

definition EntryCount :: "guard list \<Rightarrow> int64" where
  "EntryCount gs = foldl (\<lambda>n g. if atEntry g then n + 1 else n) 0 gs"

definition LoopCount :: "guard list \<Rightarrow> int64" where
  "LoopCount gs = foldl (\<lambda>n g. if \<not> atEntry g then n + 1 else n) 0 gs"

definition guard_key :: "guard \<Rightarrow> string" where
  "guard_key g = Assumption g @ nul @ itoa (Dom g)"

definition hoist :: "guard \<Rightarrow> guard" where
  "hoist g = (if LoopDepth g > 0 \<and> LoopInvariant g then g\<lparr>Hoisted := True\<rparr> else g)"

fun place_guards :: "string list \<Rightarrow> guard list \<Rightarrow> guard list" where
  "place_guards seen [] = []"
| "place_guards seen (g # raw) =
     (if guard_key g \<in> set seen then place_guards seen raw
      else hoist g # place_guards (guard_key g # seen) raw)"

definition guard_less :: "guard \<Rightarrow> guard \<Rightarrow> bool" where
  "guard_less a b =
     (if span_String (guard_Site a) \<noteq> span_String (guard_Site b) then span_String (guard_Site a) < span_String (guard_Site b)
      else if guard_Kind a \<noteq> guard_Kind b then guard_kind_iota (guard_Kind a) < guard_kind_iota (guard_Kind b)
      else Assumption a < Assumption b)"

definition PlanGuards :: "guard list \<Rightarrow> guard list" where
  "PlanGuards raw = sort_slice guard_less (place_guards [] raw)"

definition GuardScore :: "guard list \<Rightarrow> weights \<Rightarrow> int64" where
  "GuardScore p w = EntryCount p * GuardEntryW w + LoopCount p * GuardLoopW w"

definition guardBudgetOK :: "int64 \<Rightarrow> int64 \<Rightarrow> bool" where
  "guardBudgetOK guardScore opScore \<longleftrightarrow> sint (guardScore * 20) \<le> sint (opScore * 3)"

section \<open>Guard keys and the plan's order\<close>

lemma itoa_plain: "CHR 0x00 \<notin> set (itoa i)"
proof -
  have "\<not> is_digit_char (CHR 0x00)" by (simp add: is_digit_char_def)
  then have "CHR 0x00 \<notin> set (utoa n)" for n using utoa_digits by blast
  then show ?thesis by (simp add: itoa_def)
qed

lemma split_last_nul:
  assumes "CHR 0x00 \<notin> set x" "CHR 0x00 \<notin> set y" "a @ nul @ x = b @ nul @ y"
  shows "a = b \<and> x = y"
proof -
  have "rev x @ nul @ rev a = rev y @ nul @ rev b" using arg_cong [OF assms(3), of rev] by (simp add: nul_def)
  then have "rev x = rev y \<and> rev a = rev b" by (intro split_nul) (simp_all add: plain_name_def assms)
  then show ?thesis by simp
qed

lemma guard_key_eq: "guard_key a = guard_key b \<longleftrightarrow> Assumption a = Assumption b \<and> Dom a = Dom b"
  using split_last_nul [OF itoa_plain itoa_plain, of "Assumption a" "Dom a" "Assumption b" "Dom b"]
  by (auto simp: guard_key_def)

lemma hoist_sel [simp]:
  "guard_key (hoist g) = guard_key g" "guard_Site (hoist g) = guard_Site g" "guard_Kind (hoist g) = guard_Kind g"
  "Assumption (hoist g) = Assumption g" "Dom (hoist g) = Dom g" "hoist (hoist g) = hoist g"
  "LoopDepth (hoist g) = LoopDepth g" "LoopInvariant (hoist g) = LoopInvariant g" "guard_Edge (hoist g) = guard_Edge g"
  by (simp_all add: hoist_def guard_key_def)

lemma hoist_eq: "hoist g = g\<lparr>Hoisted := Hoisted g \<or> 0 < LoopDepth g \<and> LoopInvariant g\<rparr>"
  by (cases g) (auto simp: hoist_def)

definition guard_rank :: "guard \<Rightarrow> string \<times> nat \<times> string" where
  "guard_rank g = (span_String (guard_Site g), guard_kind_iota (guard_Kind g), Assumption g)"

lemma guard_kind_iota_inj: "guard_kind_iota a = guard_kind_iota b \<longleftrightarrow> a = b"
  by (cases a; cases b) simp_all

lemma guard_less_rank: "guard_less = (\<lambda>a b. guard_rank a < guard_rank b)"
  by (intro ext) (auto simp: guard_less_def guard_rank_def guard_kind_iota_inj le_less)

lemma PlanGuards_sort: "PlanGuards raw = sort_key guard_rank (place_guards [] raw)"
  unfolding PlanGuards_def guard_less_rank by (rule sort_slice_key)

text \<open>The guards a plan keeps: the first of every (assumption, dominator) pair.\<close>

definition first_guard :: "guard list \<Rightarrow> guard \<Rightarrow> bool" where
  "first_guard raw g \<longleftrightarrow> List.find (\<lambda>r. Assumption r = Assumption g \<and> Dom r = Dom g) raw = Some g"

lemma place_guards_keys:
  "distinct (map guard_key (place_guards seen raw))"
  "set (map guard_key (place_guards seen raw)) = guard_key ` set raw - set seen"
  by (induction raw arbitrary: seen) auto

lemma place_guards_find:
  "g \<in> set (place_guards seen raw) \<longleftrightarrow>
   (\<exists>r. guard_key r \<notin> set seen \<and> List.find (\<lambda>x. guard_key x = guard_key r) raw = Some r \<and> g = hoist r)"
proof (induction raw arbitrary: seen)
  case (Cons x raw)
  show ?case
  proof (cases "guard_key x \<in> set seen")
    case True
    then show ?thesis using Cons.IH [of seen] by auto
  next
    case False
    then show ?thesis using Cons.IH [of "guard_key x # seen"] by (auto split: if_splits) metis
  qed
qed simp

lemma place_guards_again:
  assumes "list_all (\<lambda>g. hoist g = g) gs" "distinct (map guard_key gs)" "set (map guard_key gs) \<inter> set seen = {}"
  shows "place_guards seen gs = gs"
  using assms by (induction gs arbitrary: seen) auto

lemma place_guards_hoisted: "list_all (\<lambda>g. hoist g = g) (place_guards seen raw)"
  by (induction raw arbitrary: seen) auto

lemma PlanGuards_again: "mset (PlanGuards (PlanGuards raw)) = mset (PlanGuards raw)"
proof -
  have "place_guards [] (PlanGuards raw) = PlanGuards raw"
    using place_guards_hoisted [of "[]" raw] place_guards_keys(1) [of "[]" raw]
    by (intro place_guards_again) (auto simp: PlanGuards_sort list_all_iff distinct_map)
  then show ?thesis unfolding PlanGuards_sort [of "PlanGuards raw"] by simp
qed

text \<open>C27: guard placement keeps, for every assumption checked under a dominator, exactly the first guard that checks it, with a
  loop-invariant guard inside a loop hoisted; the plan lists the kept guards in an order that respects site, kind and
  assumption, no two of them check the same assumption under the same dominator, and planning a plan keeps the same
  guards. None of this depends on how the sort orders guards that compare equal.\<close>
theorem PlanGuards_placed:
  "(g \<in> set (PlanGuards raw) \<longleftrightarrow>
     (\<exists>r. first_guard raw r \<and> g = r\<lparr>Hoisted := Hoisted r \<or> 0 < LoopDepth r \<and> LoopInvariant r\<rparr>)) \<and>
   distinct (map (\<lambda>g. (Assumption g, Dom g)) (PlanGuards raw)) \<and>
   sorted_wrt (\<lambda>a b. \<not> guard_less b a) (PlanGuards raw) \<and>
   mset (PlanGuards (PlanGuards raw)) = mset (PlanGuards raw)"
proof (intro conjI)
  show "g \<in> set (PlanGuards raw) \<longleftrightarrow>
      (\<exists>r. first_guard raw r \<and> g = r\<lparr>Hoisted := Hoisted r \<or> 0 < LoopDepth r \<and> LoopInvariant r\<rparr>)"
    using place_guards_find [of g "[]" raw] by (simp add: PlanGuards_sort first_guard_def guard_key_eq hoist_eq)
  have "distinct (map guard_key (PlanGuards raw))"
    using place_guards_keys(1) [of "[]" raw] by (simp add: PlanGuards_sort distinct_map)
  then show "distinct (map (\<lambda>g. (Assumption g, Dom g)) (PlanGuards raw))"
    by (auto simp: distinct_map inj_on_def guard_key_eq)
  have "sorted (map guard_rank (PlanGuards raw))" unfolding PlanGuards_sort by (rule sorted_sort_key)
  then show "sorted_wrt (\<lambda>a b. \<not> guard_less b a) (PlanGuards raw)"
    by (simp add: guard_less_rank sorted_wrt_map not_less)
qed (rule PlanGuards_again)

section \<open>The guard budget\<close>

text \<open>The price of a guard list as an integer.\<close>

definition guard_cost :: "weights \<Rightarrow> guard \<Rightarrow> int" where
  "guard_cost w g = (if atEntry g then sint (GuardEntryW w) else sint (GuardLoopW w))"

lemma count_fold: "foldl (\<lambda>n g. if P g then n + 1 else n) (k :: int64) gs = k + of_nat (length (filter P gs))"
  by (induction gs arbitrary: k) auto

lemma guard_counts:
  "EntryCount gs = of_nat (length (filter atEntry gs))" "LoopCount gs = of_nat (length (filter (\<lambda>g. \<not> atEntry g) gs))"
  by (simp_all add: EntryCount_def LoopCount_def count_fold)

lemma length_PlanGuards: "length (PlanGuards raw) \<le> length raw"
proof -
  have "length (place_guards seen raw) \<le> length raw" for seen
    by (induction raw arbitrary: seen) (auto intro: le_SucI)
  then show ?thesis by (simp add: PlanGuards_sort)
qed

lemma GuardScore_wrap: "GuardScore gs w = word_of_int (sum_list (map (guard_cost w) gs))"
  by (induction gs) (auto simp: GuardScore_def guard_counts guard_cost_def algebra_simps)

lemma guard_cost_bounds:
  assumes "0 \<le> sint (GuardEntryW w)" "sint (GuardEntryW w) \<le> sint (GuardLoopW w)"
  shows "0 \<le> sum_list (map (guard_cost w) gs)" "sum_list (map (guard_cost w) gs) \<le> int (length gs) * sint (GuardLoopW w)"
  using assms by (induction gs) (auto simp: guard_cost_def algebra_simps)

lemma GuardScore_sint:
  assumes "0 \<le> sint (GuardEntryW w)" "sint (GuardEntryW w) \<le> sint (GuardLoopW w)"
    and "20 * (int (length gs) * sint (GuardLoopW w)) < 2 ^ 63"
  shows "sint (GuardScore gs w) = sum_list (map (guard_cost w) gs)"
    and "sint (GuardScore gs w * 20) = 20 * sum_list (map (guard_cost w) gs)"
proof -
  let ?c = "sum_list (map (guard_cost w) gs)"
  have "in64 ?c" "in64 (?c * 20)" using guard_cost_bounds [OF assms(1,2), of gs] assms(3) by (auto simp: in64_def)
  moreover have "GuardScore gs w * 20 = word_of_int (?c * 20)" by (simp add: GuardScore_wrap)
  ultimately show "sint (GuardScore gs w) = ?c" "sint (GuardScore gs w * 20) = 20 * ?c"
    by (simp_all only: GuardScore_wrap sint_word_of_int_in64 mult.commute)
qed

lemma place_guards_cost:
  assumes "0 \<le> sint (GuardEntryW w)" "sint (GuardEntryW w) \<le> sint (GuardLoopW w)"
  shows "sum_list (map (guard_cost w) (place_guards seen raw)) \<le> sum_list (map (guard_cost w) raw)"
proof (induction raw arbitrary: seen)
  case (Cons g raw)
  have "guard_cost w (hoist g) \<le> guard_cost w g" "0 \<le> guard_cost w g"
    using assms by (auto simp: guard_cost_def hoist_def atEntry_def)
  then show ?case using Cons.IH [of seen] Cons.IH [of "guard_key g # seen"] by auto
qed simp

text \<open>C28: for weights with \<open>0 \<le> GuardEntry \<le> GuardLoop\<close>, and a raw guard list whose price times twenty fits an int, placement never
  makes the guards of a unit dearer, so a raw guard list within the guard budget stays within it.\<close>
theorem PlanGuards_cheaper:
  assumes "0 \<le> sint (GuardEntryW w)" "sint (GuardEntryW w) \<le> sint (GuardLoopW w)"
    and "20 * (int (length raw) * sint (GuardLoopW w)) < 2 ^ 63"
  shows "sint (GuardScore (PlanGuards raw) w) \<le> sint (GuardScore raw w) \<and>
    (guardBudgetOK (GuardScore raw w) ops \<longrightarrow> guardBudgetOK (GuardScore (PlanGuards raw) w) ops)"
proof -
  have "mset (PlanGuards raw) = mset (place_guards [] raw)" by (simp add: PlanGuards_sort)
  then have "sum_list (map (guard_cost w) (PlanGuards raw)) = sum_list (map (guard_cost w) (place_guards [] raw))"
    by (metis mset_map sum_mset_sum_list)
  then have le: "sum_list (map (guard_cost w) (PlanGuards raw)) \<le> sum_list (map (guard_cost w) raw)"
    using place_guards_cost [OF assms(1,2), of "[]" raw] by simp
  have "int (length (PlanGuards raw)) * sint (GuardLoopW w) \<le> int (length raw) * sint (GuardLoopW w)"
    using length_PlanGuards [of raw] assms(1,2) by (intro mult_right_mono) auto
  then have "20 * (int (length (PlanGuards raw)) * sint (GuardLoopW w)) < 2 ^ 63" using assms(3) by linarith
  with le show ?thesis using GuardScore_sint [OF assms] GuardScore_sint [OF assms(1,2), of "PlanGuards raw"]
    by (auto simp: guardBudgetOK_def)
qed

definition demo_guard :: "int \<Rightarrow> guard" where
  "demo_guard d = \<lparr>guard_Kind = GuardOverflow, guard_Site = \<lparr>File = ''m.py'', Line = 3, Col = 9\<rparr>, Assumption = ''x fits int64'',
     guard_Edge = EdgeDeopt, LoopDepth = 1, LoopInvariant = True, Dom = d, guard_Resume = 1, Hoisted = False\<rparr>"

theorem PlanGuards_cheaper_witness:
  "GuardScore [demo_guard 0, demo_guard 0] DefaultWeights = 8 \<and> GuardScore (PlanGuards [demo_guard 0, demo_guard 0]) DefaultWeights = 2 \<and>
   sint (GuardScore (PlanGuards [demo_guard 0, demo_guard 0]) DefaultWeights) \<le> sint (GuardScore [demo_guard 0, demo_guard 0] DefaultWeights)"
proof -
  have "sint (GuardScore (PlanGuards [demo_guard 0, demo_guard 0]) DefaultWeights) \<le> sint (GuardScore [demo_guard 0, demo_guard 0] DefaultWeights)"
    using PlanGuards_cheaper [of DefaultWeights "[demo_guard 0, demo_guard 0]"] by (simp add: DefaultWeights_def)
  then show ?thesis
    by (simp add: GuardScore_def PlanGuards_def EntryCount_def LoopCount_def atEntry_def hoist_def demo_guard_def DefaultWeights_def)
qed

end
