(* ===== verification/Deopt.thy ===== *)
theory Deopt
  imports Guards
begin

text \<open>
  \<^verbatim>\<open>pkg/partition/deopt.go\<close>: the deopt plan of a unit and its verifier.

  A deopt site says how a failing interior guard rebuilds the boxed frame. The theorems show that
  the verifier reports each violation code exactly when its condition holds, and that it accepts a plan
  exactly when every site is well formed and every guard resumes at a point some site defines.
\<close>

section \<open>Resume points and transfer tables\<close>

datatype resume_kind = ResumeStatement | ResumeLoopBackEdge | ResumeMidExpression

fun resume_kind_String :: "resume_kind \<Rightarrow> string" where
  "resume_kind_String ResumeStatement = ''statement-boundary''"
| "resume_kind_String ResumeLoopBackEdge = ''loop-back-edge''"
| "resume_kind_String ResumeMidExpression = ''mid-expression''"

datatype materialize_kind = MatRebox | MatPointerCopy | MatCell

fun materialize_kind_String :: "materialize_kind \<Rightarrow> string" where
  "materialize_kind_String MatRebox = ''rebox''"
| "materialize_kind_String MatPointerCopy = ''pointer-copy''"
| "materialize_kind_String MatCell = ''cell''"

record transfer_entry =
  transfer_Slot :: int
  Native :: string
  transfer_Kind :: materialize_kind
  transfer_Type :: ty
  Escaped :: bool

record resume_point =
  resume_ID :: int
  resume_Site :: span
  resume_Kind :: resume_kind

record deopt_site =
  site_Guard :: guard
  site_Resume :: resume_point
  Transfers :: "transfer_entry list"
  LiveVars :: "string list"
  EffectBefore :: bool

definition LiveCount :: "deopt_site \<Rightarrow> int" where
  "LiveCount s = int (length (LiveVars s))"

datatype violation = Violation (viol_Code: string) (viol_Detail: string)

definition ViolGuardNotInterior :: string where "ViolGuardNotInterior = ''guard-not-interior''"
definition ViolResumeMidExpr :: string where "ViolResumeMidExpr = ''resume-mid-expression''"
definition ViolEffectBeforeDeopt :: string where "ViolEffectBeforeDeopt = ''effect-before-deopt''"
definition ViolLiveVarUnmapped :: string where "ViolLiveVarUnmapped = ''live-var-unmapped''"
definition ViolTransferNotLive :: string where "ViolTransferNotLive = ''transfer-not-live''"
definition ViolPointerCopyBoxless :: string where "ViolPointerCopyBoxless = ''pointer-copy-not-escaped''"
definition ViolDeoptHandlerMissing :: string where "ViolDeoptHandlerMissing = ''deopt-handler-missing''"

lemmas viol_codes = ViolGuardNotInterior_def ViolResumeMidExpr_def ViolEffectBeforeDeopt_def ViolLiveVarUnmapped_def
  ViolTransferNotLive_def ViolPointerCopyBoxless_def ViolDeoptHandlerMissing_def

text \<open>\<open>%q\<close> of a variable name. The control characters, the quote and the backslash are escaped as Go does; the bytes
  of a multi-byte rune, which Go prints unchanged when the rune is printable, are kept.\<close>

definition hex_digit :: "nat \<Rightarrow> char" where
  "hex_digit d = (if d < 10 then char_of (48 + d) else char_of (87 + d))"

definition quote_char :: "char \<Rightarrow> string" where
  "quote_char c =
     (let n = (of_char c :: nat) in
      if n = 0x22 \<or> n = 0x5C then [CHR 0x5C, c]
      else if n = 7 then [CHR 0x5C, CHR ''a''] else if n = 8 then [CHR 0x5C, CHR ''b'']
      else if n = 9 then [CHR 0x5C, CHR ''t''] else if n = 10 then [CHR 0x5C, CHR ''n'']
      else if n = 11 then [CHR 0x5C, CHR ''v''] else if n = 12 then [CHR 0x5C, CHR ''f'']
      else if n = 13 then [CHR 0x5C, CHR ''r'']
      else if n < 0x20 \<or> n = 0x7F then [CHR 0x5C, CHR ''x'', hex_digit (n div 16), hex_digit (n mod 16)]
      else [c])"

definition go_quote :: "string \<Rightarrow> string" where
  "go_quote s = CHR 0x22 # concat (map quote_char s) @ [CHR 0x22]"

section \<open>The verifier\<close>

fun check_transfers :: "string list \<Rightarrow> transfer_entry list \<Rightarrow> violation list" where
  "check_transfers live [] = []"
| "check_transfers live (t # ts) =
     (if Native t \<notin> set live
      then [Violation ViolTransferNotLive (''transfer for '' @ go_quote (Native t) @ '' targets a variable not live at the site'')]
      else []) @
     (if transfer_Kind t = MatPointerCopy \<and> \<not> Escaped t
      then [Violation ViolPointerCopyBoxless (''transfer for '' @ go_quote (Native t) @ '' pointer-copies a value with no escape header'')]
      else []) @
     check_transfers live ts"

fun check_live :: "string list \<Rightarrow> string list \<Rightarrow> violation list" where
  "check_live mapped [] = []"
| "check_live mapped (n # ns) =
     (if n \<notin> set mapped then [Violation ViolLiveVarUnmapped (''live variable '' @ go_quote n @ '' has no transfer entry'')] else []) @
     check_live mapped ns"

definition VerifyDeopt :: "deopt_site \<Rightarrow> violation list" where
  "VerifyDeopt s =
     (if guard_Edge (site_Guard s) \<noteq> EdgeDeopt
      then [Violation ViolGuardNotInterior (''guard at '' @ span_String (guard_Site (site_Guard s)) @ '' fails by '' @
              failure_edge_String (guard_Edge (site_Guard s)) @ '' but drives a deopt site'')]
      else []) @
     (if resume_Kind (site_Resume s) = ResumeMidExpression
      then [Violation ViolResumeMidExpr (''resume point '' @ itoa (resume_ID (site_Resume s)) @ '' at '' @
              span_String (resume_Site (site_Resume s)) @ '' is mid-expression'')]
      else []) @
     (if EffectBefore s
      then [Violation ViolEffectBeforeDeopt (''an observable effect precedes the deopt at resume point '' @ itoa (resume_ID (site_Resume s)))]
      else []) @
     check_transfers (LiveVars s) (Transfers s) @
     check_live (map Native (Transfers s)) (LiveVars s)"

fun check_sites :: "int list \<Rightarrow> deopt_site list \<Rightarrow> violation list" where
  "check_sites defined [] = []"
| "check_sites defined (s # ss) =
     VerifyDeopt s @
     (if guard_Edge (site_Guard s) = EdgeDeopt \<and> guard_Resume (site_Guard s) \<notin> set defined
      then [Violation ViolDeoptHandlerMissing (''guard at '' @ span_String (guard_Site (site_Guard s)) @ '' deopts to resume point '' @
              itoa (guard_Resume (site_Guard s)) @ '', which no site defines'')]
      else []) @
     check_sites defined ss"

definition VerifyPlan :: "deopt_site list \<Rightarrow> violation list" where
  "VerifyPlan sites = check_sites (map (resume_ID \<circ> site_Resume) sites) sites"

section \<open>What the verifier reports\<close>

definition deopt_ok :: "deopt_site \<Rightarrow> bool" where
  "deopt_ok s \<longleftrightarrow> guard_Edge (site_Guard s) = EdgeDeopt \<and> resume_Kind (site_Resume s) \<noteq> ResumeMidExpression \<and>
     \<not> EffectBefore s \<and> set (LiveVars s) = Native ` set (Transfers s) \<and>
     list_all (\<lambda>t. transfer_Kind t \<noteq> MatPointerCopy \<or> Escaped t) (Transfers s)"

abbreviation codes :: "violation list \<Rightarrow> string set" where
  "codes vs \<equiv> viol_Code ` set vs"

lemma check_transfers_codes:
  "c \<in> codes (check_transfers live ts) \<longleftrightarrow>
     c = ViolTransferNotLive \<and> \<not> Native ` set ts \<subseteq> set live \<or>
     c = ViolPointerCopyBoxless \<and> \<not> list_all (\<lambda>t. transfer_Kind t \<noteq> MatPointerCopy \<or> Escaped t) ts"
  by (induction ts) auto

lemma check_live_codes: "c \<in> codes (check_live mapped ns) \<longleftrightarrow> c = ViolLiveVarUnmapped \<and> \<not> set ns \<subseteq> set mapped"
  by (induction ns) auto

lemma codes_append: "codes (xs @ ys) = codes xs \<union> codes ys"
  by (simp add: image_Un)

lemma codes_if: "codes (if b then [Violation c d] else []) = (if b then {c} else {})"
  by simp

lemma VerifyDeopt_mem:
  "c \<in> codes (VerifyDeopt s) \<longleftrightarrow>
     c = ViolGuardNotInterior \<and> guard_Edge (site_Guard s) \<noteq> EdgeDeopt \<or>
     c = ViolResumeMidExpr \<and> resume_Kind (site_Resume s) = ResumeMidExpression \<or>
     c = ViolEffectBeforeDeopt \<and> EffectBefore s \<or>
     c = ViolTransferNotLive \<and> \<not> Native ` set (Transfers s) \<subseteq> set (LiveVars s) \<or>
     c = ViolPointerCopyBoxless \<and> \<not> list_all (\<lambda>t. transfer_Kind t \<noteq> MatPointerCopy \<or> Escaped t) (Transfers s) \<or>
     c = ViolLiveVarUnmapped \<and> \<not> set (LiveVars s) \<subseteq> Native ` set (Transfers s)"
  unfolding VerifyDeopt_def codes_append codes_if Un_iff check_transfers_codes check_live_codes by auto

lemma no_codes: "vs = [] \<longleftrightarrow> (\<forall>c. c \<notin> codes vs)"
  by auto

lemma VerifyDeopt_ok: "VerifyDeopt s = [] \<longleftrightarrow> deopt_ok s"
  unfolding no_codes VerifyDeopt_mem deopt_ok_def by blast

text \<open>C30: the deopt verifier reports each violation code exactly when the invariant it stands for is broken: the guard does
  not deopt, the resume point is mid-expression, an effect precedes it, a transfer names a dead variable,
  a pointer copy has no boxed home, or a live variable has no transfer.\<close>
theorem VerifyDeopt_reports:
  "(ViolGuardNotInterior \<in> codes (VerifyDeopt s) \<longleftrightarrow> guard_Edge (site_Guard s) \<noteq> EdgeDeopt) \<and>
   (ViolResumeMidExpr \<in> codes (VerifyDeopt s) \<longleftrightarrow> resume_Kind (site_Resume s) = ResumeMidExpression) \<and>
   (ViolEffectBeforeDeopt \<in> codes (VerifyDeopt s) \<longleftrightarrow> EffectBefore s) \<and>
   (ViolTransferNotLive \<in> codes (VerifyDeopt s) \<longleftrightarrow> \<not> Native ` set (Transfers s) \<subseteq> set (LiveVars s)) \<and>
   (ViolPointerCopyBoxless \<in> codes (VerifyDeopt s) \<longleftrightarrow> list_ex (\<lambda>t. transfer_Kind t = MatPointerCopy \<and> \<not> Escaped t) (Transfers s)) \<and>
   (ViolLiveVarUnmapped \<in> codes (VerifyDeopt s) \<longleftrightarrow> \<not> set (LiveVars s) \<subseteq> Native ` set (Transfers s))"
  unfolding VerifyDeopt_mem by (simp add: viol_codes list_all_iff list_ex_iff)

lemma check_sites_Nil:
  "check_sites defined ss = [] \<longleftrightarrow> list_all deopt_ok ss \<and> list_all (\<lambda>s. guard_Resume (site_Guard s) \<in> set defined) ss"
  by (induction ss) (auto simp: VerifyDeopt_ok deopt_ok_def)

text \<open>C29: the verifier accepts a unit's deopt plan exactly when every site is well formed and every guard resumes at a
  point that some site of the plan defines.\<close>
theorem VerifyPlan_accepts:
  "VerifyPlan sites = [] \<longleftrightarrow>
   list_all deopt_ok sites \<and> list_all (\<lambda>s. list_ex (\<lambda>r. resume_ID (site_Resume r) = guard_Resume (site_Guard s)) sites) sites"
  unfolding VerifyPlan_def check_sites_Nil list_all_iff list_ex_iff by (simp add: image_iff) metis

end
