(* ===== verification/Decision.thy ===== *)
theory Decision
  imports Deopt
begin

text \<open>
  \<^verbatim>\<open>pkg/partition/decision.go\<close>: the tier verdict of one unit.

  \<open>Decide\<close> is \<^const>\<open>None\<close> where \<open>MustRule\<close> panics. The theorems characterise the verdict in every mode down to
  the reason chain, read the three 64-bit tests as percentages of integers where the counts are \<open>in_range\<close>
  (fewer than two to the fortieth operations and guards, weights below two to the sixteenth, so that no product
  overflows), and show that later census facts only demote and what the forced tiers change.
\<close>

section \<open>Decisions\<close>

datatype reason = Reason (reason_Rule: string) (reason_Span: span) (reason_Scope: scope) (reason_Prose: string)

record decision =
  dec_Unit :: part_unit
  dec_State :: state
  dec_Reasons :: "reason list"
  dec_Score :: score
  dec_Excursions :: int64
  dec_Proofs :: int
  dec_Guards :: "guard list"
  dec_Deopts :: "deopt_site list"

definition dec_Tier :: "decision \<Rightarrow> string" where
  "dec_Tier d = state_Tier (dec_State d)"

datatype tier_mode = ModeAuto | ModeForceStatic | ModeForceBoxed

fun mode_String :: "tier_mode \<Rightarrow> string" where
  "mode_String ModeForceStatic = ''static''"
| "mode_String ModeForceBoxed = ''boxed''"
| "mode_String ModeAuto = ''auto''"

definition ParseMode :: "string \<Rightarrow> tier_mode \<times> bool" where
  "ParseMode s =
     (if s = '''' \<or> s = ''auto'' then (ModeAuto, True)
      else if s = ''static'' then (ModeForceStatic, True)
      else if s = ''boxed'' then (ModeForceBoxed, True)
      else (ModeAuto, False))"

record input =
  in_Unit :: part_unit
  in_Profile :: profile
  in_Proofs :: int
  in_Weights :: weights
  in_Guards :: "guard list"
  in_Deopts :: "deopt_site list"
  in_Mode :: tier_mode

definition in_weights :: "input \<Rightarrow> weights" where
  "in_weights i = (if Version (in_Weights i) = 0 then DefaultWeights else in_Weights i)"

definition census_reasons :: "fact list \<Rightarrow> reason list option" where
  "census_reasons fs = fold_opt (\<lambda>f rs. do {
     r \<leftarrow> MustRule (fact_Rule f);
     Some (if Hard r \<and> (rule_Scope r = ScopeUnit \<or> rule_Scope r = ScopeProgram)
           then rs @ [Reason (rule_ID r) (fact_Span f) (rule_Scope r) (Prose r)] else rs)
   }) fs []"

definition soft_reason :: "string \<Rightarrow> input \<Rightarrow> decision \<Rightarrow> decision option" where
  "soft_reason rid i d = do {
     r \<leftarrow> MustRule rid;
     Some (d\<lparr>dec_State := BoxedByCost,
             dec_Reasons := [Reason (rule_ID r) (unit_Span (in_Unit i)) (rule_Scope r) (Prose r)]\<rparr>)
   }"

definition land_static :: "input \<Rightarrow> decision \<Rightarrow> decision" where
  "land_static i d = d\<lparr>dec_Deopts := in_Deopts i,
     dec_State := (if 0 < sint (prof_Excursions (in_Profile i)) then StaticWithExcursions else StaticProven)\<rparr>"

definition placed_profile :: "input \<Rightarrow> profile" where
  "placed_profile i =
     (if in_Guards i = [] then in_Profile i
      else (in_Profile i)\<lparr>EntryGuards := EntryCount (PlanGuards (in_Guards i)), LoopGuards := LoopCount (PlanGuards (in_Guards i))\<rparr>)"

definition Decide :: "census \<Rightarrow> input \<Rightarrow> decision option" where
  "Decide c i = do {
     let w = in_weights i;
     let prof = placed_profile i;
     let d = \<lparr>dec_Unit = in_Unit i, dec_State = StaticProven, dec_Reasons = [], dec_Score = Score w prof,
              dec_Excursions = prof_Excursions (in_Profile i), dec_Proofs = in_Proofs i,
              dec_Guards = PlanGuards (in_Guards i), dec_Deopts = []\<rparr>;
     census \<leftarrow> census_reasons (Facts c (in_Unit i));
     let guardScore = EntryGuards prof * GuardEntryW w + LoopGuards prof * GuardLoopW w;
     if census \<noteq> [] then Some (d\<lparr>dec_State := BoxedByCensus, dec_Reasons := census\<rparr>)
     else if in_Mode i = ModeForceStatic then Some (land_static i d)
     else if \<not> ExcursionBudgetOK (in_Profile i) then soft_reason RuleExcursionBudget i d
     else if \<not> EmitStatic (dec_Score d) then soft_reason RuleCostModel i d
     else if \<not> guardBudgetOK guardScore (Static (dec_Score d) - guardScore) then soft_reason RuleGuardBudget i d
     else if in_Mode i = ModeForceBoxed then soft_reason RuleTierForcedBoxed i d
     else Some (land_static i d)
   }"

definition zero_profile :: profile where
  "zero_profile = \<lparr>UnboxedOps = 0, ExcursionOps = 0, ThunkCross = 0, EntryGuards = 0, LoopGuards = 0, prof_Excursions = 0\<rparr>"

definition zero_weights :: weights where
  "zero_weights = \<lparr>Version = 0, UnboxedOp = 0, BoxedOp = 0, ThunkCrossW = 0, GuardEntryW = 0, GuardLoopW = 0\<rparr>"

section \<open>The verdict\<close>

definition hard_fact :: "fact \<Rightarrow> bool" where
  "hard_fact f = (case LookupRule (fact_Rule f) of
     Some r \<Rightarrow> Hard r \<and> (rule_Scope r = ScopeUnit \<or> rule_Scope r = ScopeProgram) | None \<Rightarrow> False)"

definition fact_reason :: "fact \<Rightarrow> reason" where
  "fact_reason f = (case LookupRule (fact_Rule f) of
     Some r \<Rightarrow> Reason (rule_ID r) (fact_Span f) (rule_Scope r) (Prose r) | None \<Rightarrow> Reason [] (fact_Span f) ScopeUnit [])"

text \<open>Every recorded fact names a catalogued rule.\<close>

definition known_facts :: "census \<Rightarrow> bool" where
  "known_facts c \<longleftrightarrow> (\<forall>u. list_all (\<lambda>f. LookupRule (fact_Rule f) \<noteq> None) (Facts c u))"

lemma MustRule_Lookup: "MustRule i = LookupRule i"
  by (simp add: MustRule_def)

lemma census_reasons_run:
  assumes "list_all (\<lambda>f. LookupRule (fact_Rule f) \<noteq> None) fs"
  shows "census_reasons fs = Some (map fact_reason (filter hard_fact fs))"
proof -
  have "fold_opt (\<lambda>f rs. do { r \<leftarrow> MustRule (fact_Rule f);
      Some (if Hard r \<and> (rule_Scope r = ScopeUnit \<or> rule_Scope r = ScopeProgram)
        then rs @ [Reason (rule_ID r) (fact_Span f) (rule_Scope r) (Prose r)] else rs) }) fs rs =
      Some (rs @ map fact_reason (filter hard_fact fs))" for rs
    using assms
  proof (induction fs arbitrary: rs)
    case (Cons f fs)
    then obtain r where r: "LookupRule (fact_Rule f) = Some r" by auto
    have "list_all (\<lambda>f. LookupRule (fact_Rule f) \<noteq> None) fs" using Cons.prems by simp
    note IH = Cons.IH [OF this]
    have "MustRule (fact_Rule f) = Some r" "hard_fact f \<longleftrightarrow> Hard r \<and> (rule_Scope r = ScopeUnit \<or> rule_Scope r = ScopeProgram)"
      "fact_reason f = Reason (rule_ID r) (fact_Span f) (rule_Scope r) (Prose r)"
      by (simp_all add: MustRule_Lookup r hard_fact_def fact_reason_def)
    then show ?case by (simp add: IH)
  qed simp
  then show ?thesis by (simp add: census_reasons_def)
qed

lemma soft_rules:
  "\<exists>r. MustRule RuleExcursionBudget = Some r" "\<exists>r. MustRule RuleCostModel = Some r"
  "\<exists>r. MustRule RuleGuardBudget = Some r" "\<exists>r. MustRule RuleTierForcedBoxed = Some r"
  by (simp_all add: MustRule_def LookupRule_rules rules_def rule_ids)

text \<open>The outcome of the excursion, cost and guard tests, as the code computes it.\<close>

record budgets =
  fits_excursions :: bool
  fits_cost :: bool
  fits_guards :: bool

definition tests :: "input \<Rightarrow> budgets" where
  "tests i =
     (let w = in_weights i; p = placed_profile i; sc = Score w p; g = EntryGuards p * GuardEntryW w + LoopGuards p * GuardLoopW w in
      \<lparr>fits_excursions = ExcursionBudgetOK (in_Profile i), fits_cost = EmitStatic sc, fits_guards = guardBudgetOK g (Static sc - g)\<rparr>)"

text \<open>The same three tests as percentages of integers: the share of excursion operations, the static score against the boxed
  one, and the guards' share of the rest of the static score.\<close>

definition percents :: "input \<Rightarrow> budgets" where
  "percents i =
     (let w = in_weights i; p = placed_profile i;
          unboxed = sint (UnboxedOps p); excursions = sint (ExcursionOps p); total = unboxed + excursions;
          guards = sint (EntryGuards p) * sint (GuardEntryW w) + sint (LoopGuards p) * sint (GuardLoopW w);
          ops = unboxed * sint (UnboxedOp w) + excursions * sint (BoxedOp w) + sint (ThunkCross p) * sint (ThunkCrossW w) in
      \<lparr>fits_excursions = (100 * excursions \<le> 25 * total),
       fits_cost = (100 * (ops + guards) < 60 * (total * sint (BoxedOp w))),
       fits_guards = (100 * guards \<le> 15 * ops)\<rparr>)"

definition below_word :: "int \<Rightarrow> int64 \<Rightarrow> bool" where
  "below_word b x \<longleftrightarrow> 0 \<le> sint x \<and> sint x < b"

definition in_range :: "input \<Rightarrow> bool" where
  "in_range i \<longleftrightarrow> (let w = in_weights i; p = in_Profile i in
     list_all (below_word (2 ^ 40)) [UnboxedOps p, ExcursionOps p, ThunkCross p, EntryGuards p, LoopGuards p] \<and>
     list_all (below_word (2 ^ 16)) [UnboxedOp w, BoxedOp w, ThunkCrossW w, GuardEntryW w, GuardLoopW w] \<and>
     length (in_Guards i) < 2 ^ 40)"

definition worth_static :: "budgets \<Rightarrow> bool" where
  "worth_static b \<longleftrightarrow> fits_excursions b \<and> fits_cost b \<and> fits_guards b"

text \<open>The soft rule that boxes a unit: the first test that fails, else the forced tier.\<close>

definition soft_rule :: "budgets \<Rightarrow> string" where
  "soft_rule b = (if \<not> fits_excursions b then RuleExcursionBudget else if \<not> fits_cost b then RuleCostModel
     else if \<not> fits_guards b then RuleGuardBudget else RuleTierForcedBoxed)"

text \<open>What a decision must look like, given the tier it landed on.\<close>

definition static_decision :: "input \<Rightarrow> decision \<Rightarrow> bool" where
  "static_decision i d \<longleftrightarrow> dec_Reasons d = [] \<and> dec_Deopts d = in_Deopts i \<and>
     dec_State d = (if 0 < sint (prof_Excursions (in_Profile i)) then StaticWithExcursions else StaticProven)"

definition boxed_decision :: "budgets \<Rightarrow> census \<Rightarrow> input \<Rightarrow> decision \<Rightarrow> bool" where
  "boxed_decision b c i d \<longleftrightarrow> dec_Deopts d = [] \<and>
     (if list_ex hard_fact (Facts c (in_Unit i))
      then dec_State d = BoxedByCensus \<and> dec_Reasons d = map fact_reason (filter hard_fact (Facts c (in_Unit i)))
      else dec_State d = BoxedByCost \<and>
        (\<exists>r. LookupRule (soft_rule b) = Some r \<and>
           dec_Reasons d = [Reason (soft_rule b) (unit_Span (in_Unit i)) (rule_Scope r) (Prose r)]))"

definition lands_static :: "budgets \<Rightarrow> census \<Rightarrow> input \<Rightarrow> bool" where
  "lands_static b c i \<longleftrightarrow> \<not> list_ex hard_fact (Facts c (in_Unit i)) \<and>
     (in_Mode i = ModeForceStatic \<or> in_Mode i = ModeAuto \<and> worth_static b)"

subsection \<open>The tests as percentages\<close>

lemma sint_small_nat: "n < 2 ^ 40 \<Longrightarrow> sint (of_nat n :: int64) = int n"
  using sint_word_of_int_in64 [of "int n"] by (simp add: in64_def)

lemma placed_range:
  assumes "in_range i"
  shows "below_word (2 ^ 40) (EntryGuards (placed_profile i))" "below_word (2 ^ 40) (LoopGuards (placed_profile i))"
proof -
  have "length (filter P (PlanGuards (in_Guards i))) < 2 ^ 40" for P
    using order_trans [OF length_filter_le length_PlanGuards, of P "in_Guards i"] assms
    by (simp add: in_range_def Let_def)
  then show "below_word (2 ^ 40) (EntryGuards (placed_profile i))" "below_word (2 ^ 40) (LoopGuards (placed_profile i))"
    using assms by (auto simp: placed_profile_def in_range_def Let_def guard_counts below_word_def sint_small_nat)
qed

lemma below_mult:
  assumes "below_word (2 ^ 40) a" "below_word (2 ^ 16) b"
  shows "0 \<le> sint a * sint b" "sint a * sint b < 2 ^ 56"
proof -
  show "0 \<le> sint a * sint b" using assms by (simp add: below_word_def)
  have "sint a * sint b < 2 ^ 40 * 2 ^ 16" using assms by (intro mult_strict_mono) (auto simp: below_word_def)
  then show "sint a * sint b < 2 ^ 56" by simp
qed

lemma tests_percents:
  assumes r: "in_range i"
  shows "tests i = percents i"
proof -
  define w p where wp: "w = in_weights i" "p = placed_profile i"
  have same: "ExcursionOps (in_Profile i) = ExcursionOps p" "TotalOps (in_Profile i) = TotalOps p"
    by (simp_all add: wp placed_profile_def TotalOps_def)
  have b: "below_word (2 ^ 40) (UnboxedOps p)" "below_word (2 ^ 40) (ExcursionOps p)" "below_word (2 ^ 40) (ThunkCross p)"
    "below_word (2 ^ 40) (EntryGuards p)" "below_word (2 ^ 40) (LoopGuards p)"
    "below_word (2 ^ 16) (UnboxedOp w)" "below_word (2 ^ 16) (BoxedOp w)" "below_word (2 ^ 16) (ThunkCrossW w)"
    "below_word (2 ^ 16) (GuardEntryW w)" "below_word (2 ^ 16) (GuardLoopW w)"
    using r placed_range [OF r] by (auto simp: wp in_range_def placed_profile_def Let_def)
  note bounds = below_mult [OF b(1,6)] below_mult [OF b(2,7)] below_mult [OF b(3,8)] below_mult [OF b(4,9)]
    below_mult [OF b(5,10)] below_mult [OF b(1,7)]
  define u x where ux: "u = sint (UnboxedOps p)" "x = sint (ExcursionOps p)"
  define g ops bx where go: "g = sint (EntryGuards p) * sint (GuardEntryW w) + sint (LoopGuards p) * sint (GuardLoopW w)"
    "ops = u * sint (UnboxedOp w) + x * sint (BoxedOp w) + sint (ThunkCross p) * sint (ThunkCrossW w)"
    "bx = (u + x) * sint (BoxedOp w)"
  have le: "0 \<le> u" "u < 2 ^ 40" "0 \<le> x" "x < 2 ^ 40" "0 \<le> g" "g < 2 ^ 57" "0 \<le> ops" "ops < 2 ^ 58" "0 \<le> bx" "bx < 2 ^ 57"
    using b(1,2) bounds by (auto simp: below_word_def go ux algebra_simps)
  have words: "ExcursionOps p * 4 = word_of_int (x * 4)" "TotalOps p = word_of_int (u + x)"
    "Static (Score w p) * 5 = word_of_int ((ops + g) * 5)" "Boxed (Score w p) * 3 = word_of_int (bx * 3)"
    "(EntryGuards p * GuardEntryW w + LoopGuards p * GuardLoopW w) * 20 = word_of_int (g * 20)"
    "(Static (Score w p) - (EntryGuards p * GuardEntryW w + LoopGuards p * GuardLoopW w)) * 3 = word_of_int (ops * 3)"
    by (simp_all add: go ux Score_def TotalOps_def algebra_simps)
  have ranges: "in64 (x * 4)" "in64 (u + x)" "in64 ((ops + g) * 5)" "in64 (bx * 3)" "in64 (g * 20)" "in64 (ops * 3)"
    using le by (simp_all add: in64_def)
  have "ExcursionBudgetOK (in_Profile i) \<longleftrightarrow> 100 * x \<le> 25 * (u + x)"
    unfolding ExcursionBudgetOK_def same words sint_word_of_int_in64 [OF ranges(1)] sint_word_of_int_in64 [OF ranges(2)] by arith
  moreover have "EmitStatic (Score w p) \<longleftrightarrow> 100 * (ops + g) < 60 * bx"
    unfolding EmitStatic_def words sint_word_of_int_in64 [OF ranges(3)] sint_word_of_int_in64 [OF ranges(4)] by arith
  moreover have "guardBudgetOK (EntryGuards p * GuardEntryW w + LoopGuards p * GuardLoopW w)
      (Static (Score w p) - (EntryGuards p * GuardEntryW w + LoopGuards p * GuardLoopW w)) \<longleftrightarrow> 100 * g \<le> 15 * ops"
    unfolding guardBudgetOK_def words sint_word_of_int_in64 [OF ranges(5)] sint_word_of_int_in64 [OF ranges(6)] by arith
  ultimately show ?thesis unfolding tests_def percents_def Let_def wp [symmetric] go ux by simp
qed

subsection \<open>Running the decision\<close>

lemma rule_ID_Lookup: "LookupRule i = Some r \<Longrightarrow> rule_ID r = i"
  unfolding LookupRule_rules by (auto dest: map_of_SomeD)

lemma soft_reason_boxed:
  assumes "soft_rule b = rid" "\<exists>r. MustRule rid = Some r" "\<not> list_ex hard_fact (Facts c (in_Unit i))" "dec_Deopts d = []"
    and "dec_Unit d = in_Unit i"
  shows "\<exists>d'. soft_reason rid i d = Some d' \<and> dec_Unit d' = in_Unit i \<and> boxed_decision b c i d'"
  using assms by (auto simp: soft_reason_def boxed_decision_def MustRule_Lookup rule_ID_Lookup)

lemma Decide_run:
  assumes "known_facts c"
  shows "\<exists>d. Decide c i = Some d \<and> dec_Unit d = in_Unit i \<and>
    (if lands_static (tests i) c i then static_decision i d else boxed_decision (tests i) c i d)"
proof -
  have cr: "census_reasons (Facts c (in_Unit i)) = Some (map fact_reason (filter hard_fact (Facts c (in_Unit i))))"
    using assms by (simp add: known_facts_def census_reasons_run)
  show ?thesis
  proof (cases "list_ex hard_fact (Facts c (in_Unit i))")
    case True
    then have "filter hard_fact (Facts c (in_Unit i)) \<noteq> []" by (auto simp: list_ex_iff filter_empty_conv)
    then show ?thesis using True by (auto simp: Decide_def cr Let_def lands_static_def boxed_decision_def)
  next
    case False
    then have e: "filter hard_fact (Facts c (in_Unit i)) = []" by (auto simp: list_ex_iff filter_empty_conv)
    show ?thesis
      using False
      by (cases "in_Mode i")
        (auto simp: Decide_def cr e Let_def lands_static_def worth_static_def tests_def soft_rule_def static_decision_def land_static_def
          intro!: soft_reason_boxed soft_rules)
  qed
qed

lemma known_NewCensus: "known_facts NewCensus"
  by (simp add: known_facts_def Facts_def NewCensus_def)

lemma Facts_Record:
  assumes "Record u f c = Some c'"
  shows "Facts c' v = (if unit_Key v = unit_Key u then Facts c v @ [f] else Facts c v)" and "LookupRule (fact_Rule f) \<noteq> None"
proof -
  obtain r where r: "MustRule (fact_Rule f) = Some r" using assms by (cases "MustRule (fact_Rule f)") (auto simp: Record_def)
  then show "LookupRule (fact_Rule f) \<noteq> None" by (simp add: MustRule_Lookup)
  have "facts (record_scope r f d) = facts d" for d by (cases "rule_Scope r") (simp_all add: record_scope_def)
  then have "facts c' = (facts c)(unit_Key u \<mapsto> Facts c u @ [f])" using assms r by (auto simp: Record_def Let_def)
  then show "Facts c' v = (if unit_Key v = unit_Key u then Facts c v @ [f] else Facts c v)" by (simp add: Facts_def)
qed

lemma known_Record: "Record u f c = Some c' \<Longrightarrow> known_facts c \<Longrightarrow> known_facts c'"
  using Facts_Record [of u f c c'] by (auto simp: known_facts_def)

lemma known_recorded: "recorded c c' \<Longrightarrow> known_facts c \<Longrightarrow> known_facts c'"
  by (induction rule: recorded.induct) (auto intro: known_Record)

text \<open>C3: the tier verdict. With a census filled by \<open>Record\<close>, and counts and weights \<open>in_range\<close>, \<open>Decide\<close> does not panic. It lands a
  unit static exactly when no unit- or program-scoped hard fact is recorded against it and either static is forced or, in
  automatic mode, at most 25 percent of the operations are excursions, the static score is below 60 percent of the boxed
  one and the guards cost at most 15 percent of the rest. A static unit has no reasons and keeps its deopt sites. A boxed
  unit has no deopt sites and its reason chain is, in this order of preference, one reason for each hard fact, with the
  rule's id, scope and prose and the fact's span, or the excursion, cost or guard rule for the first
  percentage that fails, or the forced-tier rule, at the unit's span.\<close>
theorem Decide_verdict:
  assumes "recorded NewCensus c" and "in_range i"
  shows "\<exists>d. Decide c i = Some d \<and> (IsStatic (dec_State d) \<longleftrightarrow> lands_static (percents i) c i) \<and>
    (if IsStatic (dec_State d) then static_decision i d else boxed_decision (percents i) c i d \<and> dec_Reasons d \<noteq> [])"
proof -
  obtain d where d: "Decide c i = Some d"
    "if lands_static (percents i) c i then static_decision i d else boxed_decision (percents i) c i d"
    using Decide_run [OF known_recorded [OF assms(1) known_NewCensus], of i, unfolded tests_percents [OF assms(2)]] by blast
  have s: "static_decision i d \<Longrightarrow> IsStatic (dec_State d)" by (auto simp: static_decision_def IsStatic_def)
  have "boxed_decision (percents i) c i d \<Longrightarrow> \<not> IsStatic (dec_State d) \<and> dec_Reasons d \<noteq> []"
    by (auto simp: boxed_decision_def IsStatic_def list_ex_iff filter_empty_conv split: if_splits)
  then show ?thesis using d s by (auto split: if_splits)
qed

definition demo_input :: "tier_mode \<Rightarrow> input" where
  "demo_input m = \<lparr>in_Unit = demo_unit 0, in_Profile = zero_profile\<lparr>UnboxedOps := 10\<rparr>, in_Proofs = 1, in_Weights = zero_weights,
     in_Guards = [], in_Deopts = [], in_Mode = m\<rparr>"

lemmas demo_input_simps = demo_input_def zero_profile_def zero_weights_def placed_profile_def in_weights_def Score_def
  DefaultWeights_def TotalOps_def

lemma demo_range: "in_range (demo_input m)"
  by (simp add: in_range_def below_word_def Let_def demo_input_simps)

lemma demo_lands: "lands_static (tests (demo_input ModeAuto)) NewCensus (demo_input ModeAuto)"
  unfolding tests_percents [OF demo_range]
  by (simp add: lands_static_def worth_static_def percents_def Let_def Facts_def NewCensus_def demo_input_simps)

theorem Decide_verdict_witness:
  "(\<exists>d. Decide NewCensus (demo_input ModeAuto) = Some d \<and> IsStatic (dec_State d) \<and> dec_Reasons d = []) \<and>
   (\<exists>d. Decide NewCensus (demo_input ModeForceBoxed) = Some d \<and> \<not> IsStatic (dec_State d) \<and>
      map reason_Rule (dec_Reasons d) = [RuleTierForcedBoxed])"
proof
  show "\<exists>d. Decide NewCensus (demo_input ModeAuto) = Some d \<and> IsStatic (dec_State d) \<and> dec_Reasons d = []"
    using Decide_verdict [OF recorded.start demo_range, of ModeAuto] demo_lands [unfolded tests_percents [OF demo_range]]
    by (auto simp: static_decision_def)
  have "percents (demo_input ModeForceBoxed) = \<lparr>fits_excursions = True, fits_cost = True, fits_guards = True\<rparr>"
    by (simp add: percents_def Let_def demo_input_simps)
  then show "\<exists>d. Decide NewCensus (demo_input ModeForceBoxed) = Some d \<and> \<not> IsStatic (dec_State d) \<and>
      map reason_Rule (dec_Reasons d) = [RuleTierForcedBoxed]"
    using Decide_verdict [OF recorded.start demo_range, of ModeForceBoxed]
    by (auto simp: lands_static_def boxed_decision_def soft_rule_def Facts_def NewCensus_def demo_input_def)
qed

section \<open>Census facts only demote\<close>

lemma Decide_no_hard:
  assumes "known_facts c" "known_facts c'" "\<not> list_ex hard_fact (Facts c (in_Unit i))" "\<not> list_ex hard_fact (Facts c' (in_Unit i))"
  shows "Decide c i = Decide c' i"
proof -
  have "filter hard_fact (Facts c (in_Unit i)) = []" "filter hard_fact (Facts c' (in_Unit i)) = []"
    using assms(3,4) by (auto simp: list_ex_iff filter_empty_conv)
  then have "census_reasons (Facts c (in_Unit i)) = census_reasons (Facts c' (in_Unit i))"
    using assms(1,2) by (simp add: known_facts_def census_reasons_run)
  then show ?thesis by (simp add: Decide_def)
qed

lemma static_no_hard:
  assumes "known_facts c" "Decide c i = Some d" "IsStatic (dec_State d)"
  shows "\<not> list_ex hard_fact (Facts c (in_Unit i))"
  using Decide_run [OF assms(1), of i] assms(2,3)
  by (auto simp: lands_static_def boxed_decision_def IsStatic_def split: if_splits)

text \<open>C32: facts recorded later only demote: a unit that is static under the larger census has the same decision under the
  smaller one, so no census fact can turn a boxed unit static.\<close>
theorem Decide_antitone:
  assumes "recorded NewCensus c" "recorded c c'" "Decide c' i = Some d" "IsStatic (dec_State d)"
  shows "Decide c i = Some d"
proof -
  have k: "known_facts c" "known_facts c'" using assms(1,2) known_recorded known_NewCensus by blast+
  have h: "\<not> list_ex hard_fact (Facts c' (in_Unit i))" by (rule static_no_hard [OF k(2) assms(3,4)])
  obtain fs where "Facts c' (in_Unit i) = Facts c (in_Unit i) @ fs" using recorded_grows [OF assms(2)] by blast
  with h have "\<not> list_ex hard_fact (Facts c (in_Unit i))" by simp
  then show ?thesis using Decide_no_hard [OF k _ h] assms(3) by simp
qed

theorem Decide_antitone_witness:
  "\<exists>c d. Record (demo_unit 9) (demo_fact ''C'') NewCensus = Some c \<and> Decide c (demo_input ModeAuto) = Some d \<and>
     IsStatic (dec_State d) \<and> Decide NewCensus (demo_input ModeAuto) = Some d"
proof -
  obtain c where c: "Record (demo_unit 9) (demo_fact ''C'') NewCensus = Some c"
    using demo_rule by (auto simp: Record_def demo_fact_def Let_def)
  have rc: "recorded NewCensus c" by (rule recorded.more [OF recorded.start c])
  have "unit_Key (demo_unit 0) \<noteq> unit_Key (demo_unit 9)"
    using split_last_nul [OF itoa_plain itoa_plain, of "''m'' @ nul @ ''f''" 0 "''m'' @ nul @ ''f''" 9]
    by (auto simp: unit_Key_def demo_unit_def)
  then have "Facts c (demo_unit 0) = []" using Facts_Record(1) [OF c, of "demo_unit 0"] by (simp add: Facts_def NewCensus_def)
  then have "lands_static (tests (demo_input ModeAuto)) c (demo_input ModeAuto)"
    using demo_lands by (simp add: lands_static_def demo_input_def)
  then obtain d where d: "Decide c (demo_input ModeAuto) = Some d" "static_decision (demo_input ModeAuto) d"
    using Decide_run [OF known_recorded [OF rc known_NewCensus], of "demo_input ModeAuto"] by auto
  then have st: "IsStatic (dec_State d)" by (auto simp: static_decision_def IsStatic_def)
  have "Decide NewCensus (demo_input ModeAuto) = Some d" by (rule Decide_antitone [OF recorded.start rc d(1) st])
  with c d(1) st show ?thesis by (intro exI conjI)
qed

section \<open>Forced tiers\<close>

lemma mode_irrelevant [simp]:
  "in_weights (i\<lparr>in_Mode := m\<rparr>) = in_weights i" "placed_profile (i\<lparr>in_Mode := m\<rparr>) = placed_profile i"
  by (simp_all add: in_weights_def placed_profile_def)

lemma tests_mode [simp]: "tests (i\<lparr>in_Mode := m\<rparr>) = tests i"
  by (simp add: tests_def)

lemma Decide_mode_static:
  assumes "known_facts c" "lands_static (tests i) c (i\<lparr>in_Mode := ModeAuto\<rparr>)"
  shows "Decide c (i\<lparr>in_Mode := ModeAuto\<rparr>) = Decide c (i\<lparr>in_Mode := ModeForceStatic\<rparr>)"
proof -
  have "filter hard_fact (Facts c (in_Unit i)) = []" using assms(2) by (auto simp: lands_static_def list_ex_iff filter_empty_conv)
  then have "census_reasons (Facts c (in_Unit i)) = Some []"
    using assms(1) by (simp add: known_facts_def census_reasons_run)
  moreover have "worth_static (tests i)" using assms(2) by (simp add: lands_static_def)
  ultimately show ?thesis
    by (simp add: Decide_def worth_static_def tests_def Let_def land_static_def)
qed

lemma Decide_mode_boxed:
  assumes "known_facts c" "\<not> lands_static (tests i) c (i\<lparr>in_Mode := ModeAuto\<rparr>)"
  shows "Decide c (i\<lparr>in_Mode := ModeAuto\<rparr>) = Decide c (i\<lparr>in_Mode := ModeForceBoxed\<rparr>)"
proof -
  have cr: "census_reasons (Facts c (in_Unit i)) = Some (map fact_reason (filter hard_fact (Facts c (in_Unit i))))"
    using assms(1) by (simp add: known_facts_def census_reasons_run)
  have "filter hard_fact (Facts c (in_Unit i)) \<noteq> [] \<or> \<not> worth_static (tests i)"
    using assms(2) by (auto simp: lands_static_def list_ex_iff filter_empty_conv)
  then show ?thesis
    by (auto simp: Decide_def cr worth_static_def tests_def Let_def soft_reason_def)
qed

text \<open>C31: the tier lever. Forcing boxed never leaves a unit static and changes nothing for a unit that was boxed anyway;
  forcing static never changes a unit that was static anyway; and neither overrides a hard census fact, which
  boxes the unit in all three modes.\<close>
theorem forced_modes:
  assumes "recorded NewCensus c"
  shows "\<exists>a s b. Decide c (i\<lparr>in_Mode := ModeAuto\<rparr>) = Some a \<and> Decide c (i\<lparr>in_Mode := ModeForceStatic\<rparr>) = Some s \<and>
    Decide c (i\<lparr>in_Mode := ModeForceBoxed\<rparr>) = Some b \<and> \<not> IsStatic (dec_State b) \<and>
    (if IsStatic (dec_State a) then s = a else b = a) \<and>
    (dec_State a = BoxedByCensus \<longleftrightarrow> \<not> IsStatic (dec_State s)) \<and> (dec_State b = BoxedByCensus \<longleftrightarrow> \<not> IsStatic (dec_State s))"
proof -
  have k: "known_facts c" using assms known_recorded known_NewCensus by blast
  let ?m = "\<lambda>m. i\<lparr>in_Mode := m\<rparr>"
  obtain a where a: "Decide c (?m ModeAuto) = Some a" "if lands_static (tests i) c (?m ModeAuto) then static_decision (?m ModeAuto) a else boxed_decision (tests i) c (?m ModeAuto) a"
    using Decide_run [OF k, of "?m ModeAuto", unfolded tests_mode] by blast
  obtain s where s: "Decide c (?m ModeForceStatic) = Some s"
      "if lands_static (tests i) c (?m ModeForceStatic) then static_decision (?m ModeForceStatic) s else boxed_decision (tests i) c (?m ModeForceStatic) s"
    using Decide_run [OF k, of "?m ModeForceStatic", unfolded tests_mode] by blast
  obtain b where b: "Decide c (?m ModeForceBoxed) = Some b"
      "if lands_static (tests i) c (?m ModeForceBoxed) then static_decision (?m ModeForceBoxed) b else boxed_decision (tests i) c (?m ModeForceBoxed) b"
    using Decide_run [OF k, of "?m ModeForceBoxed", unfolded tests_mode] by blast
  have b': "boxed_decision (tests i) c (?m ModeForceBoxed) b" using b(2) by (simp add: lands_static_def)
  have "if IsStatic (dec_State a) then s = a else b = a"
    using Decide_mode_static [OF k, of i] Decide_mode_boxed [OF k, of i] a s(1) b(1)
    by (auto simp: static_decision_def boxed_decision_def IsStatic_def split: if_splits)
  moreover have "\<not> IsStatic (dec_State b)" using b' by (auto simp: boxed_decision_def IsStatic_def split: if_splits)
  moreover have "dec_State a = BoxedByCensus \<longleftrightarrow> list_ex hard_fact (Facts c (in_Unit i))"
      "dec_State b = BoxedByCensus \<longleftrightarrow> list_ex hard_fact (Facts c (in_Unit i))"
      "IsStatic (dec_State s) \<longleftrightarrow> \<not> list_ex hard_fact (Facts c (in_Unit i))"
    using a(2) s(2) b' by (auto simp: lands_static_def static_decision_def boxed_decision_def IsStatic_def split: if_splits)
  ultimately show ?thesis using a(1) s(1) b(1) by auto
qed

theorem forced_modes_witness:
  "\<exists>a s b. Decide NewCensus (demo_input ModeAuto) = Some a \<and> Decide NewCensus (demo_input ModeForceStatic) = Some s \<and>
     Decide NewCensus (demo_input ModeForceBoxed) = Some b \<and> s = a \<and> \<not> IsStatic (dec_State b)"
proof -
  have m: "(demo_input ModeAuto)\<lparr>in_Mode := m\<rparr> = demo_input m" for m by (simp add: demo_input_def)
  obtain a s b where d: "Decide NewCensus (demo_input ModeAuto) = Some a" "Decide NewCensus (demo_input ModeForceStatic) = Some s"
      "Decide NewCensus (demo_input ModeForceBoxed) = Some b" "\<not> IsStatic (dec_State b)" "if IsStatic (dec_State a) then s = a else b = a"
    using forced_modes [OF recorded.start, of "demo_input ModeAuto", unfolded m] by blast
  have "IsStatic (dec_State a)"
    using Decide_run [OF known_NewCensus, of "demo_input ModeAuto"] demo_lands d(1) by (auto simp: static_decision_def IsStatic_def)
  with d show ?thesis by auto
qed

text \<open>C33: a mode's name parses back to it, the empty flag is automatic, and every other text is refused.\<close>
theorem ParseMode_String:
  "ParseMode s = (m, True) \<longleftrightarrow> s = mode_String m \<or> s = '''' \<and> m = ModeAuto"
  by (cases m) (auto simp: ParseMode_def)

end
