(* ===== verification/Partitioner.thy ===== *)
theory Partitioner
  imports Decision
begin

text \<open>
  \<^verbatim>\<open>pkg/partition/partition.go\<close>: the partitioner over the whole program.

  The theorems show that a filled partitioner decides every known unit exactly once and without
  panicking, that a unit nobody priced is boxed, that the decision hash does not depend on the order of
  the decisions, and that \<open>ByReason\<close> counts the reasons.
\<close>

section \<open>Operations\<close>

record partitioner =
  part_census :: census
  inputs :: "string \<Rightarrow> input option"

definition New :: partitioner where
  "New = \<lparr>part_census = NewCensus, inputs = (\<lambda>_. None)\<rparr>"

definition Add :: "input \<Rightarrow> partitioner \<Rightarrow> partitioner" where
  "Add i p = p\<lparr>inputs := (inputs p)(unit_Key (in_Unit i) \<mapsto> i),
     part_census := (part_census p)\<lparr>units := AList.update (unit_Key (in_Unit i)) (in_Unit i) (units (part_census p))\<rparr>\<rparr>"

definition empty_input :: "part_unit \<Rightarrow> input" where
  "empty_input u = \<lparr>in_Unit = u, in_Profile = zero_profile, in_Proofs = 0, in_Weights = zero_weights, in_Guards = [],
     in_Deopts = [], in_Mode = ModeAuto\<rparr>"

definition input_of :: "partitioner \<Rightarrow> part_unit \<Rightarrow> input" where
  "input_of p u = (case inputs p (unit_Key u) of Some i \<Rightarrow> i | None \<Rightarrow> empty_input u)"

definition Partitioner_Decide :: "partitioner \<Rightarrow> decision list option" where
  "Partitioner_Decide p = those (map (\<lambda>u. Decide (part_census p) (input_of p u)) (Units (part_census p)))"

definition bump :: "string \<Rightarrow> (string \<times> int) list \<Rightarrow> (string \<times> int) list" where
  "bump k m = AList.update k ((case map_of m k of Some n \<Rightarrow> n | None \<Rightarrow> 0) + 1) m"

definition ByReason :: "decision list \<Rightarrow> (string \<times> int) list" where
  "ByReason ds = fold (\<lambda>d m. fold (\<lambda>r. bump (reason_Rule r)) (dec_Reasons d) m) ds []"

definition hash_record :: "decision \<Rightarrow> string" where
  "hash_record d =
     unit_Key (dec_Unit d) @ ''|'' @ state_String (dec_State d) @ ''|'' @ itoa (sint (Static (dec_Score d))) @ '','' @
     itoa (sint (Boxed (dec_Score d))) @ ''|'' @
     concat (map (\<lambda>r. reason_Rule r @ ''@'' @ span_String (reason_Span r) @ '';'') (dec_Reasons d)) @ ''|'' @
     concat (map (\<lambda>g. guard_kind_String (guard_Kind g) @ ''@'' @ span_String (guard_Site g) @ ''>'' @
       failure_edge_String (guard_Edge g) @ '';'') (dec_Guards d)) @ ''|'' @
     concat (map (\<lambda>s. ''r'' @ itoa (resume_ID (site_Resume s)) @ ''@'' @ span_String (resume_Site (site_Resume s)) @ ''#'' @
       itoa (LiveCount s) @ '';'') (dec_Deopts d)) @ [CHR 0x0A]"

definition hex_encode :: "string \<Rightarrow> string" where
  "hex_encode bs = concat (map (\<lambda>c. [hex_digit ((of_char c :: nat) div 16), hex_digit ((of_char c :: nat) mod 16)]) bs)"

text \<open>\<open>sha256\<close> is the digest function of Go's \<open>crypto/sha256\<close>.\<close>

definition DecisionHash :: "(string \<Rightarrow> string) \<Rightarrow> decision list \<Rightarrow> string" where
  "DecisionHash sha256 ds = hex_encode (sha256 (concat (map hash_record
     (sort_slice (\<lambda>a b. unit_Key (dec_Unit a) < unit_Key (dec_Unit b)) ds))))"

section \<open>Every unit is decided\<close>

inductive filled :: "partitioner \<Rightarrow> bool" where
  new: "filled New"
| add: "filled p \<Longrightarrow> filled (Add i p)"
| fact: "filled p \<Longrightarrow> Record u f (part_census p) = Some c \<Longrightarrow> filled (p\<lparr>part_census := c\<rparr>)"

definition inputs_ok :: "partitioner \<Rightarrow> bool" where
  "inputs_ok p \<longleftrightarrow> (\<forall>k i. inputs p k = Some i \<longrightarrow> unit_Key (in_Unit i) = k \<and> k \<in> fst ` set (units (part_census p)))"

lemma filled_ok: "filled p \<Longrightarrow> known_facts (part_census p) \<and> units_ok (part_census p) \<and> inputs_ok p"
proof (induction rule: filled.induct)
  case new
  show ?case using known_NewCensus by (simp add: New_def units_ok_def inputs_ok_def NewCensus_def)
next
  case (add p i)
  have "known_facts (part_census (Add i p))" using add.IH by (simp add: known_facts_def Facts_def Add_def)
  moreover have "units_ok (part_census (Add i p))"
    by (rule units_ok_update [of "part_census p" _ "in_Unit i"]) (use add.IH in \<open>simp_all add: Add_def\<close>)
  moreover have "inputs_ok (Add i p)" using add.IH by (simp add: inputs_ok_def Add_def dom_update)
  ultimately show ?case by blast
next
  case (fact p u f c)
  have u: "units c = AList.update (unit_Key u) u (units (part_census p))" by (rule Record_units [OF fact.hyps(2)])
  have "known_facts c" using fact.IH known_Record [OF fact.hyps(2)] by blast
  moreover have "units_ok c" using fact.IH units_ok_update [OF _ u] by blast
  moreover have "inputs_ok (p\<lparr>part_census := c\<rparr>)" using fact.IH by (simp add: inputs_ok_def u dom_update)
  ultimately show ?case by simp
qed

lemma input_of_key: "inputs_ok p \<Longrightarrow> unit_Key (in_Unit (input_of p u)) = unit_Key u"
  by (auto simp: input_of_def inputs_ok_def empty_input_def split: option.splits)

lemma those_all:
  assumes "\<And>x. x \<in> set xs \<Longrightarrow> f x = Some (g x)"
  shows "those (map f xs) = Some (map g xs)"
  using assms by (induction xs) auto

lemma Partitioner_Decide_run:
  assumes "filled p"
  shows "Partitioner_Decide p = Some (map (\<lambda>u. the (Decide (part_census p) (input_of p u))) (Units (part_census p)))"
    and "unit_Key (dec_Unit (the (Decide (part_census p) (input_of p u)))) = unit_Key u"
proof -
  note ok = filled_ok [OF assms]
  have run: "\<exists>d. Decide (part_census p) i = Some d \<and> dec_Unit d = in_Unit i" for i
    using Decide_run [of "part_census p" i] ok by blast
  have "Decide (part_census p) i = Some (the (Decide (part_census p) i))" for i using run [of i] by fastforce
  then show "Partitioner_Decide p = Some (map (\<lambda>u. the (Decide (part_census p) (input_of p u))) (Units (part_census p)))"
    unfolding Partitioner_Decide_def by (intro those_all)
  show "unit_Key (dec_Unit (the (Decide (part_census p) (input_of p u)))) = unit_Key u"
    using run [of "input_of p u"] input_of_key [of p u] ok by auto
qed

lemma empty_input_boxed: "\<not> lands_static (tests (empty_input u)) c (empty_input u)"
  by (simp add: lands_static_def worth_static_def tests_def EmitStatic_def Let_def empty_input_def placed_profile_def Score_def
      zero_profile_def TotalOps_def)

lemma Units_keys_distinct: "units_ok c \<Longrightarrow> distinct (map unit_Key (Units c))"
proof -
  assume ok: "units_ok c"
  then have "distinct (map unit_Key (map snd (units c)))" by (metis units_keys units_ok_def)
  moreover have "mset (map unit_Key (Units c)) = mset (map unit_Key (map snd (units c)))" unfolding Units_sort by (simp only: mset_map mset_sort)
  ultimately show ?thesis using mset_eq_imp_distinct_iff by blast
qed

lemma Units_keys: "units_ok c \<Longrightarrow> unit_Key ` set (Units c) = fst ` set (units c)"
  unfolding Units_sort using units_keys [of c] by (metis list.set_map set_sort)

text \<open>C34: the partitioner never drops a unit. However it was filled, it decides without panicking, the decisions carry the
  keys of the known units, each once and in the processing order, and a unit that was seen only through a census fact
  gets a boxed decision.\<close>
theorem every_unit_decided:
  assumes "filled p"
  shows "\<exists>ds. Partitioner_Decide p = Some ds \<and> map (unit_Key \<circ> dec_Unit) ds = map unit_Key (Units (part_census p)) \<and>
    distinct (map (unit_Key \<circ> dec_Unit) ds) \<and>
    (unit_Key \<circ> dec_Unit) ` set ds = fst ` set (units (part_census p)) \<and>
    list_all (\<lambda>d. inputs p (unit_Key (dec_Unit d)) \<noteq> None \<or> \<not> IsStatic (dec_State d)) ds"
proof -
  note ok = filled_ok [OF assms]
  define dec where "dec u = the (Decide (part_census p) (input_of p u))" for u
  have run: "Partitioner_Decide p = Some (map dec (Units (part_census p)))" "unit_Key (dec_Unit (dec u)) = unit_Key u" for u
    unfolding dec_def by (rule Partitioner_Decide_run [OF assms])+
  have keys: "map (unit_Key \<circ> dec_Unit) (map dec (Units (part_census p))) = map unit_Key (Units (part_census p))"
    using run(2) by simp
  have "\<not> IsStatic (dec_State (dec u))" if "inputs p (unit_Key u) = None" for u
  proof -
    have "input_of p u = empty_input u" using that by (simp add: input_of_def)
    then obtain d where "Decide (part_census p) (input_of p u) = Some d" "boxed_decision (tests (input_of p u)) (part_census p) (input_of p u) d"
      using Decide_run [of "part_census p" "input_of p u"] ok empty_input_boxed [of u "part_census p"] by auto
    then show ?thesis by (auto simp: dec_def boxed_decision_def IsStatic_def split: if_splits)
  qed
  then have boxed: "list_all (\<lambda>d. inputs p (unit_Key (dec_Unit d)) \<noteq> None \<or> \<not> IsStatic (dec_State d)) (map dec (Units (part_census p)))"
    using run(2) by (auto simp: list_all_iff)
  have "(unit_Key \<circ> dec_Unit) ` set (map dec (Units (part_census p))) = unit_Key ` set (Units (part_census p))"
    using keys by (metis list.set_map)
  then have "(unit_Key \<circ> dec_Unit) ` set (map dec (Units (part_census p))) = fst ` set (units (part_census p))"
    using Units_keys ok by metis
  moreover have "distinct (map (unit_Key \<circ> dec_Unit) (map dec (Units (part_census p))))"
    unfolding keys using Units_keys_distinct ok by blast
  ultimately show ?thesis using run(1) keys boxed by (intro exI conjI)
qed

theorem every_unit_decided_witness:
  "filled (Add (demo_input ModeAuto) New) \<and>
   (\<exists>d. Partitioner_Decide (Add (demo_input ModeAuto) New) = Some [d] \<and> unit_Key (dec_Unit d) = unit_Key (demo_unit 0))"
proof -
  have f: "filled (Add (demo_input ModeAuto) New)" by (intro filled.intros)
  have "units (part_census (Add (demo_input ModeAuto) New)) = [(unit_Key (demo_unit 0), demo_unit 0)]"
    by (simp add: Add_def New_def NewCensus_def demo_input_def)
  then have "Units (part_census (Add (demo_input ModeAuto) New)) = [demo_unit 0]" by (simp add: Units_sort)
  then obtain ds where ds: "Partitioner_Decide (Add (demo_input ModeAuto) New) = Some ds" "map (unit_Key \<circ> dec_Unit) ds = [unit_Key (demo_unit 0)]"
    using every_unit_decided [OF f] by auto
  then obtain d where "ds = [d]" "unit_Key (dec_Unit d) = unit_Key (demo_unit 0)" by (auto simp: map_eq_Cons_conv)
  with f ds(1) show ?thesis by auto
qed

section \<open>The decision hash and the reason histogram\<close>

lemma decided_keys:
  assumes "filled p" "Partitioner_Decide p = Some ds"
  shows "distinct (map (unit_Key \<circ> dec_Unit) ds)"
proof -
  have "map (unit_Key \<circ> dec_Unit) ds = map unit_Key (Units (part_census p))"
    using Partitioner_Decide_run [OF assms(1)] assms(2) by auto
  then show ?thesis using Units_keys_distinct filled_ok [OF assms(1)] by simp
qed

text \<open>C35: the decision hash does not depend on the order in which the decisions of a partitioner are listed, whatever the
  digest function.\<close>
theorem DecisionHash_order:
  assumes "filled p" "Partitioner_Decide p = Some ds" "mset ds' = mset ds"
  shows "DecisionHash sha256 ds' = DecisionHash sha256 ds"
proof -
  have "inj_on (\<lambda>d. unit_Key (dec_Unit d)) (set ds)"
    using decided_keys [OF assms(1,2)] by (simp add: distinct_map comp_def)
  then have "inj_on (\<lambda>d. unit_Key (dec_Unit d)) (set ds')" using assms(3) by (metis mset_eq_setD)
  then show ?thesis unfolding DecisionHash_def by (simp add: sort_slice_perm [OF assms(3)])
qed

lemma itoa_neq: "i \<noteq> j \<Longrightarrow> unit_Key (demo_unit i) \<noteq> unit_Key (demo_unit j)"
  using split_last_nul [OF itoa_plain itoa_plain, of "''m'' @ nul @ ''f''" i "''m'' @ nul @ ''f''" j]
  by (auto simp: unit_Key_def demo_unit_def)

theorem DecisionHash_order_witness:
  "\<exists>p a b. filled p \<and> Partitioner_Decide p = Some [a, b] \<and> a \<noteq> b \<and> DecisionHash id [b, a] = DecisionHash id [a, b]"
proof -
  define i where "i = (demo_input ModeAuto)\<lparr>in_Unit := demo_unit 9\<rparr>"
  define p where "p = Add i (Add (demo_input ModeAuto) New)"
  have f: "filled p" unfolding p_def by (intro filled.intros)
  have "length (units (part_census p)) = 2"
    using itoa_neq [of 9 0] by (simp add: p_def i_def Add_def New_def NewCensus_def demo_input_def)
  then have "length (Units (part_census p)) = 2" by (simp add: Units_sort)
  then obtain ds where ds: "Partitioner_Decide p = Some ds" "length ds = 2" using Partitioner_Decide_run(1) [OF f] by auto
  then obtain a b where ab: "ds = [a, b]" by (auto simp: numeral_2_eq_2 length_Suc_conv)
  have "a \<noteq> b" using decided_keys [OF f ds(1)] ab by auto
  moreover have "DecisionHash id [b, a] = DecisionHash id [a, b]"
    by (rule DecisionHash_order [OF f]) (use ds(1) ab in auto)
  ultimately show ?thesis using f ds(1) ab by blast
qed

definition tally :: "string list \<Rightarrow> string \<Rightarrow> int option" where
  "tally ks k = (if k \<in> set ks then Some (int (count_list ks k)) else None)"

lemma bump_tally: "map_of m = tally ks \<Longrightarrow> map_of (bump k m) = tally (ks @ [k])"
  by (rule ext) (auto simp: bump_def update_conv' tally_def count_notin)

lemma fold_bump: "map_of m = tally ks \<Longrightarrow> map_of (fold bump ks' m) = tally (ks @ ks')"
proof (induction ks' arbitrary: m ks)
  case (Cons k ks')
  show ?case using Cons.IH [OF bump_tally [OF Cons.prems, of k]] by simp
qed simp

lemma ByReason_fold: "ByReason ds = fold bump (concat (map (\<lambda>d. map reason_Rule (dec_Reasons d)) ds)) []"
proof -
  have "fold (\<lambda>d m. fold (\<lambda>r. bump (reason_Rule r)) (dec_Reasons d) m) ds m =
      fold bump (concat (map (\<lambda>d. map reason_Rule (dec_Reasons d)) ds)) m" for m
    by (induction ds arbitrary: m) (simp_all add: fold_map comp_def)
  then show ?thesis by (simp add: ByReason_def)
qed

text \<open>C36: the reason histogram has an entry for exactly the rules that occur in some reason chain, and the entry is the number of
  their occurrences.\<close>
theorem ByReason_counts:
  "map_of (ByReason ds) k =
     (let ks = concat (map (\<lambda>d. map reason_Rule (dec_Reasons d)) ds) in
      if k \<in> set ks then Some (int (count_list ks k)) else None)"
  using fold_bump [of "[]" "[]"] unfolding ByReason_fold by (simp add: tally_def Let_def fun_eq_iff)

end
