(* ===== verification/Ast.thy ===== *)
theory Ast
  imports Prelude
begin

text \<open>
  \<^verbatim>\<open>pkg/frontend/ast.go\<close>: the syntax trees the frontend hands to the analyses.

  One constructor per Go node type. A Go expression that may be \<open>nil\<close> is an \<^typ>\<open>'a option\<close>; the helper structs
  (arguments, parameters, comprehension clauses, interpolations, handlers, cases) are datatypes over the type
  of the nodes inside them. A \<open>float64\<close> payload is its bit pattern.
\<close>

section \<open>Expressions\<close>

record pos =
  pos_Line :: int
  pos_Col :: int

datatype param_sort = ParamPlain | ParamPosOnly | ParamStar | ParamKwOnly | ParamStarStar

datatype comp_kind = CompList | CompSet | CompDict | CompGen

datatype bin_kind =
  BinAdd | BinSub | BinMul | BinDiv | BinFloorDiv | BinMod | BinPow | BinBitOr | BinBitXor | BinBitAnd |
  BinLShift | BinRShift | BinMatMul

datatype unary_kind = UnaryNeg | UnaryPos | UnaryNot | UnaryInvert

datatype bool_kind = BoolAnd | BoolOr

datatype cmp_kind = CmpEq | CmpNe | CmpLt | CmpLe | CmpGt | CmpGe | CmpIn | CmpNotIn | CmpIs | CmpIsNot

datatype 'e arg = Arg (arg_Pos: pos) (arg_Name: string) (arg_Star: int) (arg_Value: 'e)

datatype 'e fparam =
  FParam (fparam_Pos: pos) (fparam_Name: string) (fparam_Kind: param_sort) (fparam_Annotation: "'e option")
    (fparam_Default: "'e option")

datatype 'e comp_clause =
  CompClause (clause_Pos: pos) (clause_Async: bool) (clause_Target: 'e) (clause_Iter: 'e) (clause_Ifs: "'e list")

datatype 'e fpart =
  FText string
| FInterp pos (interp_X: 'e) char "'e fpart list" bool string string

datatype expr =
  Name pos string
| IntLit pos string
| FloatLit pos "64 word"
| ImagLit pos "64 word"
| StrLit pos string
| BytesLit pos string
| BoolLit pos bool
| NoneLit pos
| EllipsisLit pos
| ListLit pos "expr list"
| TupleLit pos "expr list"
| DictLit pos "expr list" "expr list"
| SetLit pos "expr list"
| Comp pos comp_kind expr "expr option" "expr comp_clause list"
| BinOp pos expr bin_kind expr
| UnaryOp pos unary_kind expr
| Await pos expr
| BoolOp pos bool_kind "expr list"
| Compare pos expr "cmp_kind list" "expr list"
| Call pos expr "expr arg list"
| Attribute pos expr string
| Subscript pos expr expr
| SliceExpr pos "expr option" "expr option" "expr option"
| IfExp pos expr expr expr
| NamedExpr pos string expr
| Starred pos expr
| Lambda pos "expr fparam list" expr
| Yield pos "expr option" bool
| FStr pos "expr fpart list"
| TStr pos "expr fpart list"

text \<open>\<open>FInterps\<close> lists the interpolations of an f-string depth first, those inside a format spec included.\<close>

primrec interps_of :: "'e fpart \<Rightarrow> 'e list" where
  "interps_of (FText t) = []"
| "interps_of (FInterp p x conv spec has eq src) = x # concat (map interps_of spec)"

definition FInterps :: "'e fpart list \<Rightarrow> 'e list" where
  "FInterps ps = concat (map interps_of ps)"

section \<open>Patterns and statements\<close>

datatype pattern =
  PatLiteral pos expr
| PatValue pos expr
| PatCapture pos string
| PatStar pos string
| PatSequence pos "pattern list"
| PatMapping pos "expr list" "pattern list" string
| PatClass pos expr "pattern list" "string list" "pattern list"
| PatOr pos "pattern list"
| PatAs pos "pattern option" string

datatype with_item = WithItem (item_Context: expr) (item_Target: "expr option")

datatype class_keyword = ClassKeyword (kw_Name: string) (kw_Value: expr)

datatype import_alias = ImportAlias (alias_Pos: pos) (alias_Name: string) (alias_As: string)

datatype 's match_case =
  MatchCase (case_Pos: pos) (case_Pattern: pattern) (case_Guard: "expr option") (case_Body: "'s list")

datatype 's except_handler =
  ExceptHandler (handler_Pos: pos) (handler_Type: "expr option") (handler_Name: string) (handler_Body: "'s list")

datatype stmt =
  ExprStmt pos expr
| Assign pos "expr list" expr
| AugAssign pos expr bin_kind expr
| AnnAssign pos expr expr "expr option"
| IfS pos expr "stmt list" "stmt list"
| While pos expr "stmt list" "stmt list"
| For pos expr expr "stmt list" "stmt list" bool
| With pos "with_item list" "stmt list" bool
| Match pos expr "stmt match_case list"
| FuncDef pos string "expr fparam list" "expr option" "stmt list" "expr list" bool
| ClassDef pos string "expr list" "class_keyword list" "stmt list" "expr list"
| Try pos "stmt list" "stmt except_handler list" "stmt list" "stmt list" bool
| Raise pos "expr option" "expr option"
| AssertS pos expr "expr option"
| Return pos "expr option"
| Pass pos
| TypeAlias pos string expr
| Break pos
| Continue pos
| Del pos "expr list"
| GlobalS pos "string list"
| Nonlocal pos "string list"
| Import pos "import_alias list"
| ImportFrom pos string int "import_alias list" bool

end
