(* ===== verification/Emit_Model.thy ===== *)
theory Emit_Model
  imports Lattice
begin

text \<open>
  \<^verbatim>\<open>pkg/emit\<close>: the typed expression and statement model of the static tier (\<^verbatim>\<open>repr.go\<close> and the node
  types of \<^verbatim>\<open>expr.go\<close>, \<^verbatim>\<open>cmp.go\<close>, \<^verbatim>\<open>call.go\<close>, \<^verbatim>\<open>stmt.go\<close>, \<^verbatim>\<open>func.go\<close>, \<^verbatim>\<open>gen.go\<close>).

  The constructors carry the Go names behind an \<open>E\<close>, because the frontend has nodes of the same names. A pointer
  that may be \<open>nil\<close> is an \<^typ>\<open>'a option\<close>, an \<open>int64\<close> a \<^typ>\<open>64 word\<close> and a \<open>float64\<close> its bit pattern.
\<close>

section \<open>Representations\<close>

datatype scalar = NotScalar | SBool | SInt | SFloat | SStr

fun scalar_String :: "scalar \<Rightarrow> string" where
  "scalar_String NotScalar = ''aggregate''"
| "scalar_String SBool = ''bool''"
| "scalar_String SInt = ''int''"
| "scalar_String SFloat = ''float''"
| "scalar_String SStr = ''str''"

datatype 'r shape_field = ShapeField (sf_Name: string) (sf_Repr: 'r)

datatype 'r shape = Shape (shape_Name: string) (shape_Fields: "'r shape_field list")

datatype repr =
  Repr (repr_Go: string) (repr_Scalar: scalar) (repr_Total: bool) (repr_Elem: "repr option") (repr_Shape: "repr shape option")

definition zero_repr :: repr where
  "zero_repr = Repr [] NotScalar False None None"

definition boolRepr :: repr where
  "boolRepr = Repr ''bool'' SBool True None None"

definition intRepr :: repr where
  "intRepr = Repr ''int64'' SInt False None None"

definition floatRepr :: repr where
  "floatRepr = Repr ''float64'' SFloat True None None"

definition strRepr :: repr where
  "strRepr = Repr ''string'' SStr True None None"

definition listRepr :: "repr \<Rightarrow> repr" where
  "listRepr e = Repr (''[]'' @ repr_Go e) NotScalar True (Some e) None"

definition Shape_Field :: "repr shape \<Rightarrow> string \<Rightarrow> repr option" where
  "Shape_Field s n = map_option sf_Repr (List.find (\<lambda>f. sf_Name f = n) (shape_Fields s))"

fun Of :: "ty \<Rightarrow> repr option" where
  "Of (Type k cl es sg vd rf d) =
     (case k of
        KindBool \<Rightarrow> Some boolRepr
      | KindInt \<Rightarrow> Some intRepr
      | KindFloat \<Rightarrow> Some floatRepr
      | KindStr \<Rightarrow> Some strRepr
      | KindList \<Rightarrow>
          (case es of
             [e] \<Rightarrow> (case Of e of Some er \<Rightarrow> if repr_Scalar er = NotScalar then None else Some (listRepr er) | None \<Rightarrow> None)
           | _ \<Rightarrow> None)
      | _ \<Rightarrow> None)"

section \<open>Expressions\<close>

datatype op =
  OpAdd | OpSub | OpMul | OpDiv | OpFloorDiv | OpMod | OpPow | OpBitAnd | OpBitOr | OpBitXor | OpLShift | OpRShift

fun op_String :: "op \<Rightarrow> string" where
  "op_String OpAdd = ''+''"
| "op_String OpSub = ''-''"
| "op_String OpMul = ''*''"
| "op_String OpDiv = ''/''"
| "op_String OpFloorDiv = ''//''"
| "op_String OpMod = ''%''"
| "op_String OpPow = ''**''"
| "op_String OpBitAnd = ''&''"
| "op_String OpBitOr = ''|''"
| "op_String OpBitXor = ''^''"
| "op_String OpLShift = ''<<''"
| "op_String OpRShift = ''>>''"

definition Overflows :: "op \<Rightarrow> bool" where
  "Overflows o' \<longleftrightarrow> o' \<in> {OpAdd, OpSub, OpMul, OpFloorDiv, OpPow, OpLShift}"

datatype cmp_op = ECmpLt | ECmpLe | ECmpGt | ECmpGe | ECmpEq | ECmpNe

fun cmp_op_String :: "cmp_op \<Rightarrow> string" where
  "cmp_op_String ECmpLt = ''<''"
| "cmp_op_String ECmpLe = ''<=''"
| "cmp_op_String ECmpGt = ''>''"
| "cmp_op_String ECmpGe = ''>=''"
| "cmp_op_String ECmpEq = ''==''"
| "cmp_op_String ECmpNe = ''!=''"

definition ordered :: "cmp_op \<Rightarrow> bool" where
  "ordered o' \<longleftrightarrow> o' \<noteq> ECmpEq \<and> o' \<noteq> ECmpNe"

datatype 'e gen_arg = GenArg (ga_Name: string) (ga_Value: 'e)

datatype eexpr =
  EVar string repr
| EInt "64 word"
| EFloat "64 word"
| EBool bool
| EStr string
| EBin op eexpr eexpr
| EIndex eexpr eexpr
| EListLit repr "eexpr list"
| EAttr eexpr string
| EGenNew string "eexpr gen_arg list"
| ECmp cmp_op eexpr eexpr
| EAnd eexpr eexpr
| EOr eexpr eexpr
| ENot eexpr
| ECall string "eexpr list" repr
| ERecv string repr

definition arith :: "repr \<Rightarrow> bool" where
  "arith r \<longleftrightarrow> repr_Scalar r = SInt \<or> repr_Scalar r = SFloat"

definition numeric :: "repr \<Rightarrow> bool" where
  "numeric r \<longleftrightarrow> repr_Scalar r = SInt \<or> repr_Scalar r = SFloat \<or> repr_Scalar r = SBool"

fun HasRaisingGuard :: "eexpr \<Rightarrow> bool" where
  "HasRaisingGuard (EBin o' l r) = (if o' = OpDiv then True else HasRaisingGuard l \<or> HasRaisingGuard r)"
| "HasRaisingGuard (ECmp o' l r) = (HasRaisingGuard l \<or> HasRaisingGuard r)"
| "HasRaisingGuard (EAnd l r) = (HasRaisingGuard l \<or> HasRaisingGuard r)"
| "HasRaisingGuard (EOr l r) = (HasRaisingGuard l \<or> HasRaisingGuard r)"
| "HasRaisingGuard (ENot x) = HasRaisingGuard x"
| "HasRaisingGuard (EVar n r) = False"
| "HasRaisingGuard (EInt v) = False"
| "HasRaisingGuard (EFloat v) = False"
| "HasRaisingGuard (EBool v) = False"
| "HasRaisingGuard (EStr v) = False"
| "HasRaisingGuard (EIndex b i) = False"
| "HasRaisingGuard (EListLit e xs) = False"
| "HasRaisingGuard (EAttr b n) = False"
| "HasRaisingGuard (EGenNew t fs) = False"
| "HasRaisingGuard (ECall n xs r) = False"
| "HasRaisingGuard (ERecv n r) = False"

section \<open>Statements and functions\<close>

datatype resume_info = ResumeInfo (resume_Handler: string) (resume_Carried: "string list")

datatype estmt =
  EDefine string eexpr
| EAugAssign string op repr eexpr
| EAssign string eexpr
| EVarDecl string repr
| EBind "string list" "eexpr list" bool
| EReturn eexpr
| EForRange string string eexpr "estmt list"
| EForGen string repr eexpr "estmt list" bool
| EForCount string eexpr eexpr bool "estmt list" "resume_info option"
| EWhile eexpr "estmt list"
| EBreak
| EContinue
| EIf eexpr "estmt list" "estmt list"
| EDiscard eexpr

record eparam =
  ep_Name :: string
  ep_Repr :: repr

record binding_guard =
  VerVar :: string
  bg_Version :: "64 word"

record efunc =
  ef_Name :: string
  ef_Params :: "eparam list"
  ef_Ret :: repr
  ef_Body :: "estmt list"
  DeoptHandler :: string
  BindingGuards :: "binding_guard list"

datatype gen_field = GenField (gf_Name: string) (gf_Repr: repr)

datatype loop_yield = LoopYield (Induction: string) (Bound: eexpr)

datatype segment =
  Segment (seg_Pre: "estmt list") (seg_Yield: eexpr) (seg_Loop: "loop_yield option") (seg_Guard: "eexpr option")

record generator =
  gen_Name :: string
  gen_Elem :: repr
  gen_Fields :: "gen_field list"
  gen_Segments :: "segment list"
  gen_Trailer :: "estmt list"
  gen_Deopt :: bool

end
