(* ===== verification/Ir_Cost.thy ===== *)
theory Ir_Cost
  imports Emit_Model Interner
begin

text \<open>
  \<^verbatim>\<open>pkg/ir/cost.go\<close> and \<^verbatim>\<open>pkg/ir/deopt.go\<close>: the operation census and the deopt sites of a lowered function, with
  \<open>binResult\<close> of \<^verbatim>\<open>pkg/ir/bridge.go\<close>, which both consult.

  The two walks run over the same emit tree and must agree on which functions carry a guard. The theorems show
  that they do, except for the slice loop that the census skips, and that the live set of a site always starts
  with the scalar parameters.
\<close>

section \<open>Result representations\<close>

definition binResult :: "op \<Rightarrow> repr \<Rightarrow> repr \<Rightarrow> repr option" where
  "binResult o' l r =
     (if repr_Scalar l = SStr \<or> repr_Scalar r = SStr then
        if o' \<noteq> OpAdd \<or> repr_Scalar l \<noteq> SStr \<or> repr_Scalar r \<noteq> SStr then None else Some strRepr
      else if \<not> numeric l \<or> \<not> numeric r then None
      else if o' = OpFloorDiv then
        if repr_Scalar l = SFloat \<or> repr_Scalar r = SFloat then None else Some intRepr
      else if o' = OpMod then
        if repr_Scalar l = SFloat \<or> repr_Scalar r = SFloat then None else Some intRepr
      else if o' = OpPow then
        if repr_Scalar l = SFloat \<or> repr_Scalar r = SFloat then None else Some intRepr
      else if o' = OpBitAnd \<or> o' = OpBitOr \<or> o' = OpBitXor then
        if repr_Scalar l = SFloat \<or> repr_Scalar r = SFloat then None else Some intRepr
      else if o' = OpLShift \<or> o' = OpRShift then
        if repr_Scalar l = SFloat \<or> repr_Scalar r = SFloat then None else Some intRepr
      else if o' = OpDiv \<or> repr_Scalar l = SFloat \<or> repr_Scalar r = SFloat then Some floatRepr
      else Some intRepr)"

primrec reprOf :: "eexpr \<Rightarrow> repr" where
  "reprOf (EVar n r) = r"
| "reprOf (ERecv n r) = r"
| "reprOf (EInt v) = intRepr"
| "reprOf (EFloat v) = floatRepr"
| "reprOf (EBool v) = boolRepr"
| "reprOf (EStr v) = strRepr"
| "reprOf (EBin o' l r) = (case binResult o' (reprOf l) (reprOf r) of Some x \<Rightarrow> x | None \<Rightarrow> zero_repr)"
| "reprOf (ECmp o' l r) = boolRepr"
| "reprOf (ENot x) = boolRepr"
| "reprOf (EAnd l r) = reprOf l"
| "reprOf (EOr l r) = reprOf l"
| "reprOf (ECall n xs r) = r"
| "reprOf (EIndex b i) = (case repr_Elem (reprOf b) of Some e \<Rightarrow> e | None \<Rightarrow> zero_repr)"
| "reprOf (EListLit e xs) = listRepr e"
| "reprOf (EAttr b n) = zero_repr"
| "reprOf (EGenNew t fs) = zero_repr"

section \<open>The operation census\<close>

record cost =
  c_UnboxedOps :: nat
  c_EntryGuards :: nat
  c_LoopGuards :: nat

definition zero_cost :: cost where
  "zero_cost = \<lparr>c_UnboxedOps = 0, c_EntryGuards = 0, c_LoopGuards = 0\<rparr>"

definition add_op :: "cost \<Rightarrow> cost" where
  "add_op c = c\<lparr>c_UnboxedOps := c_UnboxedOps c + 1\<rparr>"

definition add_guard :: "cost \<Rightarrow> cost" where
  "add_guard c = c\<lparr>c_EntryGuards := c_EntryGuards c + 1\<rparr>"

definition fold_loop :: "cost \<Rightarrow> cost \<Rightarrow> cost" where
  "fold_loop bc c = c\<lparr>c_UnboxedOps := c_UnboxedOps c + c_UnboxedOps bc,
     c_LoopGuards := c_LoopGuards c + (c_EntryGuards bc + c_LoopGuards bc)\<rparr>"

definition bin_guarded :: "op \<Rightarrow> eexpr \<Rightarrow> eexpr \<Rightarrow> bool" where
  "bin_guarded o' l r = (case binResult o' (reprOf l) (reprOf r) of Some x \<Rightarrow> repr_Scalar x = SInt \<and> Overflows o' | None \<Rightarrow> False)"

primrec costExpr :: "eexpr \<Rightarrow> cost \<Rightarrow> cost" where
  "costExpr (EBin o' l r) = (\<lambda>c.
     let c = add_op (costExpr r (costExpr l c)) in if bin_guarded o' l r then add_guard c else c)"
| "costExpr (ECmp o' l r) = (\<lambda>c. add_op (costExpr r (costExpr l c)))"
| "costExpr (EAnd l r) = (\<lambda>c. add_op (costExpr r (costExpr l c)))"
| "costExpr (EOr l r) = (\<lambda>c. add_op (costExpr r (costExpr l c)))"
| "costExpr (ENot x) = (\<lambda>c. add_op (costExpr x c))"
| "costExpr (ECall n xs rt) = (\<lambda>c. add_op (fold (\<lambda>f. f) (map costExpr xs) c))"
| "costExpr (EIndex b i) = (\<lambda>c. add_guard (add_op (costExpr i (costExpr b c))))"
| "costExpr (EListLit e xs) = (\<lambda>c. add_op (fold (\<lambda>f. f) (map costExpr xs) c))"
| "costExpr (EGenNew t fs) = (\<lambda>c. add_op (fold ga_Value (map (map_gen_arg costExpr) fs) c))"
| "costExpr (EVar n r) = (\<lambda>c. c)"
| "costExpr (EInt v) = (\<lambda>c. c)"
| "costExpr (EFloat v) = (\<lambda>c. c)"
| "costExpr (EBool v) = (\<lambda>c. c)"
| "costExpr (EStr v) = (\<lambda>c. c)"
| "costExpr (EAttr b n) = (\<lambda>c. c)"
| "costExpr (ERecv n r) = (\<lambda>c. c)"

primrec costStmt :: "estmt \<Rightarrow> cost \<Rightarrow> cost" where
  "costStmt (EDefine n v) = costExpr v"
| "costStmt (EAssign n v) = costExpr v"
| "costStmt (EBind ns vs d) = fold costExpr vs"
| "costStmt (EVarDecl n r) = (\<lambda>c. c)"
| "costStmt (EAugAssign n o' r v) = (\<lambda>c.
     let c = add_op (costExpr v c) in if repr_Scalar r = SInt then add_guard c else c)"
| "costStmt (EReturn v) = costExpr v"
| "costStmt (EDiscard v) = costExpr v"
| "costStmt (EIf b th el) = (\<lambda>c. fold (\<lambda>f. f) (map costStmt el) (fold (\<lambda>f. f) (map costStmt th) (costExpr b c)))"
| "costStmt (EWhile b body) = fold_loop (fold (\<lambda>f. f) (map costStmt body) (costExpr b zero_cost))"
| "costStmt (EForCount v st sp dn body rs) =
     fold_loop (fold (\<lambda>f. f) (map costStmt body) (costExpr sp (costExpr st zero_cost)))"
| "costStmt (EForGen n e g body d) = fold_loop (add_op (fold (\<lambda>f. f) (map costStmt body) zero_cost))"
| "costStmt (EForRange n ix ov body) = (\<lambda>c. c)"
| "costStmt EBreak = (\<lambda>c. c)"
| "costStmt EContinue = (\<lambda>c. c)"

definition CostOf :: "efunc \<Rightarrow> cost" where
  "CostOf f = fold costStmt (ef_Body f) zero_cost"

definition cost_segment :: "segment \<Rightarrow> cost \<Rightarrow> cost" where
  "cost_segment seg c =
     (case seg_Loop seg of
        Some lp \<Rightarrow> fold_loop (costExpr (seg_Yield seg) (fold costStmt (seg_Pre seg) (costExpr (Bound lp) zero_cost))) c
      | None \<Rightarrow>
          costExpr (seg_Yield seg) (fold costStmt (seg_Pre seg)
            (case seg_Guard seg of Some g \<Rightarrow> costExpr g c | None \<Rightarrow> c)))"

definition CostOfGenerator :: "generator \<Rightarrow> cost" where
  "CostOfGenerator gen = fold costStmt (gen_Trailer gen) (fold cost_segment (gen_Segments gen) zero_cost)"

section \<open>Deopt sites\<close>

datatype guard_local = GuardLocal (gl_Name: string) (gl_Type: ty)

datatype guard_site = GuardSite (gs_Live: "guard_local list")

definition scalarType :: "interner \<Rightarrow> repr \<Rightarrow> ty option" where
  "scalarType s r =
     (case repr_Scalar r of
        SInt \<Rightarrow> Some (in_int s) | SFloat \<Rightarrow> Some (in_float s) | SBool \<Rightarrow> Some (in_bool s) | SStr \<Rightarrow> Some (in_str s)
      | NotScalar \<Rightarrow> None)"

primrec exprGuarded :: "eexpr \<Rightarrow> bool" where
  "exprGuarded (EBin o' l r) = (if exprGuarded l \<or> exprGuarded r then True else bin_guarded o' l r)"
| "exprGuarded (ECmp o' l r) = (exprGuarded l \<or> exprGuarded r)"
| "exprGuarded (EAnd l r) = (exprGuarded l \<or> exprGuarded r)"
| "exprGuarded (EOr l r) = (exprGuarded l \<or> exprGuarded r)"
| "exprGuarded (ENot x) = exprGuarded x"
| "exprGuarded (ECall n xs rt) = list_ex id (map exprGuarded xs)"
| "exprGuarded (EIndex b i) = True"
| "exprGuarded (EListLit e xs) = list_ex id (map exprGuarded xs)"
| "exprGuarded (EGenNew t fs) = list_ex ga_Value (map (map_gen_arg exprGuarded) fs)"
| "exprGuarded (EVar n r) = False"
| "exprGuarded (EInt v) = False"
| "exprGuarded (EFloat v) = False"
| "exprGuarded (EBool v) = False"
| "exprGuarded (EStr v) = False"
| "exprGuarded (EAttr b n) = False"
| "exprGuarded (ERecv n r) = False"

fun stmtGuarded :: "estmt \<Rightarrow> bool" where
  "stmtGuarded (EDefine n v) = exprGuarded v"
| "stmtGuarded (EAssign n v) = exprGuarded v"
| "stmtGuarded (EBind ns vs d) = list_ex exprGuarded vs"
| "stmtGuarded (EAugAssign n o' r v) = (repr_Scalar r = SInt \<or> exprGuarded v)"
| "stmtGuarded (EReturn v) = exprGuarded v"
| "stmtGuarded (EDiscard v) = exprGuarded v"
| "stmtGuarded (EIf b th el) = exprGuarded b"
| "stmtGuarded (EWhile b body) = exprGuarded b"
| "stmtGuarded (EForCount v st sp dn body rs) = (exprGuarded st \<or> exprGuarded sp)"
| "stmtGuarded (EForGen n e g body d) = d"
| "stmtGuarded (EForRange n ix ov body) = False"
| "stmtGuarded (EVarDecl n r) = False"
| "stmtGuarded EBreak = False"
| "stmtGuarded EContinue = False"

text \<open>The walk carries the live scope and the sites found so far; \<open>declare_local\<close> is \<open>declare\<close>.\<close>

type_synonym guard_walk = "guard_local list \<times> guard_site list"

definition declare_local :: "interner \<Rightarrow> string \<Rightarrow> repr \<Rightarrow> guard_walk \<Rightarrow> guard_walk" where
  "declare_local s n r w =
     (case scalarType s r of Some t \<Rightarrow> (fst w @ [GuardLocal n t], snd w) | None \<Rightarrow> w)"

definition open_site :: "estmt \<Rightarrow> guard_walk \<Rightarrow> guard_walk" where
  "open_site st w = (if stmtGuarded st then (fst w, snd w @ [GuardSite (fst w)]) else w)"

fun declare_all :: "interner \<Rightarrow> string list \<Rightarrow> eexpr list \<Rightarrow> guard_walk \<Rightarrow> guard_walk option" where
  "declare_all s [] vs w = Some w"
| "declare_all s (n # ns) [] w = None"
| "declare_all s (n # ns) (v # vs) w = declare_all s ns vs (declare_local s n (reprOf v) w)"

text \<open>The body of a block runs its statements in order and truncates the scope to its length at entry on the way
  out; a parallel binding with more names than values would
  index out of range, which is \<^const>\<open>None\<close>.\<close>

definition run_all :: "('s \<Rightarrow> 's option) list \<Rightarrow> 's \<Rightarrow> 's option" where
  "run_all fs s = fold_opt (\<lambda>f. f) fs s"

definition block_opt :: "(guard_walk \<Rightarrow> guard_walk option) \<Rightarrow> guard_walk \<Rightarrow> guard_walk option" where
  "block_opt f w = map_option (\<lambda>w'. (take (length (fst w)) (fst w'), snd w')) (f w)"

primrec walk_stmt :: "estmt \<Rightarrow> interner \<Rightarrow> guard_walk \<Rightarrow> guard_walk option" where
  "walk_stmt (EDefine n v) = (\<lambda>s w. Some (declare_local s n (reprOf v) (open_site (EDefine n v) w)))"
| "walk_stmt (EBind ns vs d) = (\<lambda>s w.
     let w = open_site (EBind ns vs d) w in if d then declare_all s ns vs w else Some w)"
| "walk_stmt (EVarDecl n r) = (\<lambda>s w. Some (declare_local s n r (open_site (EVarDecl n r) w)))"
| "walk_stmt (EIf b th el) = (\<lambda>s w. do {
     w \<leftarrow> block_opt (run_all (map (\<lambda>f. f s) (map walk_stmt th))) (open_site (EIf b th el) w);
     block_opt (run_all (map (\<lambda>f. f s) (map walk_stmt el))) w
   })"
| "walk_stmt (EWhile b body) = (\<lambda>s w.
     block_opt (run_all (map (\<lambda>f. f s) (map walk_stmt body))) (open_site (EWhile b body) w))"
| "walk_stmt (EForCount v st sp dn body rs) = (\<lambda>s w.
     block_opt (\<lambda>w. run_all (map (\<lambda>f. f s) (map walk_stmt body)) (declare_local s v intRepr w))
       (open_site (EForCount v st sp dn body rs) w))"
| "walk_stmt (EForRange n ix ov body) = (\<lambda>s w.
     block_opt (run_all (map (\<lambda>f. f s) (map walk_stmt body))) (open_site (EForRange n ix ov body) w))"
| "walk_stmt (EForGen n e g body d) = (\<lambda>s w.
     block_opt (\<lambda>w. run_all (map (\<lambda>f. f s) (map walk_stmt body)) (declare_local s n e w)) (open_site (EForGen n e g body d) w))"
| "walk_stmt (EAugAssign n o' r v) = (\<lambda>s w. Some (open_site (EAugAssign n o' r v) w))"
| "walk_stmt (EAssign n v) = (\<lambda>s w. Some (open_site (EAssign n v) w))"
| "walk_stmt (EReturn v) = (\<lambda>s w. Some (open_site (EReturn v) w))"
| "walk_stmt (EDiscard v) = (\<lambda>s w. Some (open_site (EDiscard v) w))"
| "walk_stmt EBreak = (\<lambda>s w. Some (open_site EBreak w))"
| "walk_stmt EContinue = (\<lambda>s w. Some (open_site EContinue w))"

definition GuardSitesOf :: "efunc \<Rightarrow> guard_site list option" where
  "GuardSitesOf f = do {
     s \<leftarrow> NewInterner;
     let w = fold (\<lambda>p. declare_local s (ep_Name p) (ep_Repr p)) (ef_Params f) ([], []);
     let w = (if BindingGuards f \<noteq> [] then (fst w, snd w @ [GuardSite (fst w)]) else w);
     w \<leftarrow> run_all (map (\<lambda>st. walk_stmt st s) (ef_Body f)) w;
     Some (snd w)
   }"

section \<open>The two walks agree\<close>

definition guard_count :: "cost \<Rightarrow> nat" where
  "guard_count c = c_EntryGuards c + c_LoopGuards c"

primrec guards_in :: "eexpr \<Rightarrow> nat" where
  "guards_in (EBin o' l r) = guards_in l + guards_in r + of_bool (bin_guarded o' l r)"
| "guards_in (ECmp o' l r) = guards_in l + guards_in r"
| "guards_in (EAnd l r) = guards_in l + guards_in r"
| "guards_in (EOr l r) = guards_in l + guards_in r"
| "guards_in (ENot x) = guards_in x"
| "guards_in (ECall n xs rt) = sum_list (map guards_in xs)"
| "guards_in (EIndex b i) = guards_in b + guards_in i + 1"
| "guards_in (EListLit e xs) = sum_list (map guards_in xs)"
| "guards_in (EGenNew t fs) = sum_list (map ga_Value (map (map_gen_arg guards_in) fs))"
| "guards_in (EVar n r) = 0"
| "guards_in (EInt v) = 0"
| "guards_in (EFloat v) = 0"
| "guards_in (EBool v) = 0"
| "guards_in (EStr v) = 0"
| "guards_in (EAttr b n) = 0"
| "guards_in (ERecv n r) = 0"

primrec stmt_guards :: "estmt \<Rightarrow> nat" where
  "stmt_guards (EDefine n v) = guards_in v"
| "stmt_guards (EAssign n v) = guards_in v"
| "stmt_guards (EBind ns vs d) = sum_list (map guards_in vs)"
| "stmt_guards (EVarDecl n r) = 0"
| "stmt_guards (EAugAssign n o' r v) = guards_in v + of_bool (repr_Scalar r = SInt)"
| "stmt_guards (EReturn v) = guards_in v"
| "stmt_guards (EDiscard v) = guards_in v"
| "stmt_guards (EIf b th el) = guards_in b + sum_list (map stmt_guards th) + sum_list (map stmt_guards el)"
| "stmt_guards (EWhile b body) = guards_in b + sum_list (map stmt_guards body)"
| "stmt_guards (EForCount v st sp dn body rs) = guards_in st + guards_in sp + sum_list (map stmt_guards body)"
| "stmt_guards (EForGen n e g body d) = sum_list (map stmt_guards body)"
| "stmt_guards (EForRange n ix ov body) = 0"
| "stmt_guards EBreak = 0"
| "stmt_guards EContinue = 0"

lemma guard_count_simps [simp]:
  "guard_count (add_op c) = guard_count c" "guard_count (add_guard c) = guard_count c + 1" "guard_count zero_cost = 0"
  "guard_count (fold_loop bc c) = guard_count c + guard_count bc"
  by (simp_all add: guard_count_def add_op_def add_guard_def zero_cost_def fold_loop_def)

lemma fold_guards:
  assumes "\<And>x c. x \<in> set xs \<Longrightarrow> guard_count (f x c) = guard_count c + n x"
  shows "guard_count (fold f xs c) = guard_count c + sum_list (map n xs)"
  using assms by (induction xs arbitrary: c) auto

lemma costExpr_guards: "guard_count (costExpr e c) = guard_count c + guards_in e"
proof (induction e arbitrary: c)
  case (ECall n xs rt)
  then show ?case using fold_guards [of xs costExpr guards_in] by (simp add: fold_map comp_def)
next
  case (EListLit r xs)
  then show ?case using fold_guards [of xs costExpr guards_in] by (simp add: fold_map comp_def)
next
  case (EGenNew t fs)
  have "guard_count (fold (\<lambda>x. costExpr (ga_Value x)) fs c) = guard_count c + sum_list (map (\<lambda>x. guards_in (ga_Value x)) fs)"
    by (rule fold_guards) (metis EGenNew gen_arg.set_sel)
  then show ?case by (simp add: fold_map comp_def gen_arg.map_sel)
qed (auto simp: Let_def)

lemma guards_in_zero: "guards_in e = 0 \<longleftrightarrow> \<not> exprGuarded e"
proof (induction e)
  case (EGenNew t fs)
  then have "guards_in (ga_Value x) = 0 \<longleftrightarrow> \<not> exprGuarded (ga_Value x)" if "x \<in> set fs" for x
    using that by (metis gen_arg.set_sel)
  then show ?case by (auto simp: list_ex_iff gen_arg.map_sel)
qed (auto simp: list_ex_iff)

lemma costStmt_guards: "guard_count (costStmt st c) = guard_count c + stmt_guards st"
proof (induction st arbitrary: c)
  case (EBind ns vs d)
  then show ?case using fold_guards [of vs costExpr guards_in] by (simp add: costExpr_guards)
next
  case (EIf b th el)
  then show ?case
    using fold_guards [of th costStmt stmt_guards] fold_guards [of el costStmt stmt_guards]
    by (simp add: fold_map comp_def costExpr_guards)
next
  case (EWhile b body)
  then show ?case using fold_guards [of body costStmt stmt_guards] by (simp add: fold_map comp_def costExpr_guards)
next
  case (EForCount v st sp dn body rs)
  then show ?case using fold_guards [of body costStmt stmt_guards] by (simp add: fold_map comp_def costExpr_guards)
next
  case (EForGen n e g body d)
  then show ?case using fold_guards [of body costStmt stmt_guards] by (simp add: fold_map comp_def)
qed (auto simp: Let_def costExpr_guards)

lemma CostOf_guards: "guard_count (CostOf f) = sum_list (map stmt_guards (ef_Body f))"
  unfolding CostOf_def using fold_guards [of "ef_Body f" costStmt stmt_guards zero_cost] by (simp add: costStmt_guards)

text \<open>The statements on which both walks look at the same guards: no slice loop, which the census skips, and no
  drive of a generator that may hand off, whose signal is a site but not an overflow guard.\<close>

primrec same_walk :: "estmt \<Rightarrow> bool" where
  "same_walk (EDefine n v) = True"
| "same_walk (EAssign n v) = True"
| "same_walk (EBind ns vs d) = True"
| "same_walk (EVarDecl n r) = True"
| "same_walk (EAugAssign n o' r v) = True"
| "same_walk (EReturn v) = True"
| "same_walk (EDiscard v) = True"
| "same_walk (EIf b th el) = (list_all id (map same_walk th) \<and> list_all id (map same_walk el))"
| "same_walk (EWhile b body) = list_all id (map same_walk body)"
| "same_walk (EForCount v st sp dn body rs) = list_all id (map same_walk body)"
| "same_walk (EForGen n e g body d) = (\<not> d \<and> list_all id (map same_walk body))"
| "same_walk (EForRange n ix ov body) = False"
| "same_walk EBreak = True"
| "same_walk EContinue = True"

definition walks :: "bool \<Rightarrow> nat \<Rightarrow> guard_walk \<Rightarrow> guard_walk \<Rightarrow> bool" where
  "walks p n w w' \<longleftrightarrow> (\<exists>ext new. fst w' = fst w @ ext \<and> snd w' = snd w @ new \<and>
     (\<forall>x \<in> set new. \<exists>r. gs_Live x = fst w @ r) \<and> (n > 0 \<longrightarrow> new \<noteq> []) \<and> (p \<longrightarrow> length new \<le> n))"

lemma walks_refl: "walks p 0 w w"
  by (simp add: walks_def)

lemma walks_trans:
  assumes "walks p n w w1" "walks q m w1 w2"
  shows "walks (p \<and> q) (n + m) w w2"
proof -
  obtain e1 n1 where 1: "fst w1 = fst w @ e1" "snd w1 = snd w @ n1" "\<forall>x \<in> set n1. \<exists>r. gs_Live x = fst w @ r"
      "n > 0 \<longrightarrow> n1 \<noteq> []" "p \<longrightarrow> length n1 \<le> n" using assms(1) by (auto simp: walks_def)
  obtain e2 n2 where 2: "fst w2 = fst w1 @ e2" "snd w2 = snd w1 @ n2" "\<forall>x \<in> set n2. \<exists>r. gs_Live x = fst w1 @ r"
      "m > 0 \<longrightarrow> n2 \<noteq> []" "q \<longrightarrow> length n2 \<le> m" using assms(2) by (auto simp: walks_def)
  have "fst w2 = fst w @ (e1 @ e2)" "snd w2 = snd w @ (n1 @ n2)" using 1 2 by simp_all
  moreover have "\<forall>x \<in> set (n1 @ n2). \<exists>r. gs_Live x = fst w @ r" using 1 2 by auto
  moreover have "n + m > 0 \<longrightarrow> n1 @ n2 \<noteq> []" "p \<and> q \<longrightarrow> length (n1 @ n2) \<le> n + m" using 1 2 by auto
  ultimately show ?thesis unfolding walks_def by blast
qed

lemma walks_weaken: "walks p n w w' \<Longrightarrow> (q \<Longrightarrow> p) \<Longrightarrow> n = m \<Longrightarrow> walks q m w w'"
  unfolding walks_def by blast

lemma walks_declare: "walks p 0 w (declare_local s n r w)"
  by (auto simp: walks_def declare_local_def split: option.splits)

lemma walks_block:
  assumes "\<And>w'. f w = Some w' \<Longrightarrow> walks p n w w'" "block_opt f w = Some w'"
  shows "walks p n w w'"
proof -
  obtain w1 where w1: "f w = Some w1" "w' = (take (length (fst w)) (fst w1), snd w1)" using assms(2) by (auto simp: block_opt_def)
  then show ?thesis using assms(1) [OF w1(1)] by (auto simp: walks_def)
qed

lemma walks_run:
  assumes "\<And>x w w'. x \<in> set xs \<Longrightarrow> f x w = Some w' \<Longrightarrow> walks (p x) (n x) w w'" "run_all (map f xs) w = Some w'"
  shows "walks (list_all p xs) (sum_list (map n xs)) w w'"
  using assms
proof (induction xs arbitrary: w)
  case Nil
  then show ?case by (simp add: run_all_def walks_refl)
next
  case (Cons x xs)
  obtain w1 where w1: "f x w = Some w1" "run_all (map f xs) w1 = Some w'"
    using Cons.prems(2) by (auto simp: run_all_def split: option.splits)
  have "walks (p x) (n x) w w1" using Cons.prems(1) w1(1) by simp
  moreover have "walks (list_all p xs) (sum_list (map n xs)) w1 w'" using Cons.IH Cons.prems(1) w1(2) by simp
  ultimately show ?case using walks_trans by fastforce
qed

lemma walks_open: "(stmtGuarded st \<longleftrightarrow> n > 0) \<Longrightarrow> walks True n w (open_site st w)"
  by (auto simp: walks_def open_site_def intro: exI [of _ "[]"])

lemma walks_open_any: "walks (\<not> stmtGuarded st) 0 w (open_site st w)"
  by (auto simp: walks_def open_site_def)

lemma guards_in_pos: "exprGuarded e \<longleftrightarrow> guards_in e > 0"
  using guards_in_zero [of e] by auto

lemma guards_sum_pos: "list_ex exprGuarded vs \<longleftrightarrow> sum_list (map guards_in vs) > 0"
  by (induction vs) (auto simp: guards_in_pos)

lemma walks_declare_all: "declare_all s ns vs w = Some w' \<Longrightarrow> walks True 0 w w'"
proof (induction s ns vs w rule: declare_all.induct)
  case (3 s n ns v vs w)
  then have "walks True 0 (declare_local s n (reprOf v) w) w'" by simp
  then show ?case using walks_trans [OF walks_declare] by fastforce
qed (auto simp: walks_refl)

lemma walk_body:
  assumes "\<And>x w w'. x \<in> set body \<Longrightarrow> walk_stmt x s w = Some w' \<Longrightarrow> walks (same_walk x) (stmt_guards x) w w'"
    and "block_opt (\<lambda>w. run_all (map (\<lambda>f. f s) (map walk_stmt body)) (h w)) w = Some w'" "walks True 0 w (h w)"
  shows "walks (list_all same_walk body) (sum_list (map stmt_guards body)) w w'"
proof (rule walks_block [OF _ assms(2)])
  fix w1 assume "run_all (map (\<lambda>f. f s) (map walk_stmt body)) (h w) = Some w1"
  then have "run_all (map (\<lambda>x. walk_stmt x s) body) (h w) = Some w1" by (simp add: comp_def)
  then have "walks (list_all same_walk body) (sum_list (map stmt_guards body)) (h w) w1"
    using walks_run [of body "\<lambda>x. walk_stmt x s" same_walk stmt_guards] assms(1) by blast
  then show "walks (list_all same_walk body) (sum_list (map stmt_guards body)) w w1"
    using walks_trans [OF assms(3)] by fastforce
qed

lemma walk_stmt_walks: "walk_stmt st s w = Some w' \<Longrightarrow> walks (same_walk st) (stmt_guards st) w w'"
proof (induction st arbitrary: w w')
  case (EDefine n v)
  have "walks True (guards_in v) w (open_site (EDefine n v) w)" by (rule walks_open) (simp add: guards_in_pos)
  from walks_trans [OF this walks_declare] show ?case using EDefine by fastforce
next
  case (EBind ns vs d)
  have 1: "walks True (sum_list (map guards_in vs)) w (open_site (EBind ns vs d) w)"
    by (rule walks_open) (simp only: stmtGuarded.simps guards_sum_pos)
  then show ?case using EBind walks_trans [OF 1 walks_declare_all] by (cases d) fastforce+
next
  case (EVarDecl n r)
  have "walks True 0 w (open_site (EVarDecl n r) w)" by (rule walks_open) simp
  from walks_trans [OF this walks_declare] show ?case using EVarDecl by fastforce
next
  case (EIf b th el)
  have 1: "walks True (guards_in b) w (open_site (EIf b th el) w)" by (rule walks_open) (simp add: guards_in_pos)
  obtain w1 where w1: "block_opt (run_all (map (\<lambda>f. f s) (map walk_stmt th))) (open_site (EIf b th el) w) = Some w1"
      "block_opt (run_all (map (\<lambda>f. f s) (map walk_stmt el))) w1 = Some w'"
    using EIf.prems by (auto simp: bind_eq_Some_conv)
  have 2: "walks (list_all same_walk th) (sum_list (map stmt_guards th)) (open_site (EIf b th el) w) w1"
    by (rule walk_body [where h = "\<lambda>w. w" and s = s]) (use EIf.IH(1) w1(1) walks_refl in auto)
  have 3: "walks (list_all same_walk el) (sum_list (map stmt_guards el)) w1 w'"
    by (rule walk_body [where h = "\<lambda>w. w" and s = s]) (use EIf.IH(2) w1(2) walks_refl in auto)
  show ?case by (rule walks_weaken [OF walks_trans [OF walks_trans [OF 1 2] 3]]) (simp_all add: list_all_length)
next
  case (EWhile b body)
  have 1: "walks True (guards_in b) w (open_site (EWhile b body) w)" by (rule walks_open) (simp add: guards_in_pos)
  have 2: "walks (list_all same_walk body) (sum_list (map stmt_guards body)) (open_site (EWhile b body) w) w'"
    by (rule walk_body [where h = "\<lambda>w. w" and s = s]) (use EWhile walks_refl in auto)
  show ?case by (rule walks_weaken [OF walks_trans [OF 1 2]]) (simp_all add: list_all_length)
next
  case (EForCount v st sp dn body rs)
  have 1: "walks True (guards_in st + guards_in sp) w (open_site (EForCount v st sp dn body rs) w)"
    by (rule walks_open) (auto simp: guards_in_pos)
  have 2: "walks (list_all same_walk body) (sum_list (map stmt_guards body)) (open_site (EForCount v st sp dn body rs) w) w'"
    by (rule walk_body [where h = "declare_local s v intRepr" and s = s]) (use EForCount walks_declare in auto)
  show ?case by (rule walks_weaken [OF walks_trans [OF 1 2]]) (simp_all add: list_all_length)
next
  case (EForGen n e g body d)
  have 1: "walks (\<not> d) 0 w (open_site (EForGen n e g body d) w)" using walks_open_any [of "EForGen n e g body d" w] by simp
  have 2: "walks (list_all same_walk body) (sum_list (map stmt_guards body)) (open_site (EForGen n e g body d) w) w'"
    by (rule walk_body [where h = "declare_local s n e" and s = s]) (use EForGen walks_declare in auto)
  show ?case by (rule walks_weaken [OF walks_trans [OF 1 2]]) (simp_all add: list_all_length)
next
  case (EForRange n ix ov body)
  have 1: "walks True 0 w (open_site (EForRange n ix ov body) w)" by (rule walks_open) simp
  have 2: "walks (list_all same_walk body) (sum_list (map stmt_guards body)) (open_site (EForRange n ix ov body) w) w'"
    by (rule walk_body [where h = "\<lambda>w. w" and s = s]) (use EForRange walks_refl in auto)
  show ?case using walks_trans [OF 1 2] by (auto simp: walks_def)
qed (auto simp: guards_in_pos intro!: walks_open)

text \<open>A parallel binding that declares its names has a value for each of them.\<close>

primrec binds_ok :: "estmt \<Rightarrow> bool" where
  "binds_ok (EDefine n v) = True"
| "binds_ok (EAssign n v) = True"
| "binds_ok (EBind ns vs d) = (d \<longrightarrow> length ns \<le> length vs)"
| "binds_ok (EVarDecl n r) = True"
| "binds_ok (EAugAssign n o' r v) = True"
| "binds_ok (EReturn v) = True"
| "binds_ok (EDiscard v) = True"
| "binds_ok (EIf b th el) = (list_all id (map binds_ok th) \<and> list_all id (map binds_ok el))"
| "binds_ok (EWhile b body) = list_all id (map binds_ok body)"
| "binds_ok (EForCount v st sp dn body rs) = list_all id (map binds_ok body)"
| "binds_ok (EForGen n e g body d) = list_all id (map binds_ok body)"
| "binds_ok (EForRange n ix ov body) = list_all id (map binds_ok body)"
| "binds_ok EBreak = True"
| "binds_ok EContinue = True"

lemma declare_all_total: "length ns \<le> length vs \<Longrightarrow> \<exists>w'. declare_all s ns vs w = Some w'"
  by (induction s ns vs w rule: declare_all.induct) auto

lemma run_all_total:
  assumes "\<And>x w. x \<in> set xs \<Longrightarrow> \<exists>w'. f x w = Some w'"
  shows "\<exists>w'. run_all (map f xs) w = Some w'"
  using assms
proof (induction xs arbitrary: w)
  case (Cons x xs)
  obtain w1 where "f x w = Some w1" using Cons.prems by (meson list.set_intros(1))
  then show ?case using Cons by (auto simp: run_all_def)
qed (simp add: run_all_def)

lemma block_total:
  assumes "\<And>x w. x \<in> set body \<Longrightarrow> \<exists>w'. walk_stmt x s w = Some w'"
  shows "\<exists>w'. block_opt (\<lambda>w. run_all (map (\<lambda>f. f s) (map walk_stmt body)) (h w)) w = Some w'"
proof -
  obtain w' where "run_all (map (\<lambda>x. walk_stmt x s) body) (h w) = Some w'"
    using run_all_total [of body "\<lambda>x. walk_stmt x s" "h w"] assms by blast
  then show ?thesis by (simp add: block_opt_def comp_def)
qed

lemma walk_stmt_total: "binds_ok st \<Longrightarrow> \<exists>w'. walk_stmt st s w = Some w'"
proof (induction st arbitrary: w)
  case (EBind ns vs d)
  then show ?case using declare_all_total by (simp add: Let_def)
next
  case (EIf b th el)
  have all: "binds_ok x" if "x \<in> set th \<union> set el" for x using EIf.prems that by (auto simp: list_all_iff)
  have "\<exists>w'. block_opt (run_all (map (\<lambda>f. f s) (map walk_stmt th))) w0 = Some w'" for w0
    by (rule block_total) (use EIf.IH(1) all in blast)
  moreover have "\<exists>w'. block_opt (run_all (map (\<lambda>f. f s) (map walk_stmt el))) w0 = Some w'" for w0
    by (rule block_total) (use EIf.IH(2) all in blast)
  ultimately show ?case unfolding walk_stmt.simps by (metis Option.bind.bind_lunit)
next
  case (EWhile b body)
  then show ?case using block_total [of body s "\<lambda>w. w"] by (auto simp: list_all_iff)
next
  case (EForCount v st sp dn body rs)
  then show ?case using block_total [of body s "declare_local s v intRepr"] by (auto simp: list_all_iff)
next
  case (EForGen n e g body d)
  then show ?case using block_total [of body s "declare_local s n e"] by (auto simp: list_all_iff)
next
  case (EForRange n ix ov body)
  then show ?case using block_total [of body s "\<lambda>w. w"] by (auto simp: list_all_iff)
qed simp_all

text \<open>C37: the operation census and the deopt-site walk agree, for functions whose tuple declarations name no more
  targets than they have values (\<open>binds_ok\<close>). The walk does not panic and a function whose census counts a guard has a deopt site. If
  moreover the body has no slice loop and no hand-off drive (\<open>same_walk\<close>) and the function has no binding guards, it
  has no more sites than counted guards, so it is guard-free for the cost model exactly when its deopt plan is empty.\<close>
theorem census_matches_sites:
  assumes "list_all binds_ok (ef_Body f)"
  shows "\<exists>sites. GuardSitesOf f = Some sites \<and> (c_EntryGuards (CostOf f) + c_LoopGuards (CostOf f) = 0 \<or> sites \<noteq> []) \<and>
    (if list_all same_walk (ef_Body f) \<and> BindingGuards f = []
     then length sites \<le> c_EntryGuards (CostOf f) + c_LoopGuards (CostOf f) else True)"
proof -
  obtain s where s: "NewInterner = Some s" using NewInterner_wf by blast
  define w0 where "w0 = fold (\<lambda>p. declare_local s (ep_Name p) (ep_Repr p)) (ef_Params f) ([], [])"
  define w1 where "w1 = (if BindingGuards f \<noteq> [] then (fst w0, snd w0 @ [GuardSite (fst w0)]) else w0)"
  have "snd (fold (\<lambda>p. declare_local s (ep_Name p) (ep_Repr p)) ps w) = snd w" for ps w
    by (induction ps arbitrary: w) (auto simp: declare_local_def split: option.splits)
  from this [of "ef_Params f" "([], [])"] have "snd w0 = []" by (simp add: w0_def)
  then have w1: "BindingGuards f = [] \<Longrightarrow> snd w1 = []" by (simp add: w1_def)
  obtain w2 where w2: "run_all (map (\<lambda>st. walk_stmt st s) (ef_Body f)) w1 = Some w2"
    using run_all_total [of "ef_Body f" "\<lambda>st. walk_stmt st s" w1] walk_stmt_total assms unfolding list_all_iff by blast
  have "walks (list_all same_walk (ef_Body f)) (sum_list (map stmt_guards (ef_Body f))) w1 w2"
    by (rule walks_run [OF _ w2]) (rule walk_stmt_walks)
  then have "walks (list_all same_walk (ef_Body f)) (c_EntryGuards (CostOf f) + c_LoopGuards (CostOf f)) w1 w2"
    using CostOf_guards [of f] by (simp add: guard_count_def)
  moreover have "GuardSitesOf f = Some (snd w2)" 
    unfolding GuardSitesOf_def s Let_def bind.bind_lunit w0_def [symmetric] w1_def [symmetric] w2 by simp
  ultimately show ?thesis using w1 by (auto simp: walks_def)
qed

definition demo_func :: efunc where
  "demo_func = \<lparr>ef_Name = ''f'', ef_Params = [\<lparr>ep_Name = ''x'', ep_Repr = intRepr\<rparr>], ef_Ret = intRepr,
     ef_Body = [EReturn (EBin OpAdd (EVar ''x'' intRepr) (EInt 1))], DeoptHandler = [], BindingGuards = []\<rparr>"

theorem census_matches_sites_witness:
  "c_EntryGuards (CostOf demo_func) = 1 \<and> (\<exists>site. GuardSitesOf demo_func = Some [site])"
proof -
  have c: "c_EntryGuards (CostOf demo_func) = 1" "c_LoopGuards (CostOf demo_func) = 0"
    by (simp_all add: CostOf_def demo_func_def bin_guarded_def binResult_def intRepr_def numeric_def Overflows_def Let_def add_op_def
        add_guard_def zero_cost_def)
  obtain sites where s: "GuardSitesOf demo_func = Some sites" "sites \<noteq> []" "length sites \<le> 1"
    using census_matches_sites [of demo_func] c by (auto simp: demo_func_def)
  then obtain x where "sites = [x]" by (cases sites) auto
  with s(1) c(1) show ?thesis by blast
qed

end
