(* ===== verification/Go_Lang.thy ===== *)
theory Go_Lang
  imports Static_Tier Emit_Model "HOL-Library.AList"
begin

text \<open>
  The fragment of Go that \<^verbatim>\<open>pkg/emit\<close> prints: the \<^verbatim>\<open>go/ast\<close> nodes it builds (\<^verbatim>\<open>emit.go\<close> wraps them) and what Go
  makes of them.

  An identifier is looked up through the enclosing blocks before the predeclared names, so a declaration shadows.
  Integer and float literals are untyped constants: they take the type of their context, and a short variable
  declaration gives an integer constant the type \<open>int\<close>, which is not \<open>int64\<close>. Arithmetic on two untyped float
  constants is exact in Go and has no value here. A program Go rejects or that panics is \<^const>\<open>None\<close>, respectively the
  outcome \<open>GStuck\<close>. IEEE arithmetic is a parameter.
\<close>

section \<open>Syntax\<close>

datatype gtok =
  T_ILLEGAL | T_LSS | T_LEQ | T_GTR | T_GEQ | T_EQL | T_NEQ | T_LAND | T_LOR | T_NOT | T_ADD | T_SUB | T_MUL | T_QUO
| T_AND | T_OR | T_XOR | T_DEFINE | T_ASSIGN | T_ADD_ASSIGN | T_SUB_ASSIGN | T_MUL_ASSIGN | T_INC | T_DEC
| T_BREAK | T_CONTINUE | T_FALLTHROUGH

datatype gexpr =
  GIdent string
| GIntLit int64
| GFloatLit int64
| GStrLit string
| GBinary gtok gexpr gexpr
| GParen gexpr
| GUnary gtok gexpr
| GCall gexpr "gexpr list"
| GSelector gexpr string
| GIndex gexpr gexpr
| GComposite gexpr "gexpr list"
| GKeyValue gexpr gexpr
| GArrayType gexpr
| GStar gexpr
| GTypeAssert gexpr gexpr

datatype 's gclause = GClause "gexpr list" "'s list"

datatype gstmt =
  GAssign "gexpr list" gtok "gexpr list"
| GIf "gstmt option" gexpr "gstmt list" "gstmt option"
| GBlock "gstmt list"
| GReturn "gexpr list"
| GBranch gtok
| GFor "gstmt option" "gexpr option" "gstmt option" "gstmt list"
| GRange gexpr gexpr gexpr "gstmt list"
| GVar string gexpr
| GIncDec gexpr gtok
| GSwitch gexpr "gstmt gclause list"

record gfunc =
  gf_Func :: string
  gf_Params :: "(string \<times> gexpr) list"
  gf_Results :: "gexpr list"
  gf_Stmts :: "gstmt list"

subsection \<open>The constructors of \<^verbatim>\<open>emit.go\<close>\<close>

definition runtimePkg :: string where
  "runtimePkg = ''rt''"

definition sel :: "string \<Rightarrow> string \<Rightarrow> gexpr" where
  "sel pkg name = GSelector (GIdent pkg) name"

definition define_stmt :: "string \<Rightarrow> gexpr \<Rightarrow> gstmt" where
  "define_stmt name rhs = GAssign [GIdent name] T_DEFINE [rhs]"

definition setStmt :: "gexpr \<Rightarrow> gexpr \<Rightarrow> gstmt" where
  "setStmt lhs rhs = GAssign [lhs] T_ASSIGN [rhs]"

definition augAssign :: "string \<Rightarrow> op \<Rightarrow> gexpr \<Rightarrow> gstmt" where
  "augAssign name o' rhs =
     GAssign [GIdent name] (case o' of OpSub \<Rightarrow> T_SUB_ASSIGN | OpMul \<Rightarrow> T_MUL_ASSIGN | _ \<Rightarrow> T_ADD_ASSIGN) [rhs]"

definition ifStmt :: "gexpr \<Rightarrow> gstmt list \<Rightarrow> gstmt" where
  "ifStmt cond body = GIf None cond body None"

section \<open>Values\<close>

text \<open>\<open>VConst\<close> and \<open>VFConst\<close> are untyped constants, \<open>VGoInt\<close> is Go's own \<open>int\<close>, \<open>VErr\<close> a raised exception on the
  error channel and \<open>VDeopt\<close> the deopt sentinel.\<close>

datatype gval =
  VInt int64
| VFloat int64
| VBool bool
| VStr string
| VList "gval list"
| VStruct "(string \<times> gval) list"
| VConst int
| VFConst int64
| VGoInt int
| VNil
| VErr string string
| VDeopt

text \<open>The IEEE operations: the first six are the hardware's, the last three what Python computes on an int and a
  float, or on two ints, without rounding the ints first.\<close>

record fops =
  f_add :: "int64 \<Rightarrow> int64 \<Rightarrow> int64"
  f_sub :: "int64 \<Rightarrow> int64 \<Rightarrow> int64"
  f_mul :: "int64 \<Rightarrow> int64 \<Rightarrow> int64"
  f_div :: "int64 \<Rightarrow> int64 \<Rightarrow> int64"
  f_eq :: "int64 \<Rightarrow> int64 \<Rightarrow> bool"
  f_lt :: "int64 \<Rightarrow> int64 \<Rightarrow> bool"
  f_le :: "int64 \<Rightarrow> int64 \<Rightarrow> bool"
  f_of_int :: "int \<Rightarrow> int64"
  f_truediv :: "int \<Rightarrow> int \<Rightarrow> int64"
  f_intpow :: "int \<Rightarrow> int \<Rightarrow> int64"
  f_cmp :: "cmp_op \<Rightarrow> int \<Rightarrow> int64 \<Rightarrow> bool"

type_synonym genv = "(string \<Rightarrow> gval option) list"

fun glook :: "genv \<Rightarrow> string \<Rightarrow> gval option" where
  "glook [] n = None"
| "glook (f # fs) n = (case f n of Some v \<Rightarrow> Some v | None \<Rightarrow> glook fs n)"

fun gset :: "string \<Rightarrow> gval \<Rightarrow> genv \<Rightarrow> genv option" where
  "gset n v [] = None"
| "gset n v (f # fs) = (case f n of Some _ \<Rightarrow> Some (f(n \<mapsto> v) # fs) | None \<Rightarrow> map_option ((#) f) (gset n v fs))"

section \<open>Expressions\<close>

fun conv_int :: "gval \<Rightarrow> int64 option" where
  "conv_int (VInt w) = Some w"
| "conv_int (VConst c) = (if in64 c then Some (word_of_int c) else None)"
| "conv_int _ = None"

fun conv_float :: "fops \<Rightarrow> gval \<Rightarrow> int64 option" where
  "conv_float F (VFloat w) = Some w"
| "conv_float F (VFConst w) = Some w"
| "conv_float F (VConst c) = Some (f_of_int F c)"
| "conv_float F _ = None"

fun conv_str :: "gval \<Rightarrow> string option" where
  "conv_str (VStr s) = Some s"
| "conv_str _ = None"

text \<open>The assignment of a value to a variable, field, element or result of a Go type.\<close>

fun conv_type :: "fops \<Rightarrow> gexpr \<Rightarrow> gval \<Rightarrow> gval option" where
  "conv_type F (GArrayType t) v = (case v of VList vs \<Rightarrow> Some (VList vs) | VNil \<Rightarrow> Some (VList []) | _ \<Rightarrow> None)"
| "conv_type F (GIdent n) v =
     (if n = ''int64'' then map_option VInt (conv_int v)
      else if n = ''float64'' then map_option VFloat (conv_float F v)
      else if n = ''bool'' then (case v of VBool b \<Rightarrow> Some v | _ \<Rightarrow> None)
      else if n = ''string'' then (case v of VStr s \<Rightarrow> Some v | _ \<Rightarrow> None)
      else if n = ''error'' then (case v of VNil \<Rightarrow> Some v | VErr c m \<Rightarrow> Some v | VDeopt \<Rightarrow> Some v | _ \<Rightarrow> None)
      else (case v of VStruct fs \<Rightarrow> Some v | _ \<Rightarrow> None))"
| "conv_type F _ v = None"

text \<open>The assignment to a variable that holds a value of its type.\<close>

fun like :: "fops \<Rightarrow> gval \<Rightarrow> gval \<Rightarrow> gval option" where
  "like F (VInt _) v = map_option VInt (conv_int v)"
| "like F (VFloat _) v = map_option VFloat (conv_float F v)"
| "like F (VBool _) (VBool b) = Some (VBool b)"
| "like F (VStr _) (VStr s) = Some (VStr s)"
| "like F (VList _) (VList vs) = Some (VList vs)"
| "like F (VStruct _) (VStruct fs) = Some (VStruct fs)"
| "like F _ _ = None"

text \<open>The type a short variable declaration gives. A \<open>nil\<close> that is declared is the error result of a call.\<close>

fun defaulted :: "gval \<Rightarrow> gval option" where
  "defaulted (VConst c) = Some (VGoInt c)"
| "defaulted (VFConst w) = Some (VFloat w)"
| "defaulted v = Some v"

definition neg_zero :: int64 where
  "neg_zero = push_bit 63 1"

definition finite_bits :: "int64 \<Rightarrow> bool" where
  "finite_bits w \<longleftrightarrow> drop_bit 52 w AND 0x7FF \<noteq> 0x7FF"

fun cmp_res :: "gtok \<Rightarrow> bool \<Rightarrow> bool \<Rightarrow> bool option" where
  "cmp_res T_LSS lt eq = Some lt"
| "cmp_res T_LEQ lt eq = Some (lt \<or> eq)"
| "cmp_res T_GTR lt eq = Some (\<not> lt \<and> \<not> eq)"
| "cmp_res T_GEQ lt eq = Some (\<not> lt)"
| "cmp_res T_EQL lt eq = Some eq"
| "cmp_res T_NEQ lt eq = Some (\<not> eq)"
| "cmp_res _ lt eq = None"

definition int_bin :: "gtok \<Rightarrow> int64 \<Rightarrow> int64 \<Rightarrow> gval option" where
  "int_bin t a b =
     (case t of T_AND \<Rightarrow> Some (VInt (a AND b)) | T_OR \<Rightarrow> Some (VInt (a OR b)) | T_XOR \<Rightarrow> Some (VInt (a XOR b))
      | T_ADD \<Rightarrow> Some (VInt (a + b)) | T_SUB \<Rightarrow> Some (VInt (a - b)) | T_MUL \<Rightarrow> Some (VInt (a * b))
      | _ \<Rightarrow> map_option VBool (cmp_res t (sint a < sint b) (a = b)))"

definition const_bin :: "gtok \<Rightarrow> int \<Rightarrow> int \<Rightarrow> gval option" where
  "const_bin t a b =
     (case t of T_AND \<Rightarrow> Some (VConst (a AND b)) | T_OR \<Rightarrow> Some (VConst (a OR b)) | T_XOR \<Rightarrow> Some (VConst (a XOR b))
      | T_ADD \<Rightarrow> Some (VConst (a + b)) | T_SUB \<Rightarrow> Some (VConst (a - b)) | T_MUL \<Rightarrow> Some (VConst (a * b))
      | _ \<Rightarrow> map_option VBool (cmp_res t (a < b) (a = b)))"

definition float_cmp :: "fops \<Rightarrow> gtok \<Rightarrow> int64 \<Rightarrow> int64 \<Rightarrow> bool option" where
  "float_cmp F t a b =
     (case t of T_LSS \<Rightarrow> Some (f_lt F a b) | T_LEQ \<Rightarrow> Some (f_le F a b) | T_GTR \<Rightarrow> Some (f_lt F b a)
      | T_GEQ \<Rightarrow> Some (f_le F b a) | T_EQL \<Rightarrow> Some (f_eq F a b) | T_NEQ \<Rightarrow> Some (\<not> f_eq F a b) | _ \<Rightarrow> None)"

definition float_bin :: "fops \<Rightarrow> gtok \<Rightarrow> int64 \<Rightarrow> int64 \<Rightarrow> gval option" where
  "float_bin F t a b =
     (case t of T_ADD \<Rightarrow> Some (VFloat (f_add F a b)) | T_SUB \<Rightarrow> Some (VFloat (f_sub F a b))
      | T_MUL \<Rightarrow> Some (VFloat (f_mul F a b)) | T_QUO \<Rightarrow> Some (VFloat (f_div F a b))
      | _ \<Rightarrow> map_option VBool (float_cmp F t a b))"

fun is_nil :: "gval \<Rightarrow> bool option" where
  "is_nil VNil = Some True"
| "is_nil (VErr c m) = Some False"
| "is_nil VDeopt = Some False"
| "is_nil _ = None"

definition go_bin :: "fops \<Rightarrow> gtok \<Rightarrow> gval \<Rightarrow> gval \<Rightarrow> gval option" where
  "go_bin F t x y =
     (case (x, y) of
        (VBool a, VBool b) \<Rightarrow>
          (case t of T_EQL \<Rightarrow> Some (VBool (a = b)) | T_NEQ \<Rightarrow> Some (VBool (a \<noteq> b)) | _ \<Rightarrow> None)
      | (VStr a, VStr b) \<Rightarrow> if t = T_ADD then Some (VStr (a @ b)) else map_option VBool (cmp_res t (a < b) (a = b))
      | (VConst a, VConst b) \<Rightarrow> const_bin t a b
      | (VInt a, VInt b) \<Rightarrow> int_bin t a b
      | (VInt a, VConst c) \<Rightarrow> Option.bind (conv_int y) (int_bin t a)
      | (VConst c, VInt b) \<Rightarrow> Option.bind (conv_int x) (\<lambda>a. int_bin t a b)
      | (VGoInt a, VConst b) \<Rightarrow> map_option VBool (cmp_res t (a < b) (a = b))
      | (VFConst a, VFConst b) \<Rightarrow> map_option VBool (float_cmp F t a b)
      | (VFloat a, _) \<Rightarrow> Option.bind (conv_float F y) (float_bin F t a)
      | (_, VFloat b) \<Rightarrow> Option.bind (conv_float F x) (\<lambda>a. float_bin F t a b)
      | (_, VNil) \<Rightarrow> Option.bind (is_nil x) (\<lambda>n.
            case t of T_EQL \<Rightarrow> Some (VBool n) | T_NEQ \<Rightarrow> Some (VBool (\<not> n)) | _ \<Rightarrow> None)
      | _ \<Rightarrow> None)"

text \<open>The name a call reaches: a predeclared or package-level function, or one of the runtime package, unless a local
  declaration shadows it.\<close>

fun callee :: "genv \<Rightarrow> gexpr \<Rightarrow> string option" where
  "callee \<sigma> (GIdent n) = (if glook \<sigma> n = None then Some n else None)"
| "callee \<sigma> (GSelector (GIdent p) n) = (if glook \<sigma> p = None then Some (p @ ''.'' @ n) else None)"
| "callee \<sigma> _ = None"

definition OrFloat64 :: "fops \<Rightarrow> int64 \<Rightarrow> int64 \<Rightarrow> int64" where
  "OrFloat64 F a b = (if \<not> f_eq F a 0 then a else b)"

definition AndFloat64 :: "fops \<Rightarrow> int64 \<Rightarrow> int64 \<Rightarrow> int64" where
  "AndFloat64 F a b = (if f_eq F a 0 then a else b)"

text \<open>Calls with one result.\<close>

definition int_call :: "(int64 \<Rightarrow> int64 \<Rightarrow> gval option) \<Rightarrow> gval list \<Rightarrow> gval option" where
  "int_call h vs = (case vs of [a, b] \<Rightarrow> (case (conv_int a, conv_int b) of (Some x, Some y) \<Rightarrow> h x y | _ \<Rightarrow> None) | _ \<Rightarrow> None)"

definition float_call :: "fops \<Rightarrow> (int64 \<Rightarrow> int64 \<Rightarrow> int64) \<Rightarrow> gval list \<Rightarrow> gval option" where
  "float_call F h vs =
     (case vs of [a, b] \<Rightarrow> (case (conv_float F a, conv_float F b) of (Some x, Some y) \<Rightarrow> Some (VFloat (h x y)) | _ \<Rightarrow> None)
      | _ \<Rightarrow> None)"

definition str_call :: "(string \<Rightarrow> string \<Rightarrow> string) \<Rightarrow> gval list \<Rightarrow> gval option" where
  "str_call h vs =
     (case vs of [a, b] \<Rightarrow> (case (conv_str a, conv_str b) of (Some x, Some y) \<Rightarrow> Some (VStr (h x y)) | _ \<Rightarrow> None) | _ \<Rightarrow> None)"

definition error_call :: "string \<Rightarrow> gval list \<Rightarrow> gval option" where
  "error_call c vs = (case vs of [VStr m] \<Rightarrow> Some (VErr c m) | _ \<Rightarrow> None)"

definition go_call :: "fops \<Rightarrow> string \<Rightarrow> gval list \<Rightarrow> gval option" where
  "go_call F n vs =
     (if n = ''float64'' then
        (case vs of [VInt w] \<Rightarrow> Some (VFloat (f_of_int F (sint w))) | [v] \<Rightarrow> map_option VFloat (conv_float F v) | _ \<Rightarrow> None)
      else if n = ''int64'' then
        (case vs of [VGoInt c] \<Rightarrow> Some (VInt (word_of_int c)) | [v] \<Rightarrow> map_option VInt (conv_int v) | _ \<Rightarrow> None)
      else if n = ''len'' then (case vs of [VList xs] \<Rightarrow> Some (VGoInt (int (length xs))) | _ \<Rightarrow> None)
      else if n = ''rt.BoolToInt'' then (case vs of [VBool b] \<Rightarrow> Some (VInt (BoolToInt b)) | _ \<Rightarrow> None)
      else if n = ''rt.FloorModInt64'' then int_call (\<lambda>a b. map_option VInt (FloorModInt64 a b)) vs
      else if n = ''rt.RShiftInt64'' then int_call (\<lambda>a b. Some (VInt (RShiftInt64 a b))) vs
      else if n = ''rt.OrInt64'' then int_call (\<lambda>a b. Some (VInt (OrInt64 a b))) vs
      else if n = ''rt.AndInt64'' then int_call (\<lambda>a b. Some (VInt (AndInt64 a b))) vs
      else if n = ''rt.OrFloat64'' then float_call F (OrFloat64 F) vs
      else if n = ''rt.AndFloat64'' then float_call F (AndFloat64 F) vs
      else if n = ''rt.OrStr'' then str_call OrStr vs
      else if n = ''rt.AndStr'' then str_call AndStr vs
      else if n = ''rt.ZeroDivisionError'' then error_call ''ZeroDivisionError'' vs
      else if n = ''rt.ValueError'' then error_call ''ValueError'' vs
      else None)"

fun predeclared :: "string \<Rightarrow> gval option" where
  "predeclared n =
     (if n = ''true'' then Some (VBool True) else if n = ''false'' then Some (VBool False)
      else if n = ''nil'' then Some VNil else None)"

fun go_eval :: "fops \<Rightarrow> genv \<Rightarrow> gexpr \<Rightarrow> gval option" where
  "go_eval F \<sigma> (GIdent n) = (case glook \<sigma> n of Some v \<Rightarrow> Some v | None \<Rightarrow> predeclared n)"
| "go_eval F \<sigma> (GIntLit w) = Some (VConst (sint w))"
| "go_eval F \<sigma> (GFloatLit w) = (if finite_bits w then Some (VFConst (if w = neg_zero then 0 else w)) else None)"
| "go_eval F \<sigma> (GStrLit s) = Some (VStr s)"
| "go_eval F \<sigma> (GBinary t x y) =
     (if t = T_LAND then
        (case go_eval F \<sigma> x of
           Some (VBool a) \<Rightarrow> if a then (case go_eval F \<sigma> y of Some (VBool b) \<Rightarrow> Some (VBool b) | _ \<Rightarrow> None) else Some (VBool False)
         | _ \<Rightarrow> None)
      else if t = T_LOR then
        (case go_eval F \<sigma> x of
           Some (VBool a) \<Rightarrow> if a then Some (VBool True) else (case go_eval F \<sigma> y of Some (VBool b) \<Rightarrow> Some (VBool b) | _ \<Rightarrow> None)
         | _ \<Rightarrow> None)
      else (case (go_eval F \<sigma> x, go_eval F \<sigma> y) of (Some a, Some b) \<Rightarrow> go_bin F t a b | _ \<Rightarrow> None))"
| "go_eval F \<sigma> (GParen x) = go_eval F \<sigma> x"
| "go_eval F \<sigma> (GUnary t x) = (if t = T_NOT then (case go_eval F \<sigma> x of Some (VBool b) \<Rightarrow> Some (VBool (\<not> b)) | _ \<Rightarrow> None) else None)"
| "go_eval F \<sigma> (GCall f xs) = do {n \<leftarrow> callee \<sigma> f; vs \<leftarrow> those (map (go_eval F \<sigma>) xs); go_call F n vs}"
| "go_eval F \<sigma> (GSelector x n) = (case go_eval F \<sigma> x of Some (VStruct fs) \<Rightarrow> map_of fs n | _ \<Rightarrow> None)"
| "go_eval F \<sigma> (GIndex x i) =
     (case (go_eval F \<sigma> x, Option.bind (go_eval F \<sigma> i) conv_int) of
        (Some (VList vs), Some k) \<Rightarrow> if 0 \<le> sint k \<and> sint k < int (length vs) then Some (vs ! nat (sint k)) else None
      | _ \<Rightarrow> None)"
| "go_eval F \<sigma> (GComposite t xs) =
     (case t of
        GArrayType e \<Rightarrow> do {vs \<leftarrow> those (map (go_eval F \<sigma>) xs); map_option VList (those (map (conv_type F e) vs))}
      | _ \<Rightarrow> None)"
| "go_eval F \<sigma> (GKeyValue k v) = None"
| "go_eval F \<sigma> (GArrayType t) = None"
| "go_eval F \<sigma> (GStar t) = None"
| "go_eval F \<sigma> (GTypeAssert x t) = None"

section \<open>Statements\<close>

text \<open>What running statements ends in: the next statement, a break, a continue, a fallthrough, a return of values, a
  return of another function's call (a hand-off), a program Go rejects or that panics, or a loop that used up its
  iterations.\<close>

datatype gout =
  GNext genv | GBreak genv | GCont genv | GFall genv | GRet "gval list" | GTail string "gval list" | GStuck | GFuel

type_synonym gfuns = "string \<Rightarrow> gval list \<Rightarrow> gval list option"

definition pair_call :: "(int64 \<Rightarrow> int64 \<Rightarrow> (int64 \<times> bool) option) \<Rightarrow> gval list \<Rightarrow> gval list option" where
  "pair_call h vs =
     (case vs of
        [a, b] \<Rightarrow>
          (case (conv_int a, conv_int b) of
             (Some x, Some y) \<Rightarrow> map_option (\<lambda>(v, ovf). [VInt v, VBool ovf]) (h x y)
           | _ \<Rightarrow> None)
      | _ \<Rightarrow> None)"

definition go_multi :: "gfuns \<Rightarrow> string \<Rightarrow> gval list \<Rightarrow> gval list option" where
  "go_multi G n vs =
     (if n = ''rt.AddInt64'' then pair_call (\<lambda>a b. Some (AddInt64 a b)) vs
      else if n = ''rt.SubInt64'' then pair_call (\<lambda>a b. Some (SubInt64 a b)) vs
      else if n = ''rt.MulInt64'' then pair_call (\<lambda>a b. Some (MulInt64 a b)) vs
      else if n = ''rt.FloorDivInt64'' then pair_call FloorDivInt64 vs
      else if n = ''rt.PowInt64'' then pair_call (\<lambda>a b. Some (PowInt64 a b)) vs
      else if n = ''rt.LShiftInt64'' then pair_call (\<lambda>a b. Some (LShiftInt64 a b)) vs
      else G n vs)"

definition eval_rhs :: "fops \<Rightarrow> gfuns \<Rightarrow> genv \<Rightarrow> nat \<Rightarrow> gexpr list \<Rightarrow> gval list option" where
  "eval_rhs F G \<sigma> k xs =
     (if length xs = k then those (map (go_eval F \<sigma>) xs)
      else (case xs of
              [GCall f args] \<Rightarrow>
                do {n \<leftarrow> callee \<sigma> f; vs \<leftarrow> those (map (go_eval F \<sigma>) args); rs \<leftarrow> go_multi G n vs;
                    if length rs = k then Some rs else None}
            | [GTypeAssert x t] \<Rightarrow>
                do {v \<leftarrow> go_eval F \<sigma> x; if k = 2 then Some [v, VBool (v = VDeopt)] else None}
            | _ \<Rightarrow> None))"

fun ident_of :: "gexpr \<Rightarrow> string option" where
  "ident_of (GIdent n) = Some n"
| "ident_of _ = None"

definition declare_one :: "fops \<Rightarrow> string \<times> gval \<Rightarrow> genv \<Rightarrow> genv option" where
  "declare_one F nv \<sigma> =
     (case nv of (n, v) \<Rightarrow>
        if n = ''_'' then Some \<sigma>
        else (case \<sigma> of
                [] \<Rightarrow> None
              | f # fs \<Rightarrow>
                  do {v' \<leftarrow> (case f n of Some old \<Rightarrow> like F old v | None \<Rightarrow> defaulted v); Some (f(n \<mapsto> v') # fs)}))"

definition go_declare :: "fops \<Rightarrow> string list \<Rightarrow> gval list \<Rightarrow> genv \<Rightarrow> genv option" where
  "go_declare F ns vs \<sigma> =
     (if list_ex (\<lambda>n. n \<noteq> ''_'' \<and> hd \<sigma> n = None) ns \<and> distinct (filter (\<lambda>n. n \<noteq> ''_'') ns) \<and> length ns = length vs
      then fold_opt (declare_one F) (zip ns vs) \<sigma> else None)"

fun assign_one :: "fops \<Rightarrow> gexpr \<times> gval \<Rightarrow> genv \<Rightarrow> genv option" where
  "assign_one F (GIdent n, v) \<sigma> =
     (if n = ''_'' then Some \<sigma> else do {old \<leftarrow> glook \<sigma> n; v' \<leftarrow> like F old v; gset n v' \<sigma>})"
| "assign_one F (GSelector (GIdent g) n, v) \<sigma> =
     (case glook \<sigma> g of
        Some (VStruct fs) \<Rightarrow> do {old \<leftarrow> map_of fs n; v' \<leftarrow> like F old v; gset g (VStruct (AList.update n v' fs)) \<sigma>}
      | _ \<Rightarrow> None)"
| "assign_one F (_, v) \<sigma> = None"

fun bin_of_tok :: "gtok \<Rightarrow> gtok option" where
  "bin_of_tok T_ADD_ASSIGN = Some T_ADD"
| "bin_of_tok T_SUB_ASSIGN = Some T_SUB"
| "bin_of_tok T_MUL_ASSIGN = Some T_MUL"
| "bin_of_tok _ = None"

definition go_assign :: "fops \<Rightarrow> gfuns \<Rightarrow> gexpr list \<Rightarrow> gtok \<Rightarrow> gexpr list \<Rightarrow> genv \<Rightarrow> genv option" where
  "go_assign F G lhs t rhs \<sigma> =
     (if t = T_DEFINE then
        do {ns \<leftarrow> those (map ident_of lhs); vs \<leftarrow> eval_rhs F G \<sigma> (length lhs) rhs; go_declare F ns vs \<sigma>}
      else if t = T_ASSIGN then
        do {vs \<leftarrow> eval_rhs F G \<sigma> (length lhs) rhs; fold_opt (assign_one F) (zip lhs vs) \<sigma>}
      else
        do {o' \<leftarrow> bin_of_tok t;
            (case (lhs, rhs) of
               ([x], [y]) \<Rightarrow> do {a \<leftarrow> go_eval F \<sigma> x; b \<leftarrow> go_eval F \<sigma> y; v \<leftarrow> go_bin F o' a b; assign_one F (x, v) \<sigma>}
             | _ \<Rightarrow> None)})"

definition go_incdec :: "fops \<Rightarrow> gexpr \<Rightarrow> gtok \<Rightarrow> genv \<Rightarrow> genv option" where
  "go_incdec F x t \<sigma> =
     do {o' \<leftarrow> (case t of T_INC \<Rightarrow> Some T_ADD | T_DEC \<Rightarrow> Some T_SUB | _ \<Rightarrow> None);
         a \<leftarrow> go_eval F \<sigma> x; v \<leftarrow> go_bin F o' a (VConst 1); assign_one F (x, v) \<sigma>}"

fun zero_type :: "gexpr \<Rightarrow> gval option" where
  "zero_type (GArrayType t) = Some (VList [])"
| "zero_type (GIdent n) =
     (if n = ''int64'' then Some (VInt 0) else if n = ''float64'' then Some (VFloat 0)
      else if n = ''bool'' then Some (VBool False) else if n = ''string'' then Some (VStr []) else None)"
| "zero_type _ = None"

definition go_var :: "string \<Rightarrow> gexpr \<Rightarrow> genv \<Rightarrow> genv option" where
  "go_var n t \<sigma> =
     (case \<sigma> of [] \<Rightarrow> None | f # fs \<Rightarrow> if f n = None then do {v \<leftarrow> zero_type t; Some (f(n \<mapsto> v) # fs)} else None)"

definition next_or_stuck :: "genv option \<Rightarrow> gout" where
  "next_or_stuck o' = (case o' of Some \<sigma> \<Rightarrow> GNext \<sigma> | None \<Rightarrow> GStuck)"

fun seq :: "gout \<Rightarrow> (genv \<Rightarrow> gout) \<Rightarrow> gout" where
  "seq (GNext \<sigma>) k = k \<sigma>"
| "seq r k = r"

fun run_block :: "(genv \<Rightarrow> gout) list \<Rightarrow> genv \<Rightarrow> gout" where
  "run_block [] \<sigma> = GNext \<sigma>"
| "run_block (f # fs) \<sigma> = seq (f \<sigma>) (run_block fs)"

text \<open>A block opens a scope and closes it on every way out.\<close>

fun leave :: "gout \<Rightarrow> gout" where
  "leave (GNext \<sigma>) = GNext (tl \<sigma>)"
| "leave (GBreak \<sigma>) = GBreak (tl \<sigma>)"
| "leave (GCont \<sigma>) = GCont (tl \<sigma>)"
| "leave (GFall \<sigma>) = GFall (tl \<sigma>)"
| "leave r = r"

definition in_block :: "(genv \<Rightarrow> gout) \<Rightarrow> genv \<Rightarrow> gout" where
  "in_block f \<sigma> = leave (f ((\<lambda>_. None) # \<sigma>))"

definition go_test :: "fops \<Rightarrow> gexpr \<Rightarrow> genv \<Rightarrow> bool option" where
  "go_test F c \<sigma> = (case go_eval F \<sigma> c of Some (VBool b) \<Rightarrow> Some b | _ \<Rightarrow> None)"

fun for_loop :: "nat \<Rightarrow> (genv \<Rightarrow> bool option) \<Rightarrow> (genv \<Rightarrow> gout) \<Rightarrow> (genv \<Rightarrow> gout) \<Rightarrow> genv \<Rightarrow> gout" where
  "for_loop 0 c body post \<sigma> = GFuel"
| "for_loop (Suc n) c body post \<sigma> =
     (case c \<sigma> of
        None \<Rightarrow> GStuck
      | Some False \<Rightarrow> GNext \<sigma>
      | Some True \<Rightarrow>
          (case body \<sigma> of
             GNext \<sigma>' \<Rightarrow> seq (post \<sigma>') (for_loop n c body post)
           | GCont \<sigma>' \<Rightarrow> seq (post \<sigma>') (for_loop n c body post)
           | GBreak \<sigma>' \<Rightarrow> GNext \<sigma>'
           | r \<Rightarrow> r))"

fun range_loop :: "(nat \<Rightarrow> gval \<Rightarrow> genv \<Rightarrow> gout) \<Rightarrow> nat \<Rightarrow> gval list \<Rightarrow> genv \<Rightarrow> gout" where
  "range_loop body i [] \<sigma> = GNext \<sigma>"
| "range_loop body i (v # vs) \<sigma> =
     (case body i v \<sigma> of
        GNext \<sigma>' \<Rightarrow> range_loop body (Suc i) vs \<sigma>'
      | GCont \<sigma>' \<Rightarrow> range_loop body (Suc i) vs \<sigma>'
      | GBreak \<sigma>' \<Rightarrow> GNext \<sigma>'
      | r \<Rightarrow> r)"

fun fall_into :: "(genv \<Rightarrow> gout) list list \<Rightarrow> genv \<Rightarrow> gout" where
  "fall_into [] \<sigma> = GStuck"
| "fall_into (b # bs) \<sigma> = (case in_block (run_block b) \<sigma> of GFall \<sigma>' \<Rightarrow> fall_into bs \<sigma>' | GBreak \<sigma>' \<Rightarrow> GNext \<sigma>' | r \<Rightarrow> r)"

fun clause_body :: "'s gclause \<Rightarrow> 's list" where
  "clause_body (GClause ls b) = b"

fun clause_labels :: "'s gclause \<Rightarrow> gexpr list" where
  "clause_labels (GClause ls b) = ls"

definition labelled :: "fops \<Rightarrow> genv \<Rightarrow> gval \<Rightarrow> 's gclause \<Rightarrow> bool" where
  "labelled F \<sigma> v c =
     list_ex (\<lambda>l. case go_eval F \<sigma> l of Some w \<Rightarrow> go_bin F T_EQL v w = Some (VBool True) | None \<Rightarrow> False) (clause_labels c)"

definition run_switch :: "fops \<Rightarrow> gval option \<Rightarrow> (genv \<Rightarrow> gout) gclause list \<Rightarrow> genv \<Rightarrow> gout" where
  "run_switch F tag cs \<sigma> =
     (case tag of
        None \<Rightarrow> GStuck
      | Some v \<Rightarrow>
          (case dropWhile (\<lambda>c. \<not> labelled F \<sigma> v c) cs of
             [] \<Rightarrow> GNext \<sigma>
           | cs' \<Rightarrow> fall_into (map clause_body cs') \<sigma>))"

definition go_return :: "fops \<Rightarrow> gexpr list \<Rightarrow> genv \<Rightarrow> gout" where
  "go_return F xs \<sigma> =
     (case xs of
        [GCall f args] \<Rightarrow>
          (case (callee \<sigma> f, those (map (go_eval F \<sigma>) args)) of (Some n, Some vs) \<Rightarrow> GTail n vs | _ \<Rightarrow> GStuck)
      | _ \<Rightarrow> (case those (map (go_eval F \<sigma>) xs) of Some vs \<Rightarrow> GRet vs | None \<Rightarrow> GStuck))"

definition go_range :: "fops \<Rightarrow> gexpr \<Rightarrow> gexpr \<Rightarrow> (genv \<Rightarrow> gout) \<Rightarrow> nat \<Rightarrow> gval \<Rightarrow> genv \<Rightarrow> gout" where
  "go_range F k v body i x \<sigma> =
     (case do {ns \<leftarrow> those (map ident_of [k, v]);
               fold_opt (declare_one F) (zip ns [VGoInt (int i), x]) ((\<lambda>_. None) # \<sigma>)} of
        None \<Rightarrow> GStuck
      | Some \<sigma>' \<Rightarrow> leave (in_block body \<sigma>'))"

primrec go_stmt :: "fops \<Rightarrow> gfuns \<Rightarrow> nat \<Rightarrow> gstmt \<Rightarrow> genv \<Rightarrow> gout" where
  "go_stmt F G n (GAssign lhs t rhs) = (\<lambda>\<sigma>. next_or_stuck (go_assign F G lhs t rhs \<sigma>))"
| "go_stmt F G n (GIf ini c th el) = in_block (\<lambda>\<sigma>.
     seq (case map_option (go_stmt F G n) ini of None \<Rightarrow> GNext \<sigma> | Some f \<Rightarrow> f \<sigma>) (\<lambda>\<sigma>'.
       case go_test F c \<sigma>' of
         None \<Rightarrow> GStuck
       | Some True \<Rightarrow> in_block (run_block (map (go_stmt F G n) th)) \<sigma>'
       | Some False \<Rightarrow> (case map_option (go_stmt F G n) el of None \<Rightarrow> GNext \<sigma>' | Some f \<Rightarrow> f \<sigma>')))"
| "go_stmt F G n (GBlock b) = in_block (run_block (map (go_stmt F G n) b))"
| "go_stmt F G n (GReturn xs) = go_return F xs"
| "go_stmt F G n (GBranch t) =
     (\<lambda>\<sigma>. if t = T_BREAK then GBreak \<sigma> else if t = T_CONTINUE then GCont \<sigma> else if t = T_FALLTHROUGH then GFall \<sigma> else GStuck)"
| "go_stmt F G n (GFor ini c post b) = in_block (\<lambda>\<sigma>.
     seq (case map_option (go_stmt F G n) ini of None \<Rightarrow> GNext \<sigma> | Some f \<Rightarrow> f \<sigma>)
       (for_loop n (case c of None \<Rightarrow> (\<lambda>_. Some True) | Some x \<Rightarrow> go_test F x)
          (in_block (run_block (map (go_stmt F G n) b)))
          (case map_option (go_stmt F G n) post of None \<Rightarrow> GNext | Some f \<Rightarrow> f)))"
| "go_stmt F G n (GRange k v x b) = (\<lambda>\<sigma>.
     case go_eval F \<sigma> x of
       Some (VList vs) \<Rightarrow> range_loop (go_range F k v (run_block (map (go_stmt F G n) b))) 0 vs \<sigma>
     | _ \<Rightarrow> GStuck)"
| "go_stmt F G n (GVar x t) = (\<lambda>\<sigma>. next_or_stuck (go_var x t \<sigma>))"
| "go_stmt F G n (GIncDec x t) = (\<lambda>\<sigma>. next_or_stuck (go_incdec F x t \<sigma>))"
| "go_stmt F G n (GSwitch x cs) = (\<lambda>\<sigma>. run_switch F (go_eval F \<sigma> x) (map (map_gclause (go_stmt F G n)) cs) \<sigma>)"

abbreviation go_block :: "fops \<Rightarrow> gfuns \<Rightarrow> nat \<Rightarrow> gstmt list \<Rightarrow> genv \<Rightarrow> gout" where
  "go_block F G n ss \<equiv> run_block (map (go_stmt F G n) ss)"

text \<open>A call of a declared function: the parameters are the function block's first declarations, the results are
  converted to the declared types, and a hand-off is left to the caller.\<close>

definition go_results :: "fops \<Rightarrow> gexpr list \<Rightarrow> gout \<Rightarrow> gout" where
  "go_results F ts r =
     (case r of
        GRet vs \<Rightarrow>
          (if length vs = length ts
           then (case those (map (\<lambda>(t, v). conv_type F t v) (zip ts vs)) of Some ws \<Rightarrow> GRet ws | None \<Rightarrow> GStuck)
           else GStuck)
      | GTail h vs \<Rightarrow> GTail h vs
      | GFuel \<Rightarrow> GFuel
      | _ \<Rightarrow> GStuck)"

definition go_fun :: "fops \<Rightarrow> gfuns \<Rightarrow> nat \<Rightarrow> genv \<Rightarrow> gfunc \<Rightarrow> gval list \<Rightarrow> gout" where
  "go_fun F G n globals d args =
     (case those (map (\<lambda>(p, v). conv_type F (snd p) v) (zip (gf_Params d) args)) of
        Some vs \<Rightarrow>
          if length args = length (gf_Params d)
          then go_results F (gf_Results d) (go_block F G n (gf_Stmts d) (map_of (zip (map fst (gf_Params d)) vs) # globals))
          else GStuck
      | None \<Rightarrow> GStuck)"

end
