(* ===== verification/Emit_Lower.thy ===== *)
theory Emit_Lower
  imports Go_Lang
begin

text \<open>
  \<^verbatim>\<open>pkg/emit\<close>: the lowering of the typed model to Go (\<^verbatim>\<open>expr.go\<close>, \<^verbatim>\<open>cmp.go\<close>, \<^verbatim>\<open>call.go\<close>, \<^verbatim>\<open>stmt.go\<close>, \<^verbatim>\<open>func.go\<close>).

  The builder is threaded as a state, with its pending guard statements in \<open>pre\<close>; a lowering error is \<^const>\<open>None\<close>. A function
  that reads and updates the builder takes it last and returns it beside its result.
\<close>

section \<open>The builder\<close>

record resume_frame =
  rf_handler :: string
  rf_args :: "gexpr list"

record builder =
  b_fn :: string
  b_params :: "string list"
  b_ret :: repr
  b_deopt :: string
  deoptUsed :: bool
  nTmp :: nat
  nFlag :: nat
  nErr :: nat
  nDeopt :: nat
  genDeopt :: bool
  pre :: "gstmt list"
  b_resume :: "resume_frame list"

definition deoptParam :: "nat \<Rightarrow> string" where
  "deoptParam i = ''d'' @ utoa i"

definition tmp_name :: "nat \<Rightarrow> string" where
  "tmp_name k = ''t'' @ utoa k"

definition flag_name :: "nat \<Rightarrow> string" where
  "flag_name k = ''ovf'' @ utoa k"

definition err_name :: "nat \<Rightarrow> string" where
  "err_name k = ''exc'' @ utoa k"

definition temp :: "builder \<Rightarrow> string \<times> builder" where
  "temp b = (tmp_name (nTmp b), b\<lparr>nTmp := nTmp b + 1\<rparr>)"

definition flag :: "builder \<Rightarrow> string \<times> builder" where
  "flag b = (flag_name (nFlag b), b\<lparr>nFlag := nFlag b + 1\<rparr>)"

definition errName :: "builder \<Rightarrow> string \<times> builder" where
  "errName b = (err_name (nErr b), b\<lparr>nErr := nErr b + 1\<rparr>)"

definition emit :: "gstmt list \<Rightarrow> builder \<Rightarrow> builder" where
  "emit ss b = b\<lparr>pre := pre b @ ss\<rparr>"

primrec goType :: "repr \<Rightarrow> gexpr" where
  "goType (Repr g sc tot el sh) = (case map_option goType el of Some t \<Rightarrow> GArrayType t | None \<Rightarrow> GIdent g)"

definition repr_zero :: "repr \<Rightarrow> gexpr" where
  "repr_zero r =
     (case repr_Scalar r of
        SFloat \<Rightarrow> GFloatLit 0
      | SInt \<Rightarrow> GIntLit 0
      | SBool \<Rightarrow> GIdent ''false''
      | SStr \<Rightarrow> GStrLit []
      | NotScalar \<Rightarrow> (case repr_Shape r of Some s \<Rightarrow> GComposite (GIdent (shape_Name s)) [] | None \<Rightarrow> GIdent ''nil''))"

definition deoptEdge :: "builder \<Rightarrow> gstmt \<times> builder" where
  "deoptEdge b =
     (if genDeopt b then
        (GReturn [repr_zero (b_ret b), GIdent ''false'', sel ''objects'' ''DeoptSignal''], b\<lparr>deoptUsed := True\<rparr>)
      else if b_resume b \<noteq> [] then
        (GReturn [GCall (GIdent (rf_handler (last (b_resume b)))) (rf_args (last (b_resume b)))], b\<lparr>deoptUsed := True\<rparr>)
      else if b_deopt b \<noteq> [] then
        (GReturn [GCall (GIdent (b_deopt b)) (map (\<lambda>i. GIdent (deoptParam i)) [0..<length (b_params b)])], b\<lparr>deoptUsed := True\<rparr>)
      else
        (GReturn [GCall (GIdent (b_fn b @ ''_deopt'' @ utoa (nDeopt b))) (map GIdent (b_params b))], b\<lparr>nDeopt := nDeopt b + 1\<rparr>))"

definition flush :: "builder \<Rightarrow> gstmt list \<times> builder" where
  "flush b = (pre b, b\<lparr>pre := []\<rparr>)"

section \<open>Expressions\<close>

definition helper :: "op \<Rightarrow> string" where
  "helper o' = (case o' of OpAdd \<Rightarrow> ''AddInt64'' | OpSub \<Rightarrow> ''SubInt64'' | OpMul \<Rightarrow> ''MulInt64'' | _ \<Rightarrow> [])"

definition op_tok :: "op \<Rightarrow> gtok" where
  "op_tok o' =
     (case o' of OpAdd \<Rightarrow> T_ADD | OpSub \<Rightarrow> T_SUB | OpMul \<Rightarrow> T_MUL | OpDiv \<Rightarrow> T_QUO | OpBitAnd \<Rightarrow> T_AND
      | OpBitOr \<Rightarrow> T_OR | OpBitXor \<Rightarrow> T_XOR | _ \<Rightarrow> T_ILLEGAL)"

fun cmp_tok :: "cmp_op \<Rightarrow> gtok" where
  "cmp_tok ECmpLt = T_LSS"
| "cmp_tok ECmpLe = T_LEQ"
| "cmp_tok ECmpGt = T_GTR"
| "cmp_tok ECmpGe = T_GEQ"
| "cmp_tok ECmpEq = T_EQL"
| "cmp_tok ECmpNe = T_NEQ"

definition toInt :: "gexpr \<Rightarrow> repr \<Rightarrow> gexpr" where
  "toInt x r = (if repr_Scalar r = SBool then GCall (sel runtimePkg ''BoolToInt'') [x] else x)"

definition toFloat :: "gexpr \<Rightarrow> repr \<Rightarrow> gexpr" where
  "toFloat x r =
     (case repr_Scalar r of
        SInt \<Rightarrow> GCall (GIdent ''float64'') [x]
      | SBool \<Rightarrow> GCall (GIdent ''float64'') [toInt x r]
      | _ \<Rightarrow> x)"

definition raise_stmt :: "gexpr \<Rightarrow> string \<Rightarrow> string \<Rightarrow> builder \<Rightarrow> gstmt" where
  "raise_stmt cond exc msg b =
     ifStmt cond [GReturn [repr_zero (b_ret b), GCall (sel runtimePkg exc) [GStrLit msg]]]"

definition guardZeroDiv :: "gexpr \<Rightarrow> builder \<Rightarrow> builder" where
  "guardZeroDiv divisor b =
     emit [raise_stmt (GBinary T_EQL divisor (GFloatLit 0)) ''ZeroDivisionError'' ''division by zero'' b] b"

definition guardZeroDivInt :: "gexpr \<Rightarrow> builder \<Rightarrow> builder" where
  "guardZeroDivInt divisor b =
     emit [raise_stmt (GBinary T_EQL divisor (GIntLit 0)) ''ZeroDivisionError'' ''division by zero'' b] b"

definition guardNegShift :: "gexpr \<Rightarrow> builder \<Rightarrow> builder" where
  "guardNegShift cnt b =
     emit [raise_stmt (GBinary T_LSS cnt (GIntLit 0)) ''ValueError'' ''negative shift count'' b] b"

text \<open>The value and flag of a checked helper, with the failure edge after them.\<close>

definition checked :: "string \<Rightarrow> gexpr \<Rightarrow> gexpr \<Rightarrow> builder \<Rightarrow> gexpr \<times> builder" where
  "checked h lx rx b =
     (let (val, b) = temp b;
          (ovf, b) = flag b;
          (edge, b) = deoptEdge b
      in (GIdent val,
          emit [GAssign [GIdent val, GIdent ovf] T_DEFINE [GCall (sel runtimePkg h) [lx, rx]],
                ifStmt (GIdent ovf) [edge]] b))"

definition lowerBin :: "op \<Rightarrow> gexpr \<Rightarrow> repr \<Rightarrow> gexpr \<Rightarrow> repr \<Rightarrow> builder \<Rightarrow> ((gexpr \<times> repr) \<times> builder) option" where
  "lowerBin o' lx lr rx rr b =
     (let float_side = (repr_Scalar lr = SFloat \<or> repr_Scalar rr = SFloat) in
      if repr_Scalar lr = SStr \<or> repr_Scalar rr = SStr then
        (if o' \<noteq> OpAdd \<or> repr_Scalar lr \<noteq> SStr \<or> repr_Scalar rr \<noteq> SStr then None
         else Some ((GBinary T_ADD lx rx, strRepr), b))
      else if \<not> numeric lr \<or> \<not> numeric rr then None
      else if o' = OpDiv then
        (let lx = toFloat lx lr; rx = toFloat rx rr
         in Some ((GBinary T_QUO lx rx, floatRepr), guardZeroDiv rx b))
      else if o' = OpFloorDiv then
        (if float_side then None
         else let lx = toInt lx lr; rx = toInt rx rr;
                  (val, b) = checked ''FloorDivInt64'' lx rx (guardZeroDivInt rx b)
              in Some ((val, intRepr), b))
      else if o' = OpMod then
        (if float_side then None
         else let lx = toInt lx lr; rx = toInt rx rr
              in Some ((GCall (sel runtimePkg ''FloorModInt64'') [lx, rx], intRepr), guardZeroDivInt rx b))
      else if o' = OpPow then
        (if float_side then None
         else let (val, b) = checked ''PowInt64'' (toInt lx lr) (toInt rx rr) b in Some ((val, intRepr), b))
      else if o' = OpBitAnd \<or> o' = OpBitOr \<or> o' = OpBitXor then
        (if float_side then None
         else Some ((GBinary (op_tok o') (toInt lx lr) (toInt rx rr), intRepr), b))
      else if o' = OpLShift then
        (if float_side then None
         else let lx = toInt lx lr; rx = toInt rx rr;
                  (val, b) = checked ''LShiftInt64'' lx rx (guardNegShift rx b)
              in Some ((val, intRepr), b))
      else if o' = OpRShift then
        (if float_side then None
         else let lx = toInt lx lr; rx = toInt rx rr
              in Some ((GCall (sel runtimePkg ''RShiftInt64'') [lx, rx], intRepr), guardNegShift rx b))
      else if float_side then
        Some ((GBinary (op_tok o') (toFloat lx lr) (toFloat rx rr), floatRepr), b)
      else let (val, b) = checked (helper o') (toInt lx lr) (toInt rx rr) b in Some ((val, intRepr), b))"

definition lowerCmp :: "cmp_op \<Rightarrow> gexpr \<Rightarrow> repr \<Rightarrow> gexpr \<Rightarrow> repr \<Rightarrow> (gexpr \<times> repr) option" where
  "lowerCmp o' lx lr rx rr =
     (if arith lr \<and> arith rr then
        (if repr_Scalar lr = SFloat \<or> repr_Scalar rr = SFloat
         then Some (GBinary (cmp_tok o') (toFloat lx lr) (toFloat rx rr), boolRepr)
         else Some (GBinary (cmp_tok o') lx rx, boolRepr))
      else if repr_Scalar lr = SStr \<and> repr_Scalar rr = SStr \<or>
              repr_Scalar lr = SBool \<and> repr_Scalar rr = SBool \<and> \<not> ordered o'
      then Some (GBinary (cmp_tok o') lx rx, boolRepr)
      else None)"

fun parenConn :: "gexpr \<Rightarrow> gexpr" where
  "parenConn (GBinary t x y) = (if t = T_LAND \<or> t = T_LOR then GParen (GBinary t x y) else GBinary t x y)"
| "parenConn x = x"

definition valueConnHelper :: "gtok \<Rightarrow> scalar \<Rightarrow> string option" where
  "valueConnHelper t s =
     (let kind = (if t = T_LOR then ''Or'' else ''And'')
      in case s of SInt \<Rightarrow> Some (kind @ ''Int64'') | SFloat \<Rightarrow> Some (kind @ ''Float64'') | SStr \<Rightarrow> Some (kind @ ''Str'') | _ \<Rightarrow> None)"

definition lowerBoolBin :: "gtok \<Rightarrow> gexpr \<Rightarrow> repr \<Rightarrow> gexpr \<Rightarrow> repr \<Rightarrow> eexpr \<Rightarrow> (gexpr \<times> repr) option" where
  "lowerBoolBin t lx lr rx rr r =
     (if HasRaisingGuard r then None
      else if repr_Scalar lr = SBool \<and> repr_Scalar rr = SBool then
        Some (GBinary t (parenConn lx) (parenConn rx), boolRepr)
      else if repr_Scalar lr = repr_Scalar rr then
        map_option (\<lambda>name. (GCall (sel runtimePkg name) [lx, rx], lr)) (valueConnHelper t (repr_Scalar lr))
      else None)"

fun paren_binary :: "gexpr \<Rightarrow> gexpr" where
  "paren_binary (GBinary t x y) = GParen (GBinary t x y)"
| "paren_binary x = x"

definition lowerNot :: "gexpr \<Rightarrow> repr \<Rightarrow> (gexpr \<times> repr) option" where
  "lowerNot x xr = (if repr_Scalar xr \<noteq> SBool then None else Some (GUnary T_NOT (paren_binary x), boolRepr))"

definition error_check :: "string \<Rightarrow> builder \<Rightarrow> gstmt" where
  "error_check exc b = ifStmt (GBinary T_NEQ (GIdent exc) (GIdent ''nil'')) [GReturn [repr_zero (b_ret b), GIdent exc]]"

definition lowerCall :: "string \<Rightarrow> gexpr list \<Rightarrow> repr \<Rightarrow> builder \<Rightarrow> (gexpr \<times> repr) \<times> builder" where
  "lowerCall name args r b =
     (let (val, b) = temp b;
          (exc, b) = errName b
      in ((GIdent val, r),
          emit [GAssign [GIdent val, GIdent exc] T_DEFINE [GCall (GIdent name) args], error_check exc b] b))"

definition lowerIndex :: "gexpr \<Rightarrow> repr \<Rightarrow> gexpr \<Rightarrow> repr \<Rightarrow> builder \<Rightarrow> ((gexpr \<times> repr) \<times> builder) option" where
  "lowerIndex bx br ix ir b =
     (case repr_Elem br of
        None \<Rightarrow> None
      | Some el \<Rightarrow>
          if repr_Scalar ir \<noteq> SInt then None
          else let (base, b) = temp b;
                   (idx, b) = temp b;
                   oob = GBinary T_LOR (GBinary T_LSS (GIdent idx) (GIntLit 0))
                           (GBinary T_GEQ (GIdent idx) (GCall (GIdent ''int64'') [GCall (GIdent ''len'') [GIdent base]]));
                   (edge, b) = deoptEdge b
               in Some ((GIndex (GIdent base) (GIdent idx), el),
                        emit [define_stmt base bx, define_stmt idx ix, ifStmt oob [edge]] b))"

definition lowerAttr :: "gexpr \<Rightarrow> repr \<Rightarrow> string \<Rightarrow> (gexpr \<times> repr) option" where
  "lowerAttr bx br n =
     do {s \<leftarrow> repr_Shape br; fr \<leftarrow> Shape_Field s n; Some (GSelector bx n, fr)}"

definition list_item :: "repr \<Rightarrow> gexpr \<times> repr \<Rightarrow> gexpr option" where
  "list_item el xr =
     (case xr of (ix, ir) \<Rightarrow>
        if repr_Scalar ir = repr_Scalar el then Some ix
        else if repr_Scalar el = SFloat \<and> numeric ir then Some (toFloat ix ir)
        else None)"

definition lowerListLit :: "repr \<Rightarrow> (gexpr \<times> repr) list \<Rightarrow> (gexpr \<times> repr) option" where
  "lowerListLit el items =
     do {elts \<leftarrow> those (map (list_item el) items); Some (GComposite (goType (listRepr el)) elts, listRepr el)}"

definition lowerGenNew :: "string \<Rightarrow> string list \<Rightarrow> (gexpr \<times> repr) list \<Rightarrow> gexpr \<times> repr" where
  "lowerGenNew t names vals =
     (GUnary T_AND (GComposite (GIdent t) (map (\<lambda>(n, v, _). GKeyValue (GIdent n) v) (zip names vals))),
      Repr (''*'' @ t) NotScalar False None None)"

definition genRecv :: string where
  "genRecv = ''g''"

lemma size_gen_args: "size_list (size \<circ> ga_Value) fs < Suc (size_list (size_gen_arg size) fs)"
proof (induction fs)
  case (Cons a fs)
  then show ?case by (cases a) simp
qed simp

function lowerExpr :: "eexpr \<Rightarrow> builder \<Rightarrow> ((gexpr \<times> repr) \<times> builder) option"
  and lowerArgs :: "eexpr list \<Rightarrow> builder \<Rightarrow> ((gexpr \<times> repr) list \<times> builder) option" where
  "lowerExpr (EVar n r) b = Some ((GIdent n, r), b)"
| "lowerExpr (ERecv n r) b = Some ((sel genRecv n, r), b)"
| "lowerExpr (EInt v) b = Some ((GIntLit v, intRepr), b)"
| "lowerExpr (EFloat v) b = Some ((GFloatLit v, floatRepr), b)"
| "lowerExpr (EBool v) b = Some ((GIdent (if v then ''true'' else ''false''), boolRepr), b)"
| "lowerExpr (EStr v) b = Some ((GStrLit v, strRepr), b)"
| "lowerExpr (EBin o' l r) b =
     do {((lx, lr), b) \<leftarrow> lowerExpr l b; ((rx, rr), b) \<leftarrow> lowerExpr r b; lowerBin o' lx lr rx rr b}"
| "lowerExpr (EIndex x i) b =
     do {((bx, br), b) \<leftarrow> lowerExpr x b; ((ix, ir), b) \<leftarrow> lowerExpr i b; lowerIndex bx br ix ir b}"
| "lowerExpr (EAttr x n) b =
     do {((bx, br), b) \<leftarrow> lowerExpr x b; xr \<leftarrow> lowerAttr bx br n; Some (xr, b)}"
| "lowerExpr (EListLit el xs) b =
     do {(items, b) \<leftarrow> lowerArgs xs b; xr \<leftarrow> lowerListLit el items; Some (xr, b)}"
| "lowerExpr (EGenNew t fs) b =
     do {(vals, b) \<leftarrow> lowerArgs (map ga_Value fs) b; Some (lowerGenNew t (map ga_Name fs) vals, b)}"
| "lowerExpr (ECmp o' l r) b =
     do {((lx, lr), b) \<leftarrow> lowerExpr l b; ((rx, rr), b) \<leftarrow> lowerExpr r b; xr \<leftarrow> lowerCmp o' lx lr rx rr; Some (xr, b)}"
| "lowerExpr (EAnd l r) b =
     do {((lx, lr), b) \<leftarrow> lowerExpr l b; ((rx, rr), b) \<leftarrow> lowerExpr r b;
         xr \<leftarrow> lowerBoolBin T_LAND lx lr rx rr r; Some (xr, b)}"
| "lowerExpr (EOr l r) b =
     do {((lx, lr), b) \<leftarrow> lowerExpr l b; ((rx, rr), b) \<leftarrow> lowerExpr r b;
         xr \<leftarrow> lowerBoolBin T_LOR lx lr rx rr r; Some (xr, b)}"
| "lowerExpr (ENot x) b = do {((x, xr), b) \<leftarrow> lowerExpr x b; xr \<leftarrow> lowerNot x xr; Some (xr, b)}"
| "lowerExpr (ECall n xs r) b = do {(args, b) \<leftarrow> lowerArgs xs b; Some (lowerCall n (map fst args) r b)}"
| "lowerArgs [] b = Some ([], b)"
| "lowerArgs (x # xs) b =
     do {(x, b) \<leftarrow> lowerExpr x b; (xs, b) \<leftarrow> lowerArgs xs b; Some (x # xs, b)}"
  by pat_completeness auto
termination
  by (relation "measure (case_sum (\<lambda>(e, b). size e) (\<lambda>(es, b). size_list size es))")
    (auto simp: size_gen_args)

section \<open>Statements\<close>

definition genDone :: string where
  "genDone = ''done''"

definition genErr :: string where
  "genErr = ''err''"

definition enumRawIndex :: string where
  "enumRawIndex = ''gi''"

fun is_int_lit :: "gexpr \<Rightarrow> bool" where
  "is_int_lit (GIntLit v) = True"
| "is_int_lit _ = False"

definition pin :: "gexpr \<Rightarrow> repr \<Rightarrow> gexpr" where
  "pin x xr = (if repr_Scalar xr = SInt \<and> is_int_lit x then GCall (GIdent ''int64'') [x] else x)"

definition truthyExpr :: "gexpr \<Rightarrow> repr \<Rightarrow> gexpr option" where
  "truthyExpr x r =
     (case repr_Scalar r of
        SBool \<Rightarrow> Some x
      | SInt \<Rightarrow> Some (GBinary T_NEQ x (GIntLit 0))
      | SFloat \<Rightarrow> Some (GBinary T_NEQ x (GFloatLit 0))
      | SStr \<Rightarrow> Some (GBinary T_NEQ x (GStrLit []))
      | NotScalar \<Rightarrow>
          (if repr_Elem r \<noteq> None then Some (GBinary T_NEQ (GCall (GIdent ''len'') [x]) (GIntLit 0)) else None))"

fun is_if :: "gstmt \<Rightarrow> bool" where
  "is_if (GIf i c t e) = True"
| "is_if _ = False"

definition else_stmt :: "gstmt list \<Rightarrow> gstmt" where
  "else_stmt els = (case els of [s] \<Rightarrow> if is_if s then s else GBlock els | _ \<Rightarrow> GBlock els)"

definition flushed :: "gstmt list \<Rightarrow> builder \<Rightarrow> gstmt list \<times> builder" where
  "flushed ss b = (case flush b of (ps, b) \<Rightarrow> (ps @ ss, b))"

definition next_stmts :: "string \<Rightarrow> gexpr \<Rightarrow> bool \<Rightarrow> builder \<Rightarrow> gstmt list \<times> builder" where
  "next_stmts bnd gen deopt b =
     (let (edge, b') = deoptEdge b;
          err_ret = GReturn [repr_zero (b_ret b), GIdent genErr];
          not_nil = GBinary T_NEQ (GIdent genErr) (GIdent ''nil'');
          nxt = GAssign [GIdent bnd, GIdent genDone, GIdent genErr] T_DEFINE [GCall (GSelector gen ''Next'') []];
          done = ifStmt (GIdent genDone) [GBranch T_BREAK]
      in if deopt
         then ([nxt,
                ifStmt not_nil
                  [GIf (Some (GAssign [GIdent ''_'', GIdent ''ok''] T_DEFINE [GTypeAssert (GIdent genErr) (GStar (sel ''objects'' ''Deopt''))]))
                     (GIdent ''ok'') [edge] None,
                   err_ret],
                done], b')
         else ([nxt, ifStmt not_nil [err_ret], done], b))"

definition resume_args :: "string \<Rightarrow> resume_info \<Rightarrow> builder \<Rightarrow> gexpr list" where
  "resume_args v ri b =
     GIdent v # map GIdent (resume_Carried ri) @ map (\<lambda>i. GIdent (deoptParam i)) [0..<length (b_params b)]"

definition push_resume :: "string \<Rightarrow> resume_info option \<Rightarrow> builder \<Rightarrow> builder" where
  "push_resume v res b =
     (case res of
        None \<Rightarrow> b
      | Some ri \<Rightarrow> b\<lparr>b_resume := b_resume b @ [\<lparr>rf_handler = resume_Handler ri, rf_args = resume_args v ri b\<rparr>]\<rparr>)"

definition pop_resume :: "resume_info option \<Rightarrow> builder \<Rightarrow> builder" where
  "pop_resume res b = (case res of None \<Rightarrow> b | Some ri \<Rightarrow> b\<lparr>b_resume := butlast (b_resume b)\<rparr>)"

definition count_loop :: "string \<Rightarrow> gexpr \<Rightarrow> gexpr \<Rightarrow> bool \<Rightarrow> gstmt list \<Rightarrow> gstmt" where
  "count_loop v start stop down body =
     GFor (Some (define_stmt v start)) (Some (GBinary (if down then T_GTR else T_LSS) (GIdent v) stop))
       (Some (GIncDec (GIdent v) (if down then T_DEC else T_INC))) body"

function lowerStmt :: "estmt \<Rightarrow> builder \<Rightarrow> (gstmt list \<times> builder) option"
  and lowerBlock :: "estmt list \<Rightarrow> builder \<Rightarrow> (gstmt list \<times> builder) option" where
  "lowerStmt (EDefine n v) b =
     do {((x, xr), b) \<leftarrow> lowerExpr v b; Some (flushed [define_stmt n (pin x xr)] b)}"
| "lowerStmt (EAssign n v) b =
     do {((x, xr), b) \<leftarrow> lowerExpr v b; Some (flushed [setStmt (GIdent n) x] b)}"
| "lowerStmt (EVarDecl n r) b = Some (flushed [GVar n (goType r)] b)"
| "lowerStmt (EBind ns vs d) b =
     (if length ns \<noteq> length vs then None
      else do {(xs, b) \<leftarrow> lowerArgs vs b;
               Some (flushed [GAssign (map GIdent ns) (if d then T_DEFINE else T_ASSIGN)
                                (map (\<lambda>(x, xr). if d then pin x xr else x) xs)] b)})"
| "lowerStmt (EAugAssign n o' r v) b =
     (if repr_Scalar r = SFloat
      then do {((x, xr), b) \<leftarrow> lowerExpr v b;
               Some (flushed [augAssign n o' (if repr_Scalar xr \<noteq> SFloat then toFloat x xr else x)] b)}
      else do {((x, xr), b) \<leftarrow> lowerExpr (EBin o' (EVar n r) v) b; Some (flushed [setStmt (GIdent n) x] b)})"
| "lowerStmt (EDiscard v) b =
     (case v of
        ECall c xs r \<Rightarrow>
          do {(args, b) \<leftarrow> lowerArgs xs b;
              let (exc, b) = errName b;
              Some (flushed [GAssign [GIdent ''_'', GIdent exc] T_DEFINE [GCall (GIdent c) (map fst args)], error_check exc b] b)}
      | _ \<Rightarrow> do {((x, xr), b) \<leftarrow> lowerExpr v b; Some (flushed [setStmt (GIdent ''_'') x] b)})"
| "lowerStmt (EReturn v) b =
     do {((x, xr), b) \<leftarrow> lowerExpr v b; Some (flushed [GReturn [x, GIdent ''nil'']] b)}"
| "lowerStmt (EForRange bnd idx over body) b =
     do {((x, xr), b) \<leftarrow> lowerExpr over b;
         if repr_Elem xr = None then None
         else do {(ss, b) \<leftarrow> lowerBlock body b;
                  Some (flushed [if idx \<noteq> [] then
                                   GRange (GIdent enumRawIndex) (GIdent bnd) x
                                     (define_stmt idx (GCall (GIdent ''int64'') [GIdent enumRawIndex]) # ss)
                                 else GRange (GIdent ''_'') (GIdent bnd) x ss] b)}}"
| "lowerStmt (EForGen bnd el gen body deopt) b =
     do {((g, _), b) \<leftarrow> lowerExpr gen b;
         let (ps, b) = flush b;
         (ss, b) \<leftarrow> lowerBlock body b;
         let (hs, b) = next_stmts bnd g deopt b;
         Some (ps @ [GFor None None None (hs @ ss)], b)}"
| "lowerStmt (EForCount v start stop down body res) b =
     do {((sx, sr), b) \<leftarrow> lowerExpr start b;
         ((ex, _), b) \<leftarrow> lowerExpr stop b;
         let (ps, b) = flush b;
         (ss, b) \<leftarrow> lowerBlock body (push_resume v res b);
         Some (ps @ [count_loop v (pin sx sr) ex down ss], pop_resume res b)}"
| "lowerStmt (EWhile c body) b =
     do {((x, xr), b) \<leftarrow> lowerExpr c b;
         test \<leftarrow> truthyExpr x xr;
         let (ps, b) = flush b;
         (ss, b) \<leftarrow> lowerBlock body b;
         Some (ps @ [GFor None (Some test) None ss], b)}"
| "lowerStmt EBreak b = Some (flushed [GBranch T_BREAK] b)"
| "lowerStmt EContinue b = Some (flushed [GBranch T_CONTINUE] b)"
| "lowerStmt (EIf c th el) b =
     do {((x, xr), b) \<leftarrow> lowerExpr c b;
         test \<leftarrow> truthyExpr x xr;
         let (ps, b) = flush b;
         (ts, b) \<leftarrow> lowerBlock th b;
         if el = [] then Some (ps @ [GIf None test ts None], b)
         else do {(es, b) \<leftarrow> lowerBlock el b; Some (ps @ [GIf None test ts (Some (else_stmt es))], b)}}"
| "lowerBlock [] b = Some ([], b)"
| "lowerBlock (s # ss) b =
     do {(xs, b) \<leftarrow> lowerStmt s b; (ys, b) \<leftarrow> lowerBlock ss b; Some (xs @ ys, b)}"
  by pat_completeness auto
termination
  by (relation "measure (case_sum (\<lambda>(s, b). size s) (\<lambda>(ss, b). size_list size ss))") auto

section \<open>Functions\<close>

definition new_builder :: "efunc \<Rightarrow> builder" where
  "new_builder f =
     \<lparr>b_fn = ef_Name f, b_params = map ep_Name (ef_Params f), b_ret = ef_Ret f, b_deopt = DeoptHandler f,
      deoptUsed = False, nTmp = 0, nFlag = 0, nErr = 0, nDeopt = 0, genDeopt = False, pre = [], b_resume = []\<rparr>"

fun binding_guards :: "binding_guard list \<Rightarrow> builder \<Rightarrow> gstmt list \<times> builder" where
  "binding_guards [] b = ([], b)"
| "binding_guards (g # gs) b =
     (let (edge, b) = deoptEdge b;
          (ss, b) = binding_guards gs b
      in (ifStmt (GBinary T_NEQ (GIdent (VerVar g)) (GIntLit (bg_Version g))) [edge] # ss, b))"

definition snapshot :: "efunc \<Rightarrow> gstmt" where
  "snapshot f =
     GAssign (map (\<lambda>i. GIdent (deoptParam i)) [0..<length (ef_Params f)]) T_DEFINE (map (GIdent \<circ> ep_Name) (ef_Params f))"

definition EmitFunc :: "efunc \<Rightarrow> gfunc option" where
  "EmitFunc f =
     do {(body, b) \<leftarrow> lowerBlock (ef_Body f) (new_builder f);
         let (guards, b) = binding_guards (BindingGuards f) b;
         let body = guards @ body;
         let body = (if deoptUsed b \<and> ef_Params f \<noteq> [] then snapshot f # body else body);
         Some \<lparr>gf_Func = ef_Name f, gf_Params = map (\<lambda>p. (ep_Name p, goType (ep_Repr p))) (ef_Params f),
               gf_Results = [goType (ef_Ret f), GIdent ''error''], gf_Stmts = body\<rparr>}"

end
