(* ===== verification/Py_Sem.thy ===== *)
theory Py_Sem
  imports Emit_Lower
begin

text \<open>
  What the typed model of \<^verbatim>\<open>pkg/emit\<close> means in Python: unbounded ints, exceptions, operands evaluated left to right, \<open>and\<close> and
  \<open>or\<close> returning an operand, negative list indices, and a function body run over one flat scope. This is the
  specification the emitted Go is compared with. \<open>PUndef\<close> is an operation outside the fragment.
\<close>

section \<open>Values\<close>

datatype pval = PInt int | PFloat int64 | PBool bool | PStr string | PList "pval list" | PObj "(string \<times> pval) list"

datatype 'a pres = POk 'a | PRaise string string | PUndef

fun pbind :: "'a pres \<Rightarrow> ('a \<Rightarrow> 'b pres) \<Rightarrow> 'b pres" where
  "pbind (POk v) k = k v"
| "pbind (PRaise c m) k = PRaise c m"
| "pbind PUndef k = PUndef"

fun truth :: "fops \<Rightarrow> pval \<Rightarrow> bool" where
  "truth F (PInt i) = (i \<noteq> 0)"
| "truth F (PFloat w) = (\<not> f_eq F w 0)"
| "truth F (PBool b) = b"
| "truth F (PStr s) = (s \<noteq> [])"
| "truth F (PList vs) = (vs \<noteq> [])"
| "truth F (PObj fs) = True"

section \<open>Operators\<close>

definition zero_div :: "'a pres" where
  "zero_div = PRaise ''ZeroDivisionError'' ''division by zero''"

definition neg_shift :: "'a pres" where
  "neg_shift = PRaise ''ValueError'' ''negative shift count''"

fun int_op :: "fops \<Rightarrow> op \<Rightarrow> int \<Rightarrow> int \<Rightarrow> pval pres" where
  "int_op F OpAdd i j = POk (PInt (i + j))"
| "int_op F OpSub i j = POk (PInt (i - j))"
| "int_op F OpMul i j = POk (PInt (i * j))"
| "int_op F OpDiv i j = (if j = 0 then zero_div else POk (PFloat (f_truediv F i j)))"
| "int_op F OpFloorDiv i j = (if j = 0 then zero_div else POk (PInt (i div j)))"
| "int_op F OpMod i j = (if j = 0 then zero_div else POk (PInt (i mod j)))"
| "int_op F OpPow i j =
     (if 0 \<le> j then POk (PInt (i ^ nat j))
      else if i = 0 then PRaise ''ZeroDivisionError'' ''zero to a negative power'' else POk (PFloat (f_intpow F i j)))"
| "int_op F OpBitAnd i j = POk (PInt (i AND j))"
| "int_op F OpBitOr i j = POk (PInt (i OR j))"
| "int_op F OpBitXor i j = POk (PInt (i XOR j))"
| "int_op F OpLShift i j = (if j < 0 then neg_shift else POk (PInt (i * 2 ^ nat j)))"
| "int_op F OpRShift i j = (if j < 0 then neg_shift else POk (PInt (i div 2 ^ nat j)))"

fun float_op :: "fops \<Rightarrow> op \<Rightarrow> int64 \<Rightarrow> int64 \<Rightarrow> pval pres" where
  "float_op F OpAdd a b = POk (PFloat (f_add F a b))"
| "float_op F OpSub a b = POk (PFloat (f_sub F a b))"
| "float_op F OpMul a b = POk (PFloat (f_mul F a b))"
| "float_op F OpDiv a b = (if f_eq F b 0 then zero_div else POk (PFloat (f_div F a b)))"
| "float_op F _ a b = PUndef"

fun bool_op :: "op \<Rightarrow> bool \<Rightarrow> bool \<Rightarrow> pval option" where
  "bool_op OpBitAnd a b = Some (PBool (a \<and> b))"
| "bool_op OpBitOr a b = Some (PBool (a \<or> b))"
| "bool_op OpBitXor a b = Some (PBool (a \<noteq> b))"
| "bool_op _ a b = None"

fun as_int :: "pval \<Rightarrow> int option" where
  "as_int (PInt i) = Some i"
| "as_int (PBool b) = Some (of_bool b)"
| "as_int _ = None"

fun as_float :: "fops \<Rightarrow> pval \<Rightarrow> int64 option" where
  "as_float F (PFloat w) = Some w"
| "as_float F (PInt i) = Some (f_of_int F i)"
| "as_float F (PBool b) = Some (f_of_int F (of_bool b))"
| "as_float F _ = None"

definition py_num :: "fops \<Rightarrow> op \<Rightarrow> pval \<Rightarrow> pval \<Rightarrow> pval pres" where
  "py_num F o' v w =
     (case (as_int v, as_int w) of
        (Some i, Some j) \<Rightarrow> int_op F o' i j
      | _ \<Rightarrow> (case (as_float F v, as_float F w) of (Some a, Some b) \<Rightarrow> float_op F o' a b | _ \<Rightarrow> PUndef))"

definition py_bin :: "fops \<Rightarrow> op \<Rightarrow> pval \<Rightarrow> pval \<Rightarrow> pval pres" where
  "py_bin F o' v w =
     (case (v, w) of
        (PStr a, PStr b) \<Rightarrow> if o' = OpAdd then POk (PStr (a @ b)) else PUndef
      | (PBool a, PBool b) \<Rightarrow> (case bool_op o' a b of Some r \<Rightarrow> POk r | None \<Rightarrow> py_num F o' v w)
      | _ \<Rightarrow> py_num F o' v w)"

fun ord_res :: "cmp_op \<Rightarrow> bool \<Rightarrow> bool \<Rightarrow> bool" where
  "ord_res ECmpLt lt eq = lt"
| "ord_res ECmpLe lt eq = (lt \<or> eq)"
| "ord_res ECmpGt lt eq = (\<not> lt \<and> \<not> eq)"
| "ord_res ECmpGe lt eq = (\<not> lt)"
| "ord_res ECmpEq lt eq = eq"
| "ord_res ECmpNe lt eq = (\<not> eq)"

fun float_ord :: "fops \<Rightarrow> cmp_op \<Rightarrow> int64 \<Rightarrow> int64 \<Rightarrow> bool" where
  "float_ord F ECmpLt a b = f_lt F a b"
| "float_ord F ECmpLe a b = f_le F a b"
| "float_ord F ECmpGt a b = f_lt F b a"
| "float_ord F ECmpGe a b = f_le F b a"
| "float_ord F ECmpEq a b = f_eq F a b"
| "float_ord F ECmpNe a b = (\<not> f_eq F a b)"

fun flip :: "cmp_op \<Rightarrow> cmp_op" where
  "flip ECmpLt = ECmpGt"
| "flip ECmpLe = ECmpGe"
| "flip ECmpGt = ECmpLt"
| "flip ECmpGe = ECmpLe"
| "flip ECmpEq = ECmpEq"
| "flip ECmpNe = ECmpNe"

fun py_cmp :: "fops \<Rightarrow> cmp_op \<Rightarrow> pval \<Rightarrow> pval \<Rightarrow> pval pres" where
  "py_cmp F o' (PFloat a) (PFloat b) = POk (PBool (float_ord F o' a b))"
| "py_cmp F o' (PStr a) (PStr b) = POk (PBool (ord_res o' (a < b) (a = b)))"
| "py_cmp F o' v w =
     (case (as_int v, as_int w) of
        (Some i, Some j) \<Rightarrow> POk (PBool (ord_res o' (i < j) (i = j)))
      | (Some i, None) \<Rightarrow> (case w of PFloat b \<Rightarrow> POk (PBool (f_cmp F o' i b)) | _ \<Rightarrow> PUndef)
      | (None, Some j) \<Rightarrow> (case v of PFloat a \<Rightarrow> POk (PBool (f_cmp F (flip o') j a)) | _ \<Rightarrow> PUndef)
      | _ \<Rightarrow> PUndef)"

definition py_index :: "pval \<Rightarrow> pval \<Rightarrow> pval pres" where
  "py_index v w =
     (case (v, as_int w) of
        (PList vs, Some i) \<Rightarrow>
          (let k = (if i < 0 then i + int (length vs) else i)
           in if 0 \<le> k \<and> k < int (length vs) then POk (vs ! nat k) else PRaise ''IndexError'' ''list index out of range'')
      | _ \<Rightarrow> PUndef)"

definition py_attr :: "pval \<Rightarrow> string \<Rightarrow> pval pres" where
  "py_attr v n = (case v of PObj fs \<Rightarrow> (case map_of fs n of Some w \<Rightarrow> POk w | None \<Rightarrow> PUndef) | _ \<Rightarrow> PUndef)"

section \<open>Expressions\<close>

type_synonym penv = "string \<Rightarrow> pval option"
type_synonym pcalls = "string \<Rightarrow> pval list \<Rightarrow> pval pres"

fun peval :: "fops \<Rightarrow> pcalls \<Rightarrow> penv \<Rightarrow> eexpr \<Rightarrow> pval pres"
  and peval_list :: "fops \<Rightarrow> pcalls \<Rightarrow> penv \<Rightarrow> eexpr list \<Rightarrow> pval list pres" where
  "peval F pc \<rho> (EVar n r) = (case \<rho> n of Some v \<Rightarrow> POk v | None \<Rightarrow> PUndef)"
| "peval F pc \<rho> (EInt v) = POk (PInt (sint v))"
| "peval F pc \<rho> (EFloat v) = POk (PFloat v)"
| "peval F pc \<rho> (EBool v) = POk (PBool v)"
| "peval F pc \<rho> (EStr v) = POk (PStr v)"
| "peval F pc \<rho> (EBin o' l r) = pbind (peval F pc \<rho> l) (\<lambda>v. pbind (peval F pc \<rho> r) (py_bin F o' v))"
| "peval F pc \<rho> (EIndex x i) = pbind (peval F pc \<rho> x) (\<lambda>v. pbind (peval F pc \<rho> i) (py_index v))"
| "peval F pc \<rho> (EListLit el xs) = pbind (peval_list F pc \<rho> xs) (\<lambda>vs. POk (PList vs))"
| "peval F pc \<rho> (EAttr x n) = pbind (peval F pc \<rho> x) (\<lambda>v. py_attr v n)"
| "peval F pc \<rho> (EGenNew t fs) = PUndef"
| "peval F pc \<rho> (ECmp o' l r) = pbind (peval F pc \<rho> l) (\<lambda>v. pbind (peval F pc \<rho> r) (py_cmp F o' v))"
| "peval F pc \<rho> (EAnd l r) = pbind (peval F pc \<rho> l) (\<lambda>v. if truth F v then peval F pc \<rho> r else POk v)"
| "peval F pc \<rho> (EOr l r) = pbind (peval F pc \<rho> l) (\<lambda>v. if truth F v then POk v else peval F pc \<rho> r)"
| "peval F pc \<rho> (ENot x) = pbind (peval F pc \<rho> x) (\<lambda>v. POk (PBool (\<not> truth F v)))"
| "peval F pc \<rho> (ECall n xs r) = pbind (peval_list F pc \<rho> xs) (pc n)"
| "peval F pc \<rho> (ERecv n r) = PUndef"
| "peval_list F pc \<rho> [] = POk []"
| "peval_list F pc \<rho> (x # xs) = pbind (peval F pc \<rho> x) (\<lambda>v. pbind (peval_list F pc \<rho> xs) (\<lambda>vs. POk (v # vs)))"

section \<open>Statements\<close>

datatype pout = PNext penv | PBreak penv | PCont penv | PRet pval | PExc string string | PStuck | PFuel

definition with_val :: "pval pres \<Rightarrow> (pval \<Rightarrow> pout) \<Rightarrow> pout" where
  "with_val r k = (case r of POk v \<Rightarrow> k v | PRaise c m \<Rightarrow> PExc c m | PUndef \<Rightarrow> PStuck)"

definition with_vals :: "pval list pres \<Rightarrow> (pval list \<Rightarrow> pout) \<Rightarrow> pout" where
  "with_vals r k = (case r of POk v \<Rightarrow> k v | PRaise c m \<Rightarrow> PExc c m | PUndef \<Rightarrow> PStuck)"

fun pseq :: "pout \<Rightarrow> (penv \<Rightarrow> pout) \<Rightarrow> pout" where
  "pseq (PNext \<rho>) k = k \<rho>"
| "pseq r k = r"

fun prun :: "(penv \<Rightarrow> pout) list \<Rightarrow> penv \<Rightarrow> pout" where
  "prun [] \<rho> = PNext \<rho>"
| "prun (f # fs) \<rho> = pseq (f \<rho>) (prun fs)"

fun while_loop :: "nat \<Rightarrow> (penv \<Rightarrow> pval pres) \<Rightarrow> fops \<Rightarrow> (penv \<Rightarrow> pout) \<Rightarrow> penv \<Rightarrow> pout" where
  "while_loop 0 c F body \<rho> = PFuel"
| "while_loop (Suc n) c F body \<rho> =
     with_val (c \<rho>) (\<lambda>v.
       if \<not> truth F v then PNext \<rho>
       else (case body \<rho> of
               PNext \<rho>' \<Rightarrow> while_loop n c F body \<rho>'
             | PCont \<rho>' \<Rightarrow> while_loop n c F body \<rho>'
             | PBreak \<rho>' \<Rightarrow> PNext \<rho>'
             | r \<Rightarrow> r))"

text \<open>\<open>for v in range(i, e)\<close> and its descending form: the bounds are fixed on entry and the loop variable is bound at the
  start of each round.\<close>

fun count_rounds :: "nat \<Rightarrow> string \<Rightarrow> int \<Rightarrow> int \<Rightarrow> bool \<Rightarrow> (penv \<Rightarrow> pout) \<Rightarrow> penv \<Rightarrow> pout" where
  "count_rounds 0 v i e down body \<rho> = PFuel"
| "count_rounds (Suc n) v i e down body \<rho> =
     (if \<not> (if down then e < i else i < e) then PNext \<rho>
      else (case body (\<rho>(v \<mapsto> PInt i)) of
              PNext \<rho>' \<Rightarrow> count_rounds n v (if down then i - 1 else i + 1) e down body \<rho>'
            | PCont \<rho>' \<Rightarrow> count_rounds n v (if down then i - 1 else i + 1) e down body \<rho>'
            | PBreak \<rho>' \<Rightarrow> PNext \<rho>'
            | r \<Rightarrow> r))"

primrec pexec :: "fops \<Rightarrow> pcalls \<Rightarrow> nat \<Rightarrow> estmt \<Rightarrow> penv \<Rightarrow> pout" where
  "pexec F pc n (EDefine x e) = (\<lambda>\<rho>. with_val (peval F pc \<rho> e) (\<lambda>v. PNext (\<rho>(x \<mapsto> v))))"
| "pexec F pc n (EAssign x e) = (\<lambda>\<rho>. with_val (peval F pc \<rho> e) (\<lambda>v. PNext (\<rho>(x \<mapsto> v))))"
| "pexec F pc n (EAugAssign x o' r e) = (\<lambda>\<rho>. with_val (peval F pc \<rho> (EBin o' (EVar x r) e)) (\<lambda>v. PNext (\<rho>(x \<mapsto> v))))"
| "pexec F pc n (EVarDecl x r) = PNext"
| "pexec F pc n (EBind xs es d) =
     (\<lambda>\<rho>. with_vals (peval_list F pc \<rho> es) (\<lambda>vs. if length xs = length vs then PNext (\<rho> ++ map_of (rev (zip xs vs))) else PStuck))"
| "pexec F pc n (EReturn e) = (\<lambda>\<rho>. with_val (peval F pc \<rho> e) PRet)"
| "pexec F pc n (EDiscard e) = (\<lambda>\<rho>. with_val (peval F pc \<rho> e) (\<lambda>v. PNext \<rho>))"
| "pexec F pc n (EIf c th el) =
     (\<lambda>\<rho>. with_val (peval F pc \<rho> c) (\<lambda>v.
        if truth F v then prun (map (pexec F pc n) th) \<rho> else prun (map (pexec F pc n) el) \<rho>))"
| "pexec F pc n (EWhile c body) = while_loop n (\<lambda>\<rho>. peval F pc \<rho> c) F (prun (map (pexec F pc n) body))"
| "pexec F pc n (EForCount v i e down body res) =
     (\<lambda>\<rho>. with_val (peval F pc \<rho> i) (\<lambda>a. with_val (peval F pc \<rho> e) (\<lambda>z.
        case (a, z) of
          (PInt a, PInt z) \<Rightarrow> count_rounds n v a z down (prun (map (pexec F pc n) body)) \<rho>
        | _ \<Rightarrow> PStuck)))"
| "pexec F pc n EBreak = PBreak"
| "pexec F pc n EContinue = PCont"
| "pexec F pc n (EForRange bnd idx over body) = (\<lambda>\<rho>. PStuck)"
| "pexec F pc n (EForGen bnd el gen body deopt) = (\<lambda>\<rho>. PStuck)"

abbreviation pblock :: "fops \<Rightarrow> pcalls \<Rightarrow> nat \<Rightarrow> estmt list \<Rightarrow> penv \<Rightarrow> pout" where
  "pblock F pc n ss \<equiv> prun (map (pexec F pc n) ss)"

text \<open>A call of the function: falling off the end is outside the model, which has no \<open>None\<close>.\<close>

definition py_fun :: "fops \<Rightarrow> pcalls \<Rightarrow> nat \<Rightarrow> penv \<Rightarrow> efunc \<Rightarrow> pval list \<Rightarrow> pout" where
  "py_fun F pc n globals f args = pblock F pc n (ef_Body f) (globals ++ map_of (zip (map ep_Name (ef_Params f)) args))"

section \<open>The Go value of a Python value\<close>

primrec emb :: "pval \<Rightarrow> gval" where
  "emb (PInt i) = VInt (word_of_int i)"
| "emb (PFloat w) = VFloat w"
| "emb (PBool b) = VBool b"
| "emb (PStr s) = VStr s"
| "emb (PList vs) = VList (map emb vs)"
| "emb (PObj fs) = VStruct (map (map_prod id emb) fs)"

fun scalar_has :: "scalar \<Rightarrow> pval \<Rightarrow> bool" where
  "scalar_has SInt (PInt i) = in64 i"
| "scalar_has SFloat (PFloat w) = True"
| "scalar_has SBool (PBool b) = True"
| "scalar_has SStr (PStr s) = True"
| "scalar_has _ _ = False"

text \<open>A Python value that fits a representation: ints within 64 bits, uniform lists, objects with the shape's fields.\<close>

definition has :: "repr \<Rightarrow> pval \<Rightarrow> bool" where
  "has r v =
     (case repr_Elem r of
        Some e \<Rightarrow> (case v of PList vs \<Rightarrow> in64 (int (length vs)) \<and> list_all (scalar_has (repr_Scalar e)) vs | _ \<Rightarrow> False)
      | None \<Rightarrow>
          (case repr_Shape r of
             Some s \<Rightarrow>
               (case v of
                  PObj fs \<Rightarrow>
                    list_all (\<lambda>f. case map_of fs (sf_Name f) of Some w \<Rightarrow> scalar_has (repr_Scalar (sf_Repr f)) w | None \<Rightarrow> False)
                      (shape_Fields s)
                | _ \<Rightarrow> False)
           | None \<Rightarrow> scalar_has (repr_Scalar r) v))"

end
