(* ===== verification/Emit_Correct.thy ===== *)
theory Emit_Correct
  imports Py_Sem
begin

text \<open>
  The emitted Go computes what Python computes, or hands off to the boxed twin: expressions.

  \<open>typ_of\<close> types the expressions the statement is about. It admits what \<^const>\<open>lowerExpr\<close> lowers, less the forms on which the
  emitted code differs from Python: \<open>&\<close>, \<open>|\<close>, \<open>^\<close> on two bools, true division of two ints, a comparison of an int with a
  float, arithmetic on two float literals, an \<open>and\<close>/\<open>or\<close> whose right operand raises or calls, and a literal list index.
\<close>

section \<open>Names\<close>

definition numbered :: "string \<Rightarrow> string \<Rightarrow> bool" where
  "numbered p n \<longleftrightarrow> take (length p) n = p \<and> drop (length p) n \<noteq> [] \<and> list_all is_digit_char (drop (length p) n)"

text \<open>The names the builder makes up, and the Go names the emitted code relies on.\<close>

definition gen_like :: "string \<Rightarrow> bool" where
  "gen_like n \<longleftrightarrow> numbered ''t'' n \<or> numbered ''ovf'' n \<or> numbered ''exc'' n \<or> numbered ''d'' n"

definition reserved :: "string list" where
  "reserved = [''rt'', ''float64'', ''int64'', ''len'', ''true'', ''false'', ''nil'']"

definition user_name :: "string \<Rightarrow> bool" where
  "user_name n \<longleftrightarrow> \<not> gen_like n \<and> n \<noteq> ''_'' \<and> n \<notin> set reserved"

definition later :: "builder \<Rightarrow> string \<Rightarrow> bool" where
  "later b n \<longleftrightarrow>
     (\<exists>k\<ge>nTmp b. n = tmp_name k) \<or> (\<exists>k\<ge>nFlag b. n = flag_name k) \<or> (\<exists>k\<ge>nErr b. n = err_name k)"

lemma list_all_digits: "list_all is_digit_char (utoa k)"
  by (simp add: list_all_iff utoa_digits)

lemma gen_like_names [simp]:
  "gen_like (tmp_name k)" "gen_like (flag_name k)" "gen_like (err_name k)" "gen_like (deoptParam k)"
  by (simp_all add: gen_like_def numbered_def tmp_name_def flag_name_def err_name_def deoptParam_def list_all_digits)

lemma name_eqs [simp]:
  "tmp_name j = tmp_name k \<longleftrightarrow> j = k" "flag_name j = flag_name k \<longleftrightarrow> j = k" "err_name j = err_name k \<longleftrightarrow> j = k"
  "deoptParam j = deoptParam k \<longleftrightarrow> j = k"
  "tmp_name j \<noteq> flag_name k" "flag_name j \<noteq> tmp_name k" "tmp_name j \<noteq> err_name k" "err_name j \<noteq> tmp_name k"
  "flag_name j \<noteq> err_name k" "err_name j \<noteq> flag_name k"
  "deoptParam i \<noteq> tmp_name k" "deoptParam i \<noteq> flag_name k" "deoptParam i \<noteq> err_name k"
  by (auto simp: tmp_name_def flag_name_def err_name_def deoptParam_def dest: utoa_inj)

lemma names_not_blank [simp]: "tmp_name k \<noteq> ''_''" "flag_name k \<noteq> ''_''" "err_name k \<noteq> ''_''" "deoptParam k \<noteq> ''_''"
  by (simp_all add: tmp_name_def flag_name_def err_name_def deoptParam_def)

lemma later_gen_like: "later b n \<Longrightarrow> gen_like n"
  by (auto simp: later_def)

lemma later_names [simp]:
  "later b (tmp_name k) \<longleftrightarrow> nTmp b \<le> k" "later b (flag_name k) \<longleftrightarrow> nFlag b \<le> k" "later b (err_name k) \<longleftrightarrow> nErr b \<le> k"
  "\<not> later b (deoptParam k)"
  by (auto simp: later_def)

lemma reserved_not_gen: "n \<in> set reserved \<Longrightarrow> \<not> gen_like n"
  by (auto simp: reserved_def gen_like_def numbered_def is_digit_char_def)

lemma user_not_later: "user_name n \<Longrightarrow> \<not> later b n"
  using later_gen_like by (auto simp: user_name_def)

lemma reserved_not_later: "n \<in> set reserved \<Longrightarrow> \<not> later b n"
  using later_gen_like reserved_not_gen by blast

section \<open>Growing environments\<close>

text \<open>The builder only moves forward, and the statements it emits only declare names it had not used.\<close>

definition adv :: "builder \<Rightarrow> builder \<Rightarrow> bool" where
  "adv b b' \<longleftrightarrow>
     nTmp b \<le> nTmp b' \<and> nFlag b \<le> nFlag b' \<and> nErr b \<le> nErr b' \<and> (deoptUsed b \<longrightarrow> deoptUsed b') \<and>
     b_params b' = b_params b \<and> b_ret b' = b_ret b \<and> b_deopt b' = b_deopt b \<and> genDeopt b' = genDeopt b \<and>
     b_resume b' = b_resume b"

definition ext :: "builder \<Rightarrow> genv \<Rightarrow> genv \<Rightarrow> bool" where
  "ext b \<sigma> \<sigma>' \<longleftrightarrow> \<sigma> \<noteq> [] \<and> \<sigma>' \<noteq> [] \<and> tl \<sigma>' = tl \<sigma> \<and> (\<forall>n. \<not> later b n \<longrightarrow> hd \<sigma>' n = hd \<sigma> n)"

definition fresh :: "builder \<Rightarrow> genv \<Rightarrow> bool" where
  "fresh b \<sigma> \<longleftrightarrow> (\<forall>n. later b n \<longrightarrow> hd \<sigma> n = None)"

lemma adv_refl [simp]: "adv b b"
  by (simp add: adv_def)

lemma adv_trans [trans]: "adv b1 b2 \<Longrightarrow> adv b2 b3 \<Longrightarrow> adv b1 b3"
  by (auto simp: adv_def)

lemma adv_later: "adv b b' \<Longrightarrow> later b' n \<Longrightarrow> later b n"
  by (auto simp: adv_def later_def)

lemma ext_refl [simp]: "ext b \<sigma> \<sigma> \<longleftrightarrow> \<sigma> \<noteq> []"
  by (auto simp: ext_def)

lemma ext_trans: "ext b \<sigma>1 \<sigma>2 \<Longrightarrow> ext b' \<sigma>2 \<sigma>3 \<Longrightarrow> adv b b' \<Longrightarrow> ext b \<sigma>1 \<sigma>3"
  unfolding ext_def using adv_later [of b b'] by metis

lemma glook_hd: "\<sigma> \<noteq> [] \<Longrightarrow> glook \<sigma> n = (case hd \<sigma> n of Some v \<Rightarrow> Some v | None \<Rightarrow> glook (tl \<sigma>) n)"
  by (cases \<sigma>) (auto split: option.splits)

lemma ext_glook: "ext b \<sigma> \<sigma>' \<Longrightarrow> \<not> later b n \<Longrightarrow> glook \<sigma>' n = glook \<sigma> n"
  by (simp add: ext_def glook_hd split: option.splits)

lemma adv_upd [simp]:
  "adv b (b\<lparr>pre := p\<rparr>)" "adv b (b\<lparr>deoptUsed := True\<rparr>)" "adv b (b\<lparr>nDeopt := k\<rparr>)"
  "k \<ge> nTmp b \<Longrightarrow> adv b (b\<lparr>nTmp := k\<rparr>)" "k \<ge> nFlag b \<Longrightarrow> adv b (b\<lparr>nFlag := k\<rparr>)" "k \<ge> nErr b \<Longrightarrow> adv b (b\<lparr>nErr := k\<rparr>)"
  by (simp_all add: adv_def)

section \<open>Expressions depend on what identifiers mean\<close>

lemma callee_cong: "(\<And>n. glook \<sigma> n = glook \<sigma>' n) \<Longrightarrow> callee \<sigma> f = callee \<sigma>' f"
  by (induction \<sigma> f rule: callee.induct) auto

lemma go_eval_cong:
  assumes "\<And>n. glook \<sigma> n = glook \<sigma>' n"
  shows "go_eval F \<sigma> x = go_eval F \<sigma>' x"
proof (induction x)
  case (GCall f xs)
  then have "map (go_eval F \<sigma>) xs = map (go_eval F \<sigma>') xs" by simp
  then show ?case by (simp only: go_eval.simps callee_cong [OF assms])
next
  case (GComposite t xs)
  then have "map (go_eval F \<sigma>) xs = map (go_eval F \<sigma>') xs" by simp
  then show ?case by (simp only: go_eval.simps)
next
  case (GBinary t x y)
  then show ?case by (simp only: go_eval.simps)
qed (simp_all add: assms)

lemma glook_empty [simp]: "glook ((\<lambda>_. None) # \<sigma>) n = glook \<sigma> n"
  by simp

lemma go_eval_empty [simp]: "go_eval F ((\<lambda>_. None) # \<sigma>) = go_eval F \<sigma>"
  by (intro HOL.ext go_eval_cong) simp

lemma callee_empty [simp]: "callee ((\<lambda>_. None) # \<sigma>) = callee \<sigma>"
  by (intro HOL.ext callee_cong) simp

section \<open>Running guard statements\<close>

lemma run_block_Nil [simp]: "run_block [] = GNext"
  by (simp add: fun_eq_iff)

lemma seq_assoc: "seq (seq r f) g = seq r (\<lambda>\<sigma>. seq (f \<sigma>) g)"
  by (cases r) auto

lemma seq_GNext [simp]: "seq r GNext = r"
  by (cases r) auto

lemma run_block_append: "run_block (fs @ gs) = (\<lambda>\<sigma>. seq (run_block fs \<sigma>) (run_block gs))"
proof (induction fs)
  case (Cons f fs)
  then show ?case by (intro HOL.ext) (simp add: seq_assoc)
qed (simp add: fun_eq_iff)

lemma go_ifStmt_true:
  assumes "go_eval F \<sigma> c = Some (VBool True)"
  shows "go_stmt F G n (ifStmt c body) \<sigma> = leave (leave (go_block F G n body ((\<lambda>_. None) # (\<lambda>_. None) # \<sigma>)))"
  using assms by (simp add: ifStmt_def in_block_def go_test_def)

lemma go_ifStmt_false:
  assumes "go_eval F \<sigma> c = Some (VBool False)"
  shows "go_stmt F G n (ifStmt c body) \<sigma> = GNext \<sigma>"
  using assms by (simp add: ifStmt_def in_block_def go_test_def)

lemma go_return_empty [simp]: "go_return F xs ((\<lambda>_. None) # \<sigma>) = go_return F xs \<sigma>"
  unfolding go_return_def go_eval_empty callee_empty ..

lemma leave_return [simp]: "leave (go_return F xs \<sigma>) = go_return F xs \<sigma>"
  by (auto simp: go_return_def split: list.splits gexpr.splits option.splits)

lemma seq_return [simp]: "seq (go_return F xs \<sigma>) k = go_return F xs \<sigma>"
  by (auto simp: go_return_def split: list.splits gexpr.splits option.splits)

lemma go_return_two:
  assumes "go_eval F \<sigma> x = Some v" and "go_eval F \<sigma> y = Some w"
  shows "go_return F [x, y] \<sigma> = GRet [v, w]"
  using assms by (cases x) (simp_all add: go_return_def)

lemma go_return_call:
  assumes "glook \<sigma> h = None" and "map (go_eval F \<sigma>) xs = map Some vs"
  shows "go_return F [GCall (GIdent h) xs] \<sigma> = GTail h vs"
proof -
  have "those (map Some vs) = Some vs" by (induction vs) simp_all
  then show ?thesis using assms by (simp add: go_return_def)
qed

lemma go_guard_true:
  assumes "go_eval F \<sigma> c = Some (VBool True)"
  shows "go_stmt F G n (ifStmt c [GReturn xs]) \<sigma> = go_return F xs \<sigma>"
  using assms by (simp add: go_ifStmt_true)

section \<open>The expressions covered\<close>

definition raising :: "op \<Rightarrow> bool" where
  "raising o' \<longleftrightarrow> o' \<in> {OpDiv, OpFloorDiv, OpMod, OpLShift, OpRShift}"

definition bitwise :: "op \<Rightarrow> bool" where
  "bitwise o' \<longleftrightarrow> o' \<in> {OpBitAnd, OpBitOr, OpBitXor}"

text \<open>No check that raises and no call: what may stand to the right of \<open>and\<close> or \<open>or\<close>, where the emitted code runs its
  guards unconditionally.\<close>

fun quiet :: "eexpr \<Rightarrow> bool" where
  "quiet (EBin o' l r) = (\<not> raising o' \<and> quiet l \<and> quiet r)"
| "quiet (EIndex x i) = (quiet x \<and> quiet i)"
| "quiet (EListLit el xs) = list_all quiet xs"
| "quiet (EAttr x n) = quiet x"
| "quiet (ECmp o' l r) = (quiet l \<and> quiet r)"
| "quiet (EAnd l r) = (quiet l \<and> quiet r)"
| "quiet (EOr l r) = (quiet l \<and> quiet r)"
| "quiet (ENot x) = quiet x"
| "quiet (ECall n xs r) = False"
| "quiet _ = True"

text \<open>The expressions that lower to an untyped Go constant.\<close>

fun is_const :: "eexpr \<Rightarrow> bool" where
  "is_const (EInt v) = True"
| "is_const (EFloat v) = True"
| "is_const (EBin o' l r) = (bitwise o' \<and> is_const l \<and> is_const r)"
| "is_const _ = False"

fun float_lit :: "eexpr \<Rightarrow> bool" where
  "float_lit (EFloat v) = True"
| "float_lit _ = False"

definition scalar_reprs :: "repr list" where
  "scalar_reprs = [intRepr, floatRepr, boolRepr, strRepr]"

definition value_reprs :: "repr list" where
  "value_reprs = scalar_reprs @ map listRepr scalar_reprs"

definition typ_bin :: "op \<Rightarrow> repr \<Rightarrow> repr \<Rightarrow> bool \<Rightarrow> repr option" where
  "typ_bin o' lr rr lits =
     (if lr = strRepr \<and> rr = strRepr then (if o' = OpAdd then Some strRepr else None)
      else if lr \<notin> set [intRepr, floatRepr, boolRepr] \<or> rr \<notin> set [intRepr, floatRepr, boolRepr] then None
      else if lr = floatRepr \<or> rr = floatRepr
      then (if o' \<in> {OpAdd, OpSub, OpMul, OpDiv} \<and> \<not> lits then Some floatRepr else None)
      else if o' = OpDiv \<or> bitwise o' \<and> lr = boolRepr \<and> rr = boolRepr then None
      else Some intRepr)"

definition typ_cmp :: "cmp_op \<Rightarrow> repr \<Rightarrow> repr \<Rightarrow> repr option" where
  "typ_cmp o' lr rr =
     (if lr = rr \<and> (lr \<in> set [intRepr, floatRepr, strRepr] \<or> lr = boolRepr \<and> \<not> ordered o') then Some boolRepr else None)"

type_synonym sigs = "string \<Rightarrow> (repr list \<times> repr) option"

fun typ_of :: "sigs \<Rightarrow> (string \<Rightarrow> repr option) \<Rightarrow> eexpr \<Rightarrow> repr option"
  and typs_of :: "sigs \<Rightarrow> (string \<Rightarrow> repr option) \<Rightarrow> eexpr list \<Rightarrow> repr list option" where
  "typ_of S \<Gamma> (EVar n r) = (if \<Gamma> n = Some r then Some r else None)"
| "typ_of S \<Gamma> (EInt v) = Some intRepr"
| "typ_of S \<Gamma> (EFloat v) = (if finite_bits v \<and> v \<noteq> neg_zero then Some floatRepr else None)"
| "typ_of S \<Gamma> (EBool v) = Some boolRepr"
| "typ_of S \<Gamma> (EStr v) = Some strRepr"
| "typ_of S \<Gamma> (EBin o' l r) =
     do {lr \<leftarrow> typ_of S \<Gamma> l; rr \<leftarrow> typ_of S \<Gamma> r; typ_bin o' lr rr (float_lit l \<and> float_lit r)}"
| "typ_of S \<Gamma> (EIndex x i) =
     do {xr \<leftarrow> typ_of S \<Gamma> x; ir \<leftarrow> typ_of S \<Gamma> i;
         (case repr_Elem xr of
            Some el \<Rightarrow> if xr = listRepr el \<and> el \<in> set scalar_reprs \<and> ir = intRepr \<and> \<not> is_const i then Some el else None
          | None \<Rightarrow> None)}"
| "typ_of S \<Gamma> (EListLit el xs) =
     do {rs \<leftarrow> typs_of S \<Gamma> xs;
         if el \<in> set scalar_reprs \<and> list_all (\<lambda>r. r = el) rs \<and> in64 (int (length xs)) then Some (listRepr el) else None}"
| "typ_of S \<Gamma> (EAttr x n) =
     do {xr \<leftarrow> typ_of S \<Gamma> x; s \<leftarrow> repr_Shape xr; fr \<leftarrow> Shape_Field s n;
         if repr_Elem xr = None \<and> fr \<in> set scalar_reprs then Some fr else None}"
| "typ_of S \<Gamma> (EGenNew t fs) = None"
| "typ_of S \<Gamma> (ECmp o' l r) = do {lr \<leftarrow> typ_of S \<Gamma> l; rr \<leftarrow> typ_of S \<Gamma> r; typ_cmp o' lr rr}"
| "typ_of S \<Gamma> (EAnd l r) =
     do {lr \<leftarrow> typ_of S \<Gamma> l; rr \<leftarrow> typ_of S \<Gamma> r; if lr = rr \<and> lr \<in> set scalar_reprs \<and> quiet r then Some lr else None}"
| "typ_of S \<Gamma> (EOr l r) =
     do {lr \<leftarrow> typ_of S \<Gamma> l; rr \<leftarrow> typ_of S \<Gamma> r; if lr = rr \<and> lr \<in> set scalar_reprs \<and> quiet r then Some lr else None}"
| "typ_of S \<Gamma> (ENot x) = do {xr \<leftarrow> typ_of S \<Gamma> x; if xr = boolRepr then Some boolRepr else None}"
| "typ_of S \<Gamma> (ECall n xs r) =
     do {rs \<leftarrow> typs_of S \<Gamma> xs; if S n = Some (rs, r) \<and> set rs \<subseteq> set value_reprs then Some r else None}"
| "typ_of S \<Gamma> (ERecv n r) = None"
| "typs_of S \<Gamma> [] = Some []"
| "typs_of S \<Gamma> (x # xs) = do {r \<leftarrow> typ_of S \<Gamma> x; rs \<leftarrow> typs_of S \<Gamma> xs; Some (r # rs)}"

section \<open>The simulation\<close>

definition zero_val :: "repr \<Rightarrow> gval" where
  "zero_val r =
     (case repr_Scalar r of
        SFloat \<Rightarrow> VFConst 0 | SInt \<Rightarrow> VConst 0 | SBool \<Rightarrow> VBool False | SStr \<Rightarrow> VStr [] | NotScalar \<Rightarrow> VNil)"

definition embc :: "bool \<Rightarrow> pval \<Rightarrow> gval" where
  "embc c v = (case (c, v) of (True, PInt i) \<Rightarrow> VConst i | (True, PFloat w) \<Rightarrow> VFConst w | _ \<Rightarrow> emb v)"

text \<open>A Go expression keeps its value whatever later temporaries are declared.\<close>

definition good :: "fops \<Rightarrow> builder \<Rightarrow> genv \<Rightarrow> gexpr \<Rightarrow> gval \<Rightarrow> bool" where
  "good F b \<sigma> x g \<longleftrightarrow> (\<forall>\<sigma>'. ext b \<sigma> \<sigma>' \<longrightarrow> go_eval F \<sigma>' x = Some g)"

text \<open>The Go names the emitted code relies on are not shadowed and no later temporary is declared yet.\<close>

definition clean :: "sigs \<Rightarrow> builder \<Rightarrow> genv \<Rightarrow> bool" where
  "clean S b \<sigma> \<longleftrightarrow>
     \<sigma> \<noteq> [] \<and> fresh b \<sigma> \<and> (\<forall>n\<in>set reserved. glook \<sigma> n = None) \<and> (\<forall>n. S n \<noteq> None \<longrightarrow> user_name n \<and> glook \<sigma> n = None)"

text \<open>Every variable in scope holds the Go form of its Python value.\<close>

definition vars_ok :: "(string \<Rightarrow> repr option) \<Rightarrow> penv \<Rightarrow> genv \<Rightarrow> bool" where
  "vars_ok \<Gamma> \<rho> \<sigma> \<longleftrightarrow>
     (\<forall>n r. \<Gamma> n = Some r \<longrightarrow> user_name n \<and> (\<exists>v. \<rho> n = Some v \<and> has r v \<and> glook \<sigma> n = Some (emb v)))"

text \<open>A failure edge reaches the deopt handler with the snapshot of the parameters.\<close>

definition handoff :: "string \<Rightarrow> gval list \<Rightarrow> builder \<Rightarrow> genv \<Rightarrow> bool" where
  "handoff h vs b \<sigma> \<longleftrightarrow>
     \<not> genDeopt b \<and> b_resume b = [] \<and> b_deopt b = h \<and> h \<noteq> [] \<and> user_name h \<and> b_ret b \<in> set value_reprs \<and>
     (deoptUsed b \<longrightarrow> glook \<sigma> h = None \<and> map (\<lambda>i. glook \<sigma> (deoptParam i)) [0..<length (b_params b)] = map Some vs)"

definition sim :: "gout \<Rightarrow> builder \<Rightarrow> builder \<Rightarrow> genv \<Rightarrow> bool \<Rightarrow> (genv \<Rightarrow> 'a \<Rightarrow> bool) \<Rightarrow> gout \<Rightarrow> 'a pres \<Rightarrow> bool" where
  "sim H b b' \<sigma> q P out pr \<longleftrightarrow>
     deoptUsed b' \<and> out = H \<or>
     (case pr of
        POk v \<Rightarrow> \<exists>\<sigma>'. out = GNext \<sigma>' \<and> ext b \<sigma> \<sigma>' \<and> fresh b' \<sigma>' \<and> P \<sigma>' v
      | PRaise c m \<Rightarrow> \<not> q \<and> out = GRet [zero_val (b_ret b), VErr c m]
      | PUndef \<Rightarrow> False)"

lemma good_mono: "good F b \<sigma> x g \<Longrightarrow> ext b \<sigma> \<sigma>' \<Longrightarrow> adv b b' \<Longrightarrow> good F b' \<sigma>' x g"
  using ext_trans by (fastforce simp: good_def)

lemma good_eval: "good F b \<sigma> x g \<Longrightarrow> \<sigma> \<noteq> [] \<Longrightarrow> go_eval F \<sigma> x = Some g"
  by (simp add: good_def)

lemma ext_nonempty: "ext b \<sigma> \<sigma>' \<Longrightarrow> \<sigma>' \<noteq> []"
  by (simp add: ext_def)

lemma clean_ext: "clean S b \<sigma> \<Longrightarrow> ext b \<sigma> \<sigma>' \<Longrightarrow> fresh b' \<sigma>' \<Longrightarrow> clean S b' \<sigma>'"
  by (auto simp: clean_def ext_glook ext_nonempty reserved_not_later user_not_later)

lemma vars_ok_ext: "vars_ok \<Gamma> \<rho> \<sigma> \<Longrightarrow> ext b \<sigma> \<sigma>' \<Longrightarrow> vars_ok \<Gamma> \<rho> \<sigma>'"
  by (fastforce simp: vars_ok_def ext_glook user_not_later)

lemma handoff_ext: "handoff h vs b' \<sigma> \<Longrightarrow> ext b \<sigma> \<sigma>' \<Longrightarrow> handoff h vs b' \<sigma>'"
  by (auto simp: handoff_def ext_glook user_not_later)

lemma handoff_adv: "handoff h vs b' \<sigma> \<Longrightarrow> adv b b' \<Longrightarrow> handoff h vs b \<sigma>"
  by (auto simp: handoff_def adv_def)

lemma clean_reserved [simp]:
  assumes "clean S b \<sigma>" and "ext b \<sigma> \<sigma>'"
  shows "glook \<sigma>' ''rt'' = None" "glook \<sigma>' ''float64'' = None" "glook \<sigma>' ''int64'' = None" "glook \<sigma>' ''len'' = None"
    "glook \<sigma>' ''true'' = None" "glook \<sigma>' ''false'' = None" "glook \<sigma>' ''nil'' = None"
proof -
  have "\<forall>n\<in>set reserved. glook \<sigma>' n = None"
    using assms by (simp add: clean_def ext_glook reserved_not_later)
  then show "glook \<sigma>' ''rt'' = None" "glook \<sigma>' ''float64'' = None" "glook \<sigma>' ''int64'' = None" "glook \<sigma>' ''len'' = None"
    "glook \<sigma>' ''true'' = None" "glook \<sigma>' ''false'' = None" "glook \<sigma>' ''nil'' = None"
    by (simp_all add: reserved_def)
qed

lemma sim_bind:
  assumes "sim (GTail h vs) b b1 \<sigma> q P out pr" and "adv b b1" and "adv b1 b2"
    and "\<And>\<sigma>1 v. pr = POk v \<Longrightarrow> ext b \<sigma> \<sigma>1 \<Longrightarrow> fresh b1 \<sigma>1 \<Longrightarrow> P \<sigma>1 v \<Longrightarrow> sim (GTail h vs) b1 b2 \<sigma>1 q' Q (k \<sigma>1) (f v)"
    and "q'' \<Longrightarrow> q \<and> q'"
  shows "sim (GTail h vs) b b2 \<sigma> q'' Q (seq out k) (pbind pr f)"
proof (cases pr)
  case (POk v)
  consider "deoptUsed b1" "out = GTail h vs" | \<sigma>1 where "out = GNext \<sigma>1" "ext b \<sigma> \<sigma>1" "fresh b1 \<sigma>1" "P \<sigma>1 v"
    using assms(1) POk by (auto simp: sim_def)
  then show ?thesis
  proof cases
    case 1
    then show ?thesis using assms(3) by (simp add: sim_def adv_def)
  next
    case 2
    have "sim (GTail h vs) b1 b2 \<sigma>1 q' Q (k \<sigma>1) (f v)" using assms(4) POk 2 by blast
    then show ?thesis
      using 2 POk assms(2,3,5) ext_trans [OF 2(2) _ assms(2)]
      by (fastforce simp: sim_def adv_def split: pres.splits)
  qed
next
  case (PRaise c m)
  then show ?thesis using assms(1,3,5) by (auto simp: sim_def adv_def)
next
  case PUndef
  then show ?thesis using assms(1,3) by (auto simp: sim_def adv_def)
qed

lemma sim_pure: "(\<And>\<sigma>'. \<sigma>' = \<sigma> \<Longrightarrow> P \<sigma>' v) \<Longrightarrow> \<sigma> \<noteq> [] \<Longrightarrow> fresh b \<sigma> \<Longrightarrow> sim H b b \<sigma> q P (GNext \<sigma>) (POk v)"
  by (simp add: sim_def)

section \<open>Guards\<close>

lemma value_reprs_cases:
  assumes "r \<in> set value_reprs"
  obtains "r \<in> set scalar_reprs" | el where "el \<in> set scalar_reprs" "r = listRepr el"
  using assms by (auto simp: value_reprs_def)

lemma finite_zero [simp]: "finite_bits 0" "(0::int64) \<noteq> neg_zero"
  by (simp_all add: finite_bits_def neg_zero_def)

lemmas repr_defs = intRepr_def floatRepr_def boolRepr_def strRepr_def

lemma scalar_reprs_iff: "r \<in> set scalar_reprs \<longleftrightarrow> r = intRepr \<or> r = floatRepr \<or> r = boolRepr \<or> r = strRepr"
  by (simp add: scalar_reprs_def)

lemma repr_scalars [simp]:
  "repr_Scalar intRepr = SInt" "repr_Scalar floatRepr = SFloat" "repr_Scalar boolRepr = SBool" "repr_Scalar strRepr = SStr"
  "repr_Scalar (listRepr el) = NotScalar"
  "repr_Elem intRepr = None" "repr_Elem floatRepr = None" "repr_Elem boolRepr = None" "repr_Elem strRepr = None"
  "repr_Elem (listRepr el) = Some el" "repr_Shape (listRepr el) = None"
  "repr_Shape intRepr = None" "repr_Shape floatRepr = None" "repr_Shape boolRepr = None" "repr_Shape strRepr = None"
  "goType intRepr = GIdent ''int64''" "goType floatRepr = GIdent ''float64''" "goType boolRepr = GIdent ''bool''"
  "goType strRepr = GIdent ''string''" "goType (listRepr el) = GArrayType (goType el)"
  "intRepr \<noteq> floatRepr" "floatRepr \<noteq> intRepr" "intRepr \<noteq> boolRepr" "boolRepr \<noteq> intRepr" "floatRepr \<noteq> boolRepr" "boolRepr \<noteq> floatRepr"
  "intRepr \<noteq> strRepr" "strRepr \<noteq> intRepr" "floatRepr \<noteq> strRepr" "strRepr \<noteq> floatRepr" "boolRepr \<noteq> strRepr" "strRepr \<noteq> boolRepr"
  by (simp_all add: repr_defs listRepr_def)

lemma go_zero:
  assumes "r \<in> set value_reprs" and "glook \<sigma> ''false'' = None" and "glook \<sigma> ''nil'' = None"
  shows "go_eval F \<sigma> (repr_zero r) = Some (zero_val r)"
  using assms(1) by (cases rule: value_reprs_cases) (auto simp: scalar_reprs_iff repr_zero_def zero_val_def assms(2,3))

lemma go_raise:
  assumes "clean S b \<sigma>" and "ext b \<sigma> \<sigma>'" and "b_ret b \<in> set value_reprs"
    and "go_eval F \<sigma>' c = Some (VBool t)" and "exc = ''ZeroDivisionError'' \<or> exc = ''ValueError''"
  shows "go_block F G n [raise_stmt c exc msg b] \<sigma>' = (if t then GRet [zero_val (b_ret b), VErr exc msg] else GNext \<sigma>')"
proof (cases t)
  case True
  then show ?thesis
    using assms go_zero [of "b_ret b" \<sigma>' F] clean_reserved [OF assms(1,2)]
    by (auto simp: raise_stmt_def go_guard_true sel_def runtimePkg_def go_call_def error_call_def intro!: go_return_two)
next
  case False
  then show ?thesis using assms(4) by (simp add: raise_stmt_def go_ifStmt_false)
qed

lemma deoptEdge_adv: "adv b (snd (deoptEdge b))" "pre (snd (deoptEdge b)) = pre b"
  "nTmp (snd (deoptEdge b)) = nTmp b" "nFlag (snd (deoptEdge b)) = nFlag b" "nErr (snd (deoptEdge b)) = nErr b"
  by (simp_all add: deoptEdge_def)

lemma go_edge:
  assumes "handoff h vs (snd (deoptEdge b)) \<sigma>" and "ext b0 \<sigma> \<sigma>'"
  shows "deoptUsed (snd (deoptEdge b))"
    and "go_eval F \<sigma>' c = Some (VBool t) \<Longrightarrow>
         go_stmt F G n (ifStmt c [fst (deoptEdge b)]) \<sigma>' = (if t then GTail h vs else GNext \<sigma>')"
proof -
  have b: "\<not> genDeopt b" "b_resume b = []" "b_deopt b = h" "h \<noteq> []" "user_name h"
    using assms(1) deoptEdge_adv(1) [of b] by (auto simp: handoff_def adv_def)
  then have e: "deoptEdge b =
      (GReturn [GCall (GIdent h) (map (\<lambda>i. GIdent (deoptParam i)) [0..<length (b_params b)])], b\<lparr>deoptUsed := True\<rparr>)"
    by (simp add: deoptEdge_def)
  then show "deoptUsed (snd (deoptEdge b))" by simp
  have "map (\<lambda>i. glook \<sigma>' (deoptParam i)) [0..<length (b_params b)] = map Some vs" "glook \<sigma>' h = None"
    using assms(1) e b(5) by (auto simp: handoff_def ext_glook [OF assms(2)] user_not_later)
  moreover have "go_eval F \<sigma>' (GIdent (deoptParam i)) = glook \<sigma>' (deoptParam i)" for i
    using gen_like_names(4) [of i] reserved_not_gen [of "deoptParam i"]
    by (auto simp: reserved_def split: option.splits)
  ultimately show "go_eval F \<sigma>' c = Some (VBool t) \<Longrightarrow>
      go_stmt F G n (ifStmt c [fst (deoptEdge b)]) \<sigma>' = (if t then GTail h vs else GNext \<sigma>')"
    by (cases t) (simp_all add: e go_return_call comp_def go_guard_true go_ifStmt_false)
qed

text \<open>Declaring temporaries.\<close>

lemma go_declare_one:
  assumes "\<sigma> \<noteq> []" and "hd \<sigma> x = None" and "x \<noteq> ''_''" and "defaulted v = Some v'"
  shows "go_declare F [x] [v] \<sigma> = Some ((hd \<sigma>)(x \<mapsto> v') # tl \<sigma>)"
  using assms by (cases \<sigma>) (simp_all add: go_declare_def declare_one_def)

lemma go_declare_two:
  assumes "\<sigma> \<noteq> []" and "hd \<sigma> x = None" and "hd \<sigma> y = None" and "x \<noteq> ''_''" and "y \<noteq> ''_''" and "x \<noteq> y"
    and "defaulted v = Some v'" and "defaulted w = Some w'"
  shows "go_declare F [x, y] [v, w] \<sigma> = Some ((hd \<sigma>)(x \<mapsto> v', y \<mapsto> w') # tl \<sigma>)"
  using assms by (cases \<sigma>) (simp_all add: go_declare_def declare_one_def)

lemma glook_top [simp]: "glook (f(x \<mapsto> v) # fs) x = Some v" "x \<noteq> y \<Longrightarrow> glook (f(y \<mapsto> v) # fs) x = glook (f # fs) x"
  by simp_all

lemma checked_run:
  assumes run: "go_multi G (''rt.'' @ hn) [g1, g2] = Some [VInt val, VBool ovf]"
    and c: "clean S b \<sigma>" and l: "good F b \<sigma> lx g1" and r: "good F b \<sigma> rx g2"
    and ck: "checked hn lx rx b = (x, b')" and h: "handoff h vs b' \<sigma>"
  shows "\<exists>ps. pre b' = pre b @ ps \<and> deoptUsed b' \<and>
     (if ovf then go_block F G n ps \<sigma> = GTail h vs
      else \<exists>\<sigma>'. go_block F G n ps \<sigma> = GNext \<sigma>' \<and> ext b \<sigma> \<sigma>' \<and> fresh b' \<sigma>' \<and> good F b' \<sigma>' x (VInt val))"
proof -
  let ?t = "tmp_name (nTmp b)" and ?o = "flag_name (nFlag b)"
  let ?b1 = "b\<lparr>nTmp := nTmp b + 1, nFlag := nFlag b + 1\<rparr>"
  let ?ps = "[GAssign [GIdent ?t, GIdent ?o] T_DEFINE [GCall (sel runtimePkg hn) [lx, rx]], ifStmt (GIdent ?o) [fst (deoptEdge ?b1)]]"
  let ?\<sigma> = "(hd \<sigma>)(?t \<mapsto> VInt val, ?o \<mapsto> VBool ovf) # tl \<sigma>"
  have x: "x = GIdent ?t" and b': "b' = emit ?ps (snd (deoptEdge ?b1))"
    using ck by (auto simp: checked_def temp_def flag_def Let_def split: prod.splits)
  have e: "ext b \<sigma> ?\<sigma>" and f: "fresh b' ?\<sigma>" using c
    by (auto simp: ext_def clean_def fresh_def b' emit_def later_def deoptEdge_adv dest!: Suc_leD)
  have h1: "handoff h vs (snd (deoptEdge ?b1)) \<sigma>" using h by (rule handoff_adv) (simp add: b' emit_def)
  have "\<sigma> \<noteq> []" using c by (simp add: clean_def)
  then have "go_stmt F G n (hd ?ps) \<sigma> = GNext ?\<sigma>"
    using run c good_eval [OF l] good_eval [OF r] clean_reserved(1) [OF c, of \<sigma>]
    by (simp add: go_assign_def eval_rhs_def sel_def runtimePkg_def go_declare_two next_or_stuck_def clean_def fresh_def)
  moreover have "go_stmt F G n (ifStmt (GIdent ?o) [fst (deoptEdge ?b1)]) ?\<sigma> = (if ovf then GTail h vs else GNext ?\<sigma>)"
    by (rule go_edge(2) [OF h1 e]) simp
  ultimately have "go_block F G n ?ps \<sigma> = (if ovf then GTail h vs else GNext ?\<sigma>)" by simp
  moreover have "good F b' ?\<sigma> x (VInt val)"
    by (auto simp: x good_def ext_glook b' emit_def deoptEdge_adv)
  ultimately show ?thesis
    using e f go_edge(1) [OF h1 e] by (intro exI [of _ ?ps]) (auto simp: b' emit_def deoptEdge_adv)
qed

section \<open>Operators\<close>

definition grow :: "builder \<Rightarrow> builder \<Rightarrow> bool" where
  "grow b b' \<longleftrightarrow> adv b b' \<and> take (length (pre b)) (pre b') = pre b"

definition added :: "builder \<Rightarrow> builder \<Rightarrow> gstmt list" where
  "added b b' = drop (length (pre b)) (pre b')"

lemma grow_refl [simp]: "grow b b" "added b b = []"
  by (simp_all add: grow_def added_def)

lemma added_grow: "grow b b' \<Longrightarrow> pre b' = pre b @ added b b'"
  unfolding grow_def added_def by (metis append_take_drop_id)

lemma growI: "adv b b' \<Longrightarrow> pre b' = pre b @ ps \<Longrightarrow> grow b b' \<and> added b b' = ps"
  by (simp add: grow_def added_def)

lemma grow_trans: "grow b b1 \<Longrightarrow> grow b1 b2 \<Longrightarrow> grow b b2 \<and> added b b2 = added b b1 @ added b1 b2"
  using growI [of b b2 "added b b1 @ added b1 b2"] added_grow [of b b1] added_grow [of b1 b2] adv_trans
  unfolding grow_def by (metis append_assoc)

lemma grow_adv: "grow b b' \<Longrightarrow> adv b b'"
  by (simp add: grow_def)

lemma later_emit [simp]: "later (emit ss b) = later b"
  by (intro HOL.ext) (simp add: emit_def later_def)

lemma emit_simps [simp]:
  "ext (emit ss b) = ext b" "fresh (emit ss b) = fresh b" "good F (emit ss b) = good F b" "clean S (emit ss b) = clean S b"
  "b_ret (emit ss b) = b_ret b" "deoptUsed (emit ss b) = deoptUsed b" "pre (emit ss b) = pre b @ ss" "adv b (emit ss b)"
  "grow b (emit ss b)" "added b (emit ss b) = ss"
proof -
  show "ext (emit ss b) = ext b" by (intro HOL.ext) (simp add: ext_def)
  show "fresh (emit ss b) = fresh b" by (intro HOL.ext) (simp add: fresh_def)
  show "good F (emit ss b) = good F b" by (intro HOL.ext) (simp add: good_def \<open>ext (emit ss b) = ext b\<close>)
  show "clean S (emit ss b) = clean S b" by (intro HOL.ext) (simp add: clean_def \<open>fresh (emit ss b) = fresh b\<close>)
qed (simp_all add: emit_def adv_def grow_def added_def)

lemma sim_grow:
  assumes "grow b b1" and "grow b1 b2"
    and "sim (GTail h vs) b b1 \<sigma> q P (go_block F G n (added b b1) \<sigma>) pr"
    and "\<And>\<sigma>1 v. pr = POk v \<Longrightarrow> ext b \<sigma> \<sigma>1 \<Longrightarrow> fresh b1 \<sigma>1 \<Longrightarrow> P \<sigma>1 v \<Longrightarrow>
           sim (GTail h vs) b1 b2 \<sigma>1 q' Q (go_block F G n (added b1 b2) \<sigma>1) (f v)"
    and "q'' \<Longrightarrow> q \<and> q'"
  shows "sim (GTail h vs) b b2 \<sigma> q'' Q (go_block F G n (added b b2) \<sigma>) (pbind pr f)"
  using sim_bind [OF assms(3) grow_adv [OF assms(1)] grow_adv [OF assms(2)] assms(4,5)] grow_trans [OF assms(1,2)]
  by (simp add: run_block_append)

lemma raise_sim:
  assumes "clean S b \<sigma>" and "b_ret b \<in> set value_reprs" and "exc = ''ZeroDivisionError'' \<or> exc = ''ValueError''"
    and "go_eval F \<sigma> c = Some (VBool t)" and b1: "b1 = emit [raise_stmt c exc msg b] b" and "grow b1 b'"
    and "t \<Longrightarrow> pr = PRaise exc msg"
    and "\<not> t \<Longrightarrow> sim H b1 b' \<sigma> q P (go_block F G n (added b1 b') \<sigma>) pr"
    and "\<not> q'"
  shows "sim H b b' \<sigma> q' P (go_block F G n (added b b') \<sigma>) pr"
proof -
  have "\<sigma> \<noteq> []" using assms(1) by (simp add: clean_def)
  then have "go_block F G n [raise_stmt c exc msg b] \<sigma> = (if t then GRet [zero_val (b_ret b), VErr exc msg] else GNext \<sigma>)"
    using go_raise [OF assms(1) _ assms(2,4,3)] by simp
  then have "go_block F G n (added b b') \<sigma> =
      (if t then GRet [zero_val (b_ret b), VErr exc msg] else go_block F G n (added b1 b') \<sigma>)"
    using grow_trans [OF _ assms(6), of b] by (simp add: b1 run_block_append)
  then show ?thesis using assms(7,8,9) by (cases t) (auto simp: sim_def b1 split: pres.splits)
qed

lemma checked_grow: "checked hn lx rx b = (x, b') \<Longrightarrow> grow b b'"
  by (auto simp: checked_def temp_def flag_def Let_def deoptEdge_def emit_def grow_def adv_def split: prod.splits if_splits)

lemma checked_sim:
  assumes "go_multi G (''rt.'' @ hn) [g1, g2] = Some [VInt val, VBool ovf]"
    and "clean S b \<sigma>" and "good F b \<sigma> lx g1" and "good F b \<sigma> rx g2"
    and "checked hn lx rx b = (x, b')" and "handoff h vs b' \<sigma>"
    and "\<not> ovf \<Longrightarrow> pr = POk (PInt (sint val))"
  shows "sim (GTail h vs) b b' \<sigma> q (\<lambda>\<sigma>' u. has intRepr u \<and> good F b' \<sigma>' x (emb u)) (go_block F G n (added b b') \<sigma>) pr"
proof -
  obtain ps where "pre b' = pre b @ ps" and ps: "deoptUsed b'" "if ovf then go_block F G n ps \<sigma> = GTail h vs
      else \<exists>\<sigma>'. go_block F G n ps \<sigma> = GNext \<sigma>' \<and> ext b \<sigma> \<sigma>' \<and> fresh b' \<sigma>' \<and> good F b' \<sigma>' x (VInt val)"
    using checked_run [OF assms(1-6), of n] by blast
  then have "added b b' = ps" by (simp add: added_def)
  then show ?thesis using ps assms(7) by (cases ovf) (auto simp: sim_def has_def)
qed

subsection \<open>Operands\<close>

definition ig :: "bool \<Rightarrow> int \<Rightarrow> gval" where
  "ig c i = (if c then VConst i else VInt (word_of_int i))"

definition fg :: "bool \<Rightarrow> int64 \<Rightarrow> gval" where
  "fg c w = (if c then VFConst w else VFloat w)"

lemma conv_ig [simp]: "in64 i \<Longrightarrow> conv_int (ig c i) = Some (word_of_int i)"
  by (simp add: ig_def)

lemma conv_fg [simp]: "conv_float F (fg c w) = Some w"
  by (simp add: fg_def)

lemma has_scalar:
  "has intRepr v \<longleftrightarrow> (\<exists>i. v = PInt i \<and> in64 i)" "has floatRepr v \<longleftrightarrow> (\<exists>w. v = PFloat w)"
  "has boolRepr v \<longleftrightarrow> (\<exists>b. v = PBool b)" "has strRepr v \<longleftrightarrow> (\<exists>s. v = PStr s)"
  by (cases v; simp add: has_def)+

lemma goodI: "(\<And>\<sigma>'. ext b \<sigma> \<sigma>' \<Longrightarrow> go_eval F \<sigma>' x = Some g) \<Longrightarrow> good F b \<sigma> x g"
  by (simp add: good_def)

lemma good_at: "good F b \<sigma> x g \<Longrightarrow> ext b \<sigma> \<sigma>' \<Longrightarrow> go_eval F \<sigma>' x = Some g"
  by (simp add: good_def)

lemma in64_bool [simp]: "in64 (of_bool b)" "(of_bool b :: int64) = BoolToInt b"
  by (simp_all add: in64_def BoolToInt_def)

lemma int_operand:
  assumes "has r v" and "r = intRepr \<or> r = boolRepr \<and> \<not> c" and "clean S b \<sigma>" and "good F b \<sigma> x (embc c v)"
  obtains i where "as_int v = Some i" "in64 i" "good F b \<sigma> (toInt x r) (ig c i)"
proof (cases "r = intRepr")
  case True
  then obtain i where "v = PInt i" "in64 i" using assms(1) by (auto simp: has_scalar)
  then show ?thesis using True assms(4) that [of i] by (cases c) (simp_all add: toInt_def embc_def ig_def)
next
  case False
  then obtain t where "v = PBool t" "r = boolRepr" "\<not> c" using assms(1,2) by (auto simp: has_scalar)
  moreover have "good F b \<sigma> (GCall (sel runtimePkg ''BoolToInt'') [x]) (VInt (BoolToInt t))"
    using calculation assms(4) clean_reserved(1) [OF assms(3)]
    by (intro goodI) (simp add: embc_def sel_def runtimePkg_def go_call_def good_at)
  ultimately show ?thesis using that [of "of_bool t"] by (simp add: toInt_def ig_def)
qed

lemma float_operand:
  assumes "has r v" and "r = intRepr \<or> r = floatRepr \<or> r = boolRepr \<and> \<not> c" and "clean S b \<sigma>" and "good F b \<sigma> x (embc c v)"
  obtains w where "as_float F v = Some w" "good F b \<sigma> (toFloat x r) (fg (c \<and> r = floatRepr) w)"
proof (cases "r = floatRepr")
  case True
  then obtain w where "v = PFloat w" using assms(1) by (auto simp: has_scalar)
  then show ?thesis using True assms(4) that [of w] by (cases c) (simp_all add: toFloat_def embc_def fg_def)
next
  case False
  then have r: "r = intRepr \<or> r = boolRepr \<and> \<not> c" using assms(2) by simp
  obtain i where i: "as_int v = Some i" "in64 i" "good F b \<sigma> (toInt x r) (ig c i)"
    by (rule int_operand [OF assms(1) r assms(3,4)])
  have "as_float F v = Some (f_of_int F i)" using i(1) by (cases v) auto
  moreover have "good F b \<sigma> (toFloat x r) (VFloat (f_of_int F i))"
  proof (rule goodI)
    fix \<sigma>' assume e: "ext b \<sigma> \<sigma>'"
    have "toFloat x r = GCall (GIdent ''float64'') [toInt x r]"
      using r by (auto simp: toFloat_def toInt_def)
    then show "go_eval F \<sigma>' (toFloat x r) = Some (VFloat (f_of_int F i))"
      using good_at [OF i(3) e] clean_reserved(2) [OF assms(3) e] i(2) by (simp add: go_call_def ig_def)
  qed
  ultimately show ?thesis using that False by (simp add: fg_def)
qed

subsection \<open>Binary operators\<close>

lemma guard_grow [simp]: "grow b (guardZeroDiv x b)" "grow b (guardZeroDivInt x b)" "grow b (guardNegShift x b)"
  by (simp_all add: guardZeroDiv_def guardZeroDivInt_def guardNegShift_def)

lemma lowerBin_total:
  assumes "typ_bin o' lr rr lits = Some r"
  shows "\<exists>x b'. lowerBin o' lx lr rx rr b = Some ((x, r), b') \<and> grow b b'"
proof -
  have ck: "grow b b'" if "checked hn y z b1 = (x, b')" "grow b b1" for hn y z x b' b1
    using checked_grow [OF that(1)] grow_trans [OF that(2)] by blast
  show ?thesis
  proof (cases "lr = strRepr \<and> rr = strRepr")
    case True
    then show ?thesis using assms by (simp add: typ_bin_def lowerBin_def split: if_splits)
  next
    case False
    then have num: "lr \<in> set [intRepr, floatRepr, boolRepr]" "rr \<in> set [intRepr, floatRepr, boolRepr]"
      using assms by (auto simp: typ_bin_def split: if_splits)
    then have s: "repr_Scalar lr \<noteq> SStr" "repr_Scalar rr \<noteq> SStr" "numeric lr" "numeric rr"
        "repr_Scalar lr = SFloat \<longleftrightarrow> lr = floatRepr" "repr_Scalar rr = SFloat \<longleftrightarrow> rr = floatRepr"
      by (auto simp: numeric_def)
    show ?thesis
    proof (cases "lr = floatRepr \<or> rr = floatRepr")
      case True
      then have "o' \<in> {OpAdd, OpSub, OpMul, OpDiv}" "r = floatRepr"
        using assms False num by (auto simp: typ_bin_def split: if_splits)
      then show ?thesis using s True by (auto simp: lowerBin_def Let_def)
    next
      case nf: False
      then have "o' \<noteq> OpDiv" "r = intRepr" using assms False num by (auto simp: typ_bin_def split: if_splits)
      then show ?thesis
        using s nf ck [of _ _ _ b] ck [of _ _ _ "guardZeroDivInt (toInt rx rr) b"] ck [of _ _ _ "guardNegShift (toInt rx rr) b"]
        by (cases o') (simp_all add: lowerBin_def Let_def split: prod.splits)
    qed
  qed
qed

lemma py_bin_int:
  assumes "as_int v = Some i" and "as_int w = Some j" and "\<not> (bitwise o' \<and> (\<exists>a. v = PBool a) \<and> (\<exists>a. w = PBool a))"
  shows "py_bin F o' v w = int_op F o' i j"
  using assms by (cases v; cases w; cases o') (auto simp: py_bin_def py_num_def bitwise_def)

lemma py_bin_float:
  assumes "as_float F v = Some a" and "as_float F w = Some z" and "as_int v = None \<or> as_int w = None"
  shows "py_bin F o' v w = float_op F o' a z"
  using assms by (cases v; cases w) (auto simp: py_bin_def py_num_def)

lemma go_bin_fg: "\<not> (c1 \<and> c2) \<Longrightarrow> go_bin F t (fg c1 a) (fg c2 z) = float_bin F t a z"
  by (auto simp: fg_def go_bin_def)

lemma float_bin_sim:
  assumes o: "o' \<in> {OpAdd, OpSub, OpMul, OpDiv}" and num: "lr \<in> set [intRepr, floatRepr, boolRepr]" "rr \<in> set [intRepr, floatRepr, boolRepr]"
    and fl: "lr = floatRepr \<or> rr = floatRepr" and lits: "\<not> (cl \<and> lr = floatRepr \<and> cr \<and> rr = floatRepr)"
    and cs: "cl \<Longrightarrow> lr \<noteq> boolRepr" "cr \<Longrightarrow> rr \<noteq> boolRepr"
    and low: "lowerBin o' lx lr rx rr b = Some ((x, r), b')" and c: "clean S b \<sigma>" and h: "handoff h vs b' \<sigma>"
    and v: "has lr v" "has rr w" and g: "good F b \<sigma> lx (embc cl v)" "good F b \<sigma> rx (embc cr w)"
  shows "sim (GTail h vs) b b' \<sigma> (\<not> raising o') (\<lambda>\<sigma>' u. has floatRepr u \<and> good F b' \<sigma>' x (emb u))
           (go_block F G n (added b b') \<sigma>) (py_bin F o' v w)"
proof -
  obtain a where a: "as_float F v = Some a" "good F b \<sigma> (toFloat lx lr) (fg (cl \<and> lr = floatRepr) a)"
    using float_operand [OF v(1) _ c g(1)] num(1) cs(1) by auto
  obtain z where z: "as_float F w = Some z" "good F b \<sigma> (toFloat rx rr) (fg (cr \<and> rr = floatRepr) z)"
    using float_operand [OF v(2) _ c g(2)] num(2) cs(2) by auto
  have py: "py_bin F o' v w = float_op F o' a z"
    using fl v by (intro py_bin_float a(1) z(1)) (auto simp: has_scalar)
  have ne: "\<sigma> \<noteq> []" and fr: "fresh b \<sigma>" using c by (simp_all add: clean_def)
  have bin: "good F b \<sigma> (GBinary t (toFloat lx lr) (toFloat rx rr)) (VFloat u)"
    if "float_bin F t a z = Some (VFloat u)" "t \<noteq> T_LAND" "t \<noteq> T_LOR" for t u
    using that good_at [OF a(2)] good_at [OF z(2)] lits by (intro goodI) (simp add: go_bin_fg)
  show ?thesis
  proof (cases "o' = OpDiv")
    case True
    have x: "x = GBinary T_QUO (toFloat lx lr) (toFloat rx rr)" and b': "b' = guardZeroDiv (toFloat rx rr) b"
      using low num fl True by (auto simp: lowerBin_def numeric_def Let_def)
    have "go_eval F \<sigma> (GBinary T_EQL (toFloat rx rr) (GFloatLit 0)) = Some (VBool (f_eq F z 0))"
      using good_eval [OF z(2) ne] by (cases "cr \<and> rr = floatRepr") (simp_all add: fg_def go_bin_def float_bin_def float_cmp_def)
    moreover have "sim (GTail h vs) b' b' \<sigma> False (\<lambda>\<sigma>' u. has floatRepr u \<and> good F b' \<sigma>' x (emb u))
        (go_block F G n (added b' b') \<sigma>) (py_bin F o' v w)" if "\<not> f_eq F z 0"
      using that ne fr bin [of T_QUO "f_div F a z"] unfolding py
      by (simp add: sim_pure x float_bin_def has_scalar True b' guardZeroDiv_def)
    moreover have "b_ret b \<in> set value_reprs" using h by (simp add: handoff_def b' guardZeroDiv_def)
    ultimately show ?thesis
      by (intro raise_sim [OF c _ _ _ b' [unfolded guardZeroDiv_def], where q = False and t = "f_eq F z 0"])
        (simp_all only: py, simp_all add: True zero_div_def raising_def)
  next
    case False
    then have "x = GBinary (op_tok o') (toFloat lx lr) (toFloat rx rr)" and "b' = b"
      using low num fl o by (auto simp: lowerBin_def numeric_def Let_def)
    moreover obtain u where "float_op F o' a z = POk (PFloat u)" "float_bin F (op_tok o') a z = Some (VFloat u)"
        "op_tok o' \<noteq> T_LAND" "op_tok o' \<noteq> T_LOR"
      using False o by (auto simp: op_tok_def float_bin_def)
    ultimately show ?thesis using ne fr bin [of "op_tok o'" u] unfolding py by (simp add: sim_pure has_scalar)
  qed
qed

lemma bit_word:
  fixes i j :: int
  assumes "in64 i" "in64 j"
  shows "in64 (i AND j)" "in64 (i OR j)" "in64 (i XOR j)"
    "word_of_int (i AND j) = (word_of_int i AND word_of_int j :: int64)"
    "word_of_int (i OR j) = (word_of_int i OR word_of_int j :: int64)"
    "word_of_int (i XOR j) = (word_of_int i XOR word_of_int j :: int64)"
proof -
  let ?w = "\<lambda>i. word_of_int i :: int64"
  have "i = sint (?w i)" "j = sint (?w j)" using assms by simp_all
  then have "i AND j = sint (?w i AND ?w j)" "i OR j = sint (?w i OR ?w j)" "i XOR j = sint (?w i XOR ?w j)"
    by (metis signed_and_eq, metis signed_or_eq, metis signed_xor_eq)
  then show "in64 (i AND j)" "in64 (i OR j)" "in64 (i XOR j)"
    using in64_sint by simp_all
qed (simp_all add: of_int_and_eq of_int_or_eq of_int_xor_eq)

lemma bit_bin_good:
  assumes "bitwise o'" and "in64 i" "in64 j" and "good F b \<sigma> lx (ig cl i)" and "good F b \<sigma> rx (ig cr j)"
  obtains k where "int_op F o' i j = POk (PInt k)" "in64 k" "good F b \<sigma> (GBinary (op_tok o') lx rx) (ig (cl \<and> cr) k)"
proof -
  let ?k = "case o' of OpBitAnd \<Rightarrow> i AND j | OpBitOr \<Rightarrow> i OR j | _ \<Rightarrow> i XOR j"
  have "go_bin F (op_tok o') (ig cl i) (ig cr j) = Some (ig (cl \<and> cr) ?k)"
    using assms(1) bit_word(4-6) [OF assms(2,3)] assms(2,3)
    by (cases cl; cases cr) (auto simp: bitwise_def go_bin_def ig_def op_tok_def const_bin_def int_bin_def)
  then have "good F b \<sigma> (GBinary (op_tok o') lx rx) (ig (cl \<and> cr) ?k)"
    using good_at [OF assms(4)] good_at [OF assms(5)] assms(1) by (intro goodI) (auto simp: bitwise_def op_tok_def)
  moreover have "int_op F o' i j = POk (PInt ?k)" "in64 ?k"
    using assms(1) bit_word(1-3) [OF assms(2,3)] by (auto simp: bitwise_def)
  ultimately show thesis using that by blast
qed

text \<open>The checked helpers: with the flag clear the word is Python's result.\<close>

definition pair_ok :: "fops \<Rightarrow> op \<Rightarrow> int \<Rightarrow> int \<Rightarrow> (int64 \<times> bool) option \<Rightarrow> bool" where
  "pair_ok F o' i j r \<longleftrightarrow> (\<exists>val ovf. r = Some (val, ovf) \<and> (\<not> ovf \<longrightarrow> int_op F o' i j = POk (PInt (sint val))))"

lemma exact64_pair: "exact64 r z \<Longrightarrow> int_op F o' i j = POk (PInt z) \<Longrightarrow> pair_ok F o' i j (Some r)"
  by (cases r) (auto simp: pair_ok_def exact64_def)

lemma pair_ok_ops:
  assumes "in64 i" "in64 j"
  shows "pair_ok F OpAdd i j (Some (AddInt64 (word_of_int i) (word_of_int j)))"
    "pair_ok F OpSub i j (Some (SubInt64 (word_of_int i) (word_of_int j)))"
    "pair_ok F OpMul i j (Some (MulInt64 (word_of_int i) (word_of_int j)))"
    "pair_ok F OpPow i j (Some (PowInt64 (word_of_int i) (word_of_int j)))"
    "j \<noteq> 0 \<Longrightarrow> pair_ok F OpFloorDiv i j (FloorDivInt64 (word_of_int i) (word_of_int j))"
    "0 \<le> j \<Longrightarrow> pair_ok F OpLShift i j (Some (LShiftInt64 (word_of_int i) (word_of_int j)))"
proof -
  let ?i = "word_of_int i :: int64" and ?j = "word_of_int j :: int64"
  have s: "sint ?i = i" "sint ?j = j" using assms by simp_all
  show "pair_ok F OpAdd i j (Some (AddInt64 ?i ?j))" using AddInt64_exact [of ?i ?j] s by (auto intro: exact64_pair)
  show "pair_ok F OpSub i j (Some (SubInt64 ?i ?j))" using SubInt64_exact [of ?i ?j] s by (auto intro: exact64_pair)
  show "pair_ok F OpMul i j (Some (MulInt64 ?i ?j))" using MulInt64_exact [of ?i ?j] s by (auto intro: exact64_pair)
  show "pair_ok F OpPow i j (Some (PowInt64 ?i ?j))"
    using PowInt64_deopt [of ?i ?j] PowInt64_value [of ?i ?j] s by (cases "PowInt64 ?i ?j") (auto simp: pair_ok_def)
  show "j \<noteq> 0 \<Longrightarrow> pair_ok F OpFloorDiv i j (FloorDivInt64 ?i ?j)"
    using FloorDivInt64_exact [of ?j ?i] s by (fastforce simp: eq_zero_iff64 intro: exact64_pair)
  show "0 \<le> j \<Longrightarrow> pair_ok F OpLShift i j (Some (LShiftInt64 ?i ?j))"
    using LShiftInt64_exact [of ?j ?i] s by (auto intro: exact64_pair)
qed

fun pair_fn :: "op \<Rightarrow> int64 \<Rightarrow> int64 \<Rightarrow> (int64 \<times> bool) option" where
  "pair_fn OpAdd a b = Some (AddInt64 a b)"
| "pair_fn OpSub a b = Some (SubInt64 a b)"
| "pair_fn OpMul a b = Some (MulInt64 a b)"
| "pair_fn OpFloorDiv a b = FloorDivInt64 a b"
| "pair_fn OpPow a b = Some (PowInt64 a b)"
| "pair_fn OpLShift a b = Some (LShiftInt64 a b)"
| "pair_fn _ a b = None"

definition pair_name :: "op \<Rightarrow> string" where
  "pair_name o' = (case o' of OpFloorDiv \<Rightarrow> ''FloorDivInt64'' | OpPow \<Rightarrow> ''PowInt64'' | OpLShift \<Rightarrow> ''LShiftInt64'' | _ \<Rightarrow> helper o')"

lemma go_multi_fn: "Overflows o' \<Longrightarrow> go_multi G (''rt.'' @ pair_name o') vs = pair_call (pair_fn o') vs"
  by (auto simp: Overflows_def go_multi_def pair_name_def helper_def pair_call_def split: list.splits option.splits)

lemma op_sim_checked:
  assumes ij: "in64 i" "in64 j" and o: "Overflows o'" "o' = OpFloorDiv \<longrightarrow> j \<noteq> 0" "o' = OpLShift \<longrightarrow> 0 \<le> j"
    and "clean S b \<sigma>" and "good F b \<sigma> lx (ig cl i)" and "good F b \<sigma> rx (ig cr j)"
    and "checked (pair_name o') lx rx b = (x, b')" and "handoff h vs b' \<sigma>"
  shows "sim (GTail h vs) b b' \<sigma> q (\<lambda>\<sigma>' u. has intRepr u \<and> good F b' \<sigma>' x (emb u)) (go_block F G n (added b b') \<sigma>) (int_op F o' i j)"
proof -
  have "pair_ok F o' i j (pair_fn o' (word_of_int i) (word_of_int j))"
    using o pair_ok_ops [OF ij, of F] by (auto simp: Overflows_def)
  then obtain val ovf where "pair_fn o' (word_of_int i) (word_of_int j) = Some (val, ovf)"
    and v: "\<not> ovf \<Longrightarrow> int_op F o' i j = POk (PInt (sint val))"
    by (auto simp: pair_ok_def)
  then have "go_multi G (''rt.'' @ pair_name o') [ig cl i, ig cr j] = Some [VInt val, VBool ovf]"
    unfolding go_multi_fn [OF o(1)] using ij by (simp add: pair_call_def)
  then show ?thesis using v assms(6-10) by (intro checked_sim)
qed

lemma zero_test:
  assumes "good F b \<sigma> x (ig c j)" and "in64 j" and "\<sigma> \<noteq> []"
  shows "go_eval F \<sigma> (GBinary T_EQL x (GIntLit 0)) = Some (VBool (j = 0))"
    "go_eval F \<sigma> (GBinary T_LSS x (GIntLit 0)) = Some (VBool (j < 0))"
proof -
  have "(word_of_int j :: int64) = 0 \<longleftrightarrow> j = 0" using assms(2) by (simp add: eq_zero_iff64)
  then show "go_eval F \<sigma> (GBinary T_EQL x (GIntLit 0)) = Some (VBool (j = 0))"
    "go_eval F \<sigma> (GBinary T_LSS x (GIntLit 0)) = Some (VBool (j < 0))"
    using good_eval [OF assms(1,3)] assms(2)
    by (cases c; simp add: ig_def go_bin_def const_bin_def int_bin_def in64_0)+
qed

text \<open>The guarded integer operators: the raising check first, then the operation.\<close>

lemma zero_div_sim:
  assumes "clean S b \<sigma>" and "b_ret b \<in> set value_reprs" and "good F b \<sigma> d (ig c j)" and "in64 j"
    and "grow (guardZeroDivInt d b) b'" and "j = 0 \<Longrightarrow> pr = zero_div"
    and "j \<noteq> 0 \<Longrightarrow> sim H (guardZeroDivInt d b) b' \<sigma> q P (go_block F G n (added (guardZeroDivInt d b) b') \<sigma>) pr"
    and "\<not> q'"
  shows "sim H b b' \<sigma> q' P (go_block F G n (added b b') \<sigma>) pr"
proof -
  have "\<sigma> \<noteq> []" using assms(1) by (simp add: clean_def)
  then show ?thesis
    using assms zero_test(1) [OF assms(3,4)] unfolding guardZeroDivInt_def
    by (intro raise_sim [OF assms(1,2) _ _ refl, where t = "j = 0" and q = q]) (auto simp: zero_div_def)
qed

lemma neg_shift_sim:
  assumes "clean S b \<sigma>" and "b_ret b \<in> set value_reprs" and "good F b \<sigma> d (ig c j)" and "in64 j"
    and "grow (guardNegShift d b) b'" and "j < 0 \<Longrightarrow> pr = neg_shift"
    and "0 \<le> j \<Longrightarrow> sim H (guardNegShift d b) b' \<sigma> q P (go_block F G n (added (guardNegShift d b) b') \<sigma>) pr"
    and "\<not> q'"
  shows "sim H b b' \<sigma> q' P (go_block F G n (added b b') \<sigma>) pr"
proof -
  have "\<sigma> \<noteq> []" using assms(1) by (simp add: clean_def)
  then show ?thesis
    using assms zero_test(2) [OF assms(3,4)] unfolding guardNegShift_def
    by (intro raise_sim [OF assms(1,2) _ _ refl, where t = "j < 0" and q = q]) (auto simp: neg_shift_def)
qed

lemma guard_simps [simp]:
  "clean S (guardZeroDivInt d b) = clean S b" "good F (guardZeroDivInt d b) = good F b"
  "clean S (guardNegShift d b) = clean S b" "good F (guardNegShift d b) = good F b"
  "fresh (guardZeroDivInt d b) = fresh b" "fresh (guardNegShift d b) = fresh b"
  by (simp_all add: guardZeroDivInt_def guardNegShift_def)

lemma embc_int: "embc c (PInt i) = ig c i"
  by (cases c) (simp_all add: embc_def ig_def)

lemma embc_False [simp]: "embc False v = emb v"
  by (simp add: embc_def)

lemma rt_good:
  assumes "clean S b \<sigma>" and "good F b \<sigma> l g1" and "good F b \<sigma> r g2" and "go_call F (''rt.'' @ hn) [g1, g2] = Some g"
  shows "good F b \<sigma> (GCall (sel runtimePkg hn) [l, r]) g"
  using assms clean_reserved(1) [OF assms(1)] good_at [OF assms(2)] good_at [OF assms(3)]
  by (intro goodI) (simp add: sel_def runtimePkg_def)

lemma int_bin_sim:
  assumes o: "o' \<noteq> OpDiv" and num: "lr \<in> set [intRepr, boolRepr]" "rr \<in> set [intRepr, boolRepr]"
    and bb: "\<not> (bitwise o' \<and> lr = boolRepr \<and> rr = boolRepr)"
    and cs: "cl \<Longrightarrow> lr \<noteq> boolRepr" "cr \<Longrightarrow> rr \<noteq> boolRepr"
    and low: "lowerBin o' lx lr rx rr b = Some ((x, r), b')" and c: "clean S b \<sigma>" and h: "handoff h vs b' \<sigma>"
    and gr: "grow b b'"
    and v: "has lr v" "has rr w" and g: "good F b \<sigma> lx (embc cl v)" "good F b \<sigma> rx (embc cr w)"
  shows "sim (GTail h vs) b b' \<sigma> (\<not> raising o') (\<lambda>\<sigma>' u. has intRepr u \<and> good F b' \<sigma>' x (embc (bitwise o' \<and> cl \<and> cr) u))
           (go_block F G n (added b b') \<sigma>) (py_bin F o' v w)"
proof -
  let ?l = "toInt lx lr" and ?r = "toInt rx rr"
  obtain i where i: "as_int v = Some i" "in64 i" "good F b \<sigma> ?l (ig cl i)"
    using int_operand [OF v(1) _ c g(1)] num(1) cs(1) by auto
  obtain j where j: "as_int w = Some j" "in64 j" "good F b \<sigma> ?r (ig cr j)"
    using int_operand [OF v(2) _ c g(2)] num(2) cs(2) by auto
  have py: "py_bin F o' v w = int_op F o' i j"
    using bb v num by (intro py_bin_int i(1) j(1)) (auto simp: has_scalar)
  have ne: "\<sigma> \<noteq> []" and fr: "fresh b \<sigma>" using c by (simp_all add: clean_def)
  have ret: "b_ret b \<in> set value_reprs" using h gr by (simp add: handoff_def grow_def adv_def)
  have s: "repr_Scalar lr \<noteq> SStr" "repr_Scalar rr \<noteq> SStr" "numeric lr" "numeric rr" "repr_Scalar lr \<noteq> SFloat" "repr_Scalar rr \<noteq> SFloat"
    using num by (auto simp: numeric_def)
  note low = low [unfolded lowerBin_def Let_def, simplified s, simplified]
  note plain = op_sim_checked [OF i(2) j(2) _ _ _ c i(3) j(3), of o']
  consider "o' \<in> {OpAdd, OpSub, OpMul, OpPow}" | "o' = OpFloorDiv" | "o' = OpLShift" | "o' = OpMod" | "o' = OpRShift" | "bitwise o'"
    using o by (cases o') (auto simp: bitwise_def)
  then have "sim (GTail h vs) b b' \<sigma> (\<not> raising o') (\<lambda>\<sigma>' u. has intRepr u \<and> good F b' \<sigma>' x (embc (bitwise o' \<and> cl \<and> cr) u))
           (go_block F G n (added b b') \<sigma>) (int_op F o' i j)" (is ?main)
  proof cases
    case 1
    then have "checked (pair_name o') ?l ?r b = (x, b')"
      using low by (auto simp: helper_def pair_name_def split: prod.splits)
    then show ?main using plain [OF _ _ _ _ h] 1 by (auto simp: Overflows_def bitwise_def embc_def)
  next
    case 2
    let ?b = "guardZeroDivInt ?r b"
    have ck: "checked (pair_name o') ?l ?r ?b = (x, b')" using 2 low by (auto simp: pair_name_def split: prod.splits)
    show ?main
    proof (rule zero_div_sim [OF c ret j(3,2) checked_grow [OF ck]])
      assume "j \<noteq> 0"
      then show "sim (GTail h vs) ?b b' \<sigma> True (\<lambda>\<sigma>' u. has intRepr u \<and> good F b' \<sigma>' x (embc (bitwise o' \<and> cl \<and> cr) u))
          (go_block F G n (added ?b b') \<sigma>) (int_op F o' i j)"
        using op_sim_checked [OF i(2) j(2) _ _ _ _ _ _ ck h] c i(3) j(3) 2 by (simp add: Overflows_def bitwise_def embc_def)
    qed (use 2 in \<open>simp_all add: raising_def\<close>)
  next
    case 3
    let ?b = "guardNegShift ?r b"
    have ck: "checked (pair_name o') ?l ?r ?b = (x, b')" using 3 low by (auto simp: pair_name_def split: prod.splits)
    show ?main
    proof (rule neg_shift_sim [OF c ret j(3,2) checked_grow [OF ck]])
      assume "0 \<le> j"
      then show "sim (GTail h vs) ?b b' \<sigma> True (\<lambda>\<sigma>' u. has intRepr u \<and> good F b' \<sigma>' x (embc (bitwise o' \<and> cl \<and> cr) u))
          (go_block F G n (added ?b b') \<sigma>) (int_op F o' i j)"
        using op_sim_checked [OF i(2) j(2) _ _ _ _ _ _ ck h] c i(3) j(3) 3 by (simp add: Overflows_def bitwise_def embc_def)
    qed (use 3 in \<open>simp_all add: raising_def\<close>)
  next
    case 4
    let ?b = "guardZeroDivInt ?r b"
    have x: "x = GCall (sel runtimePkg ''FloorModInt64'') [?l, ?r]" "b' = ?b" using 4 low by auto
    show ?main
    proof (rule zero_div_sim [OF c ret j(3,2), where q = True], goal_cases)
      case 3
      then obtain u where u: "FloorModInt64 (word_of_int i) (word_of_int j) = Some u" "sint u = i mod j"
        using FloorModInt64_exact [of "word_of_int j" "word_of_int i"] i(2) j(2) by (auto simp: eq_zero_iff64)
      then have "go_call F (''rt.'' @ ''FloorModInt64'') [ig cl i, ig cr j] = Some (VInt u)"
        using i(2) j(2) by (simp add: go_call_def int_call_def)
      then show ?case
        using 3 4 ne fr u(2) [symmetric] rt_good [OF c i(3) j(3)]
        by (simp add: x sim_pure has_scalar bitwise_def embc_def)
    qed (use 4 x in \<open>simp_all add: raising_def\<close>)
  next
    case 5
    let ?b = "guardNegShift ?r b"
    have x: "x = GCall (sel runtimePkg ''RShiftInt64'') [?l, ?r]" "b' = ?b" using 5 low by auto
    show ?main
    proof (rule neg_shift_sim [OF c ret j(3,2), where q = True], goal_cases)
      case 3
      let ?u = "RShiftInt64 (word_of_int i) (word_of_int j)"
      have u: "sint ?u = i div 2 ^ nat j" using 3 RShiftInt64_exact [of "word_of_int j" "word_of_int i"] i(2) j(2) by simp
      have "go_call F (''rt.'' @ ''RShiftInt64'') [ig cl i, ig cr j] = Some (VInt ?u)"
        using i(2) j(2) by (simp add: go_call_def int_call_def)
      then show ?case
        using 3 5 ne fr u [symmetric] rt_good [OF c i(3) j(3)]
        by (simp add: x sim_pure has_scalar bitwise_def embc_def)
    qed (use 5 x in \<open>simp_all add: raising_def\<close>)
  next
    case 6
    then have x: "x = GBinary (op_tok o') ?l ?r" "b' = b" using low by (auto simp: bitwise_def)
    obtain k where "int_op F o' i j = POk (PInt k)" "in64 k" "good F b \<sigma> (GBinary (op_tok o') ?l ?r) (ig (cl \<and> cr) k)"
      by (rule bit_bin_good [OF 6 i(2) j(2) i(3) j(3)])
    moreover have "embc (cl \<and> cr) (PInt k) = ig (cl \<and> cr) k" by (rule embc_int)
    ultimately show ?main using x 6 ne fr by (simp add: sim_pure has_scalar)
  qed
  then show ?thesis by (simp only: py)
qed

end
