(* ===== verification/Emit_Exprs.thy ===== *)
theory Emit_Exprs
  imports Emit_Correct
begin

text \<open>
  The simulation of every expression form and its composition: a typed expression lowers, and running its guard
  statements either hands off with the parameter snapshot, or raises Python's exception, or leaves a Go expression
  with the value Python computes.
\<close>

section \<open>Binary operators, comparisons and connectives\<close>

lemma bin_sim:
  assumes t: "typ_bin o' lr rr lits = Some r"
    and cs: "cl \<Longrightarrow> lr \<in> set [intRepr, floatRepr]" "cr \<Longrightarrow> rr \<in> set [intRepr, floatRepr]"
    and lits: "cl \<and> lr = floatRepr \<and> cr \<and> rr = floatRepr \<Longrightarrow> lits"
    and low: "lowerBin o' lx lr rx rr b = Some ((x, r), b')" and gr: "grow b b'"
    and c: "clean S b \<sigma>" and h: "handoff h vs b' \<sigma>"
    and v: "has lr v" "has rr w" and g: "good F b \<sigma> lx (embc cl v)" "good F b \<sigma> rx (embc cr w)"
  shows "sim (GTail h vs) b b' \<sigma> (\<not> raising o') (\<lambda>\<sigma>' u. has r u \<and> good F b' \<sigma>' x (embc (bitwise o' \<and> cl \<and> cr) u))
           (go_block F G n (added b b') \<sigma>) (py_bin F o' v w)"
proof -
  have nb: "cl \<Longrightarrow> lr \<noteq> boolRepr" "cr \<Longrightarrow> rr \<noteq> boolRepr" using cs by auto
  consider "lr = strRepr" "rr = strRepr" "o' = OpAdd" "r = strRepr"
    | "lr \<in> set [intRepr, floatRepr, boolRepr]" "rr \<in> set [intRepr, floatRepr, boolRepr]" "lr = floatRepr \<or> rr = floatRepr"
      "o' \<in> {OpAdd, OpSub, OpMul, OpDiv}" "\<not> lits" "r = floatRepr"
    | "lr \<in> set [intRepr, boolRepr]" "rr \<in> set [intRepr, boolRepr]" "o' \<noteq> OpDiv" "\<not> (bitwise o' \<and> lr = boolRepr \<and> rr = boolRepr)"
      "r = intRepr"
    using t by (auto simp: typ_bin_def split: if_splits)
  then show ?thesis
  proof cases
    case 1
    then obtain p q where "v = PStr p" "w = PStr q" using v by (auto simp: has_scalar)
    moreover have "x = GBinary T_ADD lx rx" "b' = b" using 1 low by (auto simp: lowerBin_def)
    moreover have "\<not> cl" "\<not> cr" using cs 1 by auto
    ultimately show ?thesis
      using 1 c good_at [OF g(1)] good_at [OF g(2)]
      by (simp add: clean_def sim_pure has_scalar py_bin_def bitwise_def goodI go_bin_def)
  next
    case 2
    have "\<not> bitwise o'" using 2 by (auto simp: bitwise_def)
    moreover have "\<not> (cl \<and> lr = floatRepr \<and> cr \<and> rr = floatRepr)" using lits 2(5) by blast
    ultimately show ?thesis
      using float_bin_sim [OF 2(4,1,2,3) _ nb low c h v g, of G n] 2(6) by simp
  next
    case 3
    then show ?thesis using int_bin_sim [OF 3(3,1,2,4) nb low c h gr v g, of G n] by simp
  qed
qed

lemma cmp_toks: "cmp_res (cmp_tok o') lt eq = Some (ord_res o' lt eq)" "float_cmp F (cmp_tok o') a z = Some (float_ord F o' a z)"
  "cmp_tok o' \<noteq> T_LAND" "cmp_tok o' \<noteq> T_LOR" "cmp_tok o' \<noteq> T_ADD"
  by (cases o'; simp add: float_cmp_def)+

lemma bin_cmp:
  "int_bin (cmp_tok o') a z = Some (VBool (ord_res o' (sint a < sint z) (a = z)))"
  "const_bin (cmp_tok o') i j = Some (VBool (ord_res o' (i < j) (i = j)))"
  "float_bin F (cmp_tok o') p q = Some (VBool (float_ord F o' p q))"
  by (cases o'; simp add: int_bin_def const_bin_def float_bin_def float_cmp_def)+

lemma word_of_int_inj64: "in64 i \<Longrightarrow> in64 j \<Longrightarrow> (word_of_int i :: int64) = word_of_int j \<longleftrightarrow> i = j"
  using sint_word_of_int_in64 by metis

lemma lowerCmp_ok:
  assumes t: "typ_cmp o' lr rr = Some r" and cs: "cl \<Longrightarrow> lr \<in> set [intRepr, floatRepr]" "cr \<Longrightarrow> rr \<in> set [intRepr, floatRepr]"
  shows "r = boolRepr \<and> (\<exists>x. lowerCmp o' lx lr rx rr = Some (x, boolRepr) \<and>
    (\<forall>b \<sigma> v w. has lr v \<longrightarrow> has rr w \<longrightarrow> good F b \<sigma> lx (embc cl v) \<longrightarrow> good F b \<sigma> rx (embc cr w) \<longrightarrow>
       (\<exists>u. py_cmp F o' v w = POk (PBool u) \<and> good F b \<sigma> x (VBool u))))"
proof -
  let ?x = "GBinary (cmp_tok o') lx rx"
  have bin: "good F b \<sigma> ?x u" if "good F b \<sigma> lx p" "good F b \<sigma> rx q" "go_bin F (cmp_tok o') p q = Some u" for b \<sigma> p q u
    using that by (intro goodI) (simp add: good_at cmp_toks)
  consider "lr = intRepr" "rr = intRepr" | "lr = floatRepr" "rr = floatRepr" | "lr = strRepr" "rr = strRepr"
    | "lr = boolRepr" "rr = boolRepr" "\<not> ordered o'"
    using t by (auto simp: typ_cmp_def split: if_splits)
  then have "lowerCmp o' lx lr rx rr = Some (?x, boolRepr) \<and>
    (\<forall>b \<sigma> v w. has lr v \<longrightarrow> has rr w \<longrightarrow> good F b \<sigma> lx (embc cl v) \<longrightarrow> good F b \<sigma> rx (embc cr w) \<longrightarrow>
       (\<exists>u. py_cmp F o' v w = POk (PBool u) \<and> good F b \<sigma> ?x (VBool u)))"
  proof cases
    case 1
    have "go_bin F (cmp_tok o') (ig cl i) (ig cr j) = Some (VBool (ord_res o' (i < j) (i = j)))" if "in64 i" "in64 j" for i j
      using that by (simp add: ig_def go_bin_def bin_cmp word_of_int_inj64)
    then show ?thesis
      using 1 bin by (fastforce simp: lowerCmp_def arith_def has_scalar embc_int)
  next
    case 2
    have "go_bin F (cmp_tok o') (fg cl p) (fg cr q) = Some (VBool (float_ord F o' p q))" for p q
      by (simp add: fg_def go_bin_def bin_cmp cmp_toks)
    moreover have "embc c (PFloat p) = fg c p" for c p by (cases c) (simp_all add: embc_def fg_def)
    ultimately show ?thesis
      using 2 bin by (fastforce simp: lowerCmp_def arith_def has_scalar toFloat_def)
  next
    case 3
    then have "\<not> cl" "\<not> cr" using cs by auto
    moreover have "go_bin F (cmp_tok o') (VStr p) (VStr q) = Some (VBool (ord_res o' (p < q) (p = q)))" for p q
      by (simp add: go_bin_def cmp_toks)
    ultimately show ?thesis using 3 bin by (fastforce simp: lowerCmp_def arith_def has_scalar)
  next
    case 4
    then have "\<not> cl" "\<not> cr" using cs by auto
    moreover have "go_bin F (cmp_tok o') (VBool p) (VBool q) = Some (VBool (ord_res o' (of_bool p < (of_bool q :: int)) (of_bool p = (of_bool q :: int))))" for p q
      using 4(3) by (cases o') (auto simp: go_bin_def ordered_def)
    ultimately show ?thesis using 4 bin by (fastforce simp: lowerCmp_def arith_def has_scalar)
  qed
  then show ?thesis using t by (auto simp: typ_cmp_def split: if_splits)
qed

lemma parenConn_eval [simp]: "go_eval F \<sigma> (parenConn x) = go_eval F \<sigma> x"
  by (cases x) auto

lemma paren_binary_eval [simp]: "go_eval F \<sigma> (paren_binary x) = go_eval F \<sigma> x"
  by (cases x) auto

text \<open>The value of a connective: the operand Python returns.\<close>

lemma conn_ok:
  assumes t: "t = T_LAND \<or> t = T_LOR" and r: "r \<in> set scalar_reprs" and cs: "cl \<Longrightarrow> r \<in> set [intRepr, floatRepr]" "cr \<Longrightarrow> r \<in> set [intRepr, floatRepr]"
    and q: "\<not> HasRaisingGuard e"
  shows "\<exists>x. lowerBoolBin t lx r rx r e = Some (x, r) \<and>
    (\<forall>S b \<sigma> v w. clean S b \<sigma> \<longrightarrow> has r v \<longrightarrow> has r w \<longrightarrow> good F b \<sigma> lx (embc cl v) \<longrightarrow> good F b \<sigma> rx (embc cr w) \<longrightarrow>
       good F b \<sigma> x (emb (if truth F v = (t = T_LOR) then v else w)))"
proof (cases "r = boolRepr")
  case True
  then have "\<not> cl" "\<not> cr" using cs by auto
  then show ?thesis
    using True t q by (auto simp: lowerBoolBin_def has_scalar good_at intro!: goodI)
next
  case False
  then obtain name where name: "valueConnHelper t (repr_Scalar r) = Some name"
    using r by (auto simp: scalar_reprs_iff valueConnHelper_def Let_def)
  let ?x = "GCall (sel runtimePkg name) [lx, rx]"
  have "go_call F (''rt.'' @ name) [embc cl v, embc cr w] = Some (emb (if truth F v = (t = T_LOR) then v else w))"
    if vw: "has r v" "has r w" for v w
  proof -
    consider i j where "v = PInt i" "w = PInt j" "in64 i" "in64 j" "r = intRepr"
      | p q where "v = PFloat p" "w = PFloat q" "r = floatRepr"
      | p q where "v = PStr p" "w = PStr q" "r = strRepr"
      using vw r False by (auto simp: scalar_reprs_iff has_scalar)
    then show ?thesis
    proof cases
      case 1
      then have "(word_of_int i :: int64) = 0 \<longleftrightarrow> i = 0" by (simp add: eq_zero_iff64)
      then show ?thesis
        using 1 name t by (auto simp: valueConnHelper_def go_call_def int_call_def embc_int OrInt64_def AndInt64_def)
    next
      case 2
      then have "embc cl v = fg cl p" "embc cr w = fg cr q" by (auto simp: embc_def fg_def)
      then show ?thesis
        using 2 name t by (auto simp: valueConnHelper_def go_call_def float_call_def OrFloat64_def AndFloat64_def)
    next
      case 3
      then have "\<not> cl" "\<not> cr" using cs by auto
      then show ?thesis
        using 3 name t by (auto simp: valueConnHelper_def go_call_def str_call_def OrStr_def AndStr_def)
    qed
  qed
  then have "good F b \<sigma> ?x (emb (if truth F v = (t = T_LOR) then v else w))"
    if "clean S b \<sigma>" "has r v" "has r w" "good F b \<sigma> lx (embc cl v)" "good F b \<sigma> rx (embc cr w)" for S b \<sigma> v w
    using that rt_good by blast
  moreover have "lowerBoolBin t lx r rx r e = Some (?x, r)"
    using False q name r by (auto simp: lowerBoolBin_def scalar_reprs_iff)
  ultimately show ?thesis by blast
qed

lemma lowerNot_ok:
  "\<exists>x'. lowerNot x boolRepr = Some (x', boolRepr) \<and> (\<forall>b \<sigma> t. good F b \<sigma> x (VBool t) \<longrightarrow> good F b \<sigma> x' (VBool (\<not> t)))"
  by (auto simp: lowerNot_def good_at intro!: goodI)

section \<open>Lists and attributes\<close>

lemma conv_scalar:
  assumes "r \<in> set scalar_reprs" and "has r v" and "c \<Longrightarrow> r \<in> set [intRepr, floatRepr]"
  shows "conv_type F (goType r) (embc c v) = Some (emb v)"
  using assms by (cases c) (auto simp: scalar_reprs_iff has_scalar embc_def)

lemma conv_value:
  assumes "r \<in> set value_reprs" and "has r v" and "c \<Longrightarrow> r \<in> set [intRepr, floatRepr]"
  shows "conv_type F (goType r) (embc c v) = Some (emb v)"
  using assms(1)
proof (cases rule: value_reprs_cases)
  case 1
  then show ?thesis using assms by (intro conv_scalar)
next
  case (2 el)
  then have "\<not> c" using assms(3) by (auto simp: listRepr_def repr_defs)
  then show ?thesis using 2 assms(2) by (cases v) (auto simp: has_def)
qed

lemma has_list: "has (listRepr el) v \<longleftrightarrow> (\<exists>vs. v = PList vs \<and> in64 (int (length vs)) \<and> list_all (scalar_has (repr_Scalar el)) vs)"
  by (cases v) (auto simp: has_def)

lemma scalar_has_iff: "r \<in> set scalar_reprs \<Longrightarrow> scalar_has (repr_Scalar r) v \<longleftrightarrow> has r v"
  by (auto simp: scalar_reprs_iff has_def)

lemma those_conv:
  assumes "list_all2 (\<lambda>g v. f g = Some v) gs vs"
  shows "those (map f gs) = Some vs"
  using assms by (induction rule: list_all2_induct) auto

text \<open>Arguments of a literal or a call, each good for its own value.\<close>

definition goods :: "fops \<Rightarrow> builder \<Rightarrow> genv \<Rightarrow> gexpr list \<Rightarrow> eexpr list \<Rightarrow> pval list \<Rightarrow> bool" where
  "goods F b \<sigma> xs es vs \<longleftrightarrow> list_all2 (\<lambda>(x, e) v. good F b \<sigma> x (embc (is_const e) v)) (zip xs es) vs \<and> length xs = length es"

lemma goods_eval:
  assumes "goods F b \<sigma> xs es vs" and "ext b \<sigma> \<sigma>'"
  shows "those (map (go_eval F \<sigma>') xs) = Some (map (\<lambda>(e, v). embc (is_const e) v) (zip es vs))"
proof -
  have "length xs = length es" "length es = length vs"
    using assms(1) by (auto simp: goods_def dest: list_all2_lengthD)
  then show ?thesis using assms
  proof (induction xs es vs rule: list_induct3)
    case (Cons x xs e es v vs)
    then have "go_eval F \<sigma>' x = Some (embc (is_const e) v)" by (intro good_at [of F b \<sigma>]) (simp_all add: goods_def)
    then show ?case using Cons by (simp add: goods_def)
  qed simp
qed

lemma lowerListLit_ok:
  assumes "el \<in> set scalar_reprs" and "list_all (\<lambda>r. r = el) rs" and "length xs = length rs"
  shows "\<exists>x. lowerListLit el (zip xs rs) = Some (x, listRepr el) \<and>
    (\<forall>b \<sigma> es vs. goods F b \<sigma> xs es vs \<longrightarrow> list_all2 has rs vs \<longrightarrow> (\<forall>e\<in>set es. is_const e \<longrightarrow> el \<in> set [intRepr, floatRepr]) \<longrightarrow>
       good F b \<sigma> x (emb (PList vs)))"
proof -
  have "those (map (list_item el) (zip xs rs)) = Some xs"
    using assms(3,2) by (induction xs rs rule: list_induct2) (auto simp: list_item_def)
  moreover have "good F b \<sigma> (GComposite (GArrayType (goType el)) xs) (VList (map emb vs))"
    if g: "goods F b \<sigma> xs es vs" "list_all2 has rs vs" "\<forall>e\<in>set es. is_const e \<longrightarrow> el \<in> set [intRepr, floatRepr]" for b \<sigma> es vs
  proof (rule goodI)
    fix \<sigma>' assume e: "ext b \<sigma> \<sigma>'"
    have len: "length es = length vs" "length rs = length vs"
      using g(1,2) by (auto simp: goods_def dest: list_all2_lengthD)
    have "list_all2 (\<lambda>g v. conv_type F (goType el) g = Some v) (map (\<lambda>(e, v). embc (is_const e) v) (zip es vs)) (map emb vs)"
      using len g(2,3) assms(2)
    proof (induction es vs arbitrary: rs rule: list_induct2)
      case (Cons e es v vs)
      then obtain rs' where "rs = el # rs'" by (cases rs) auto
      then show ?case using Cons conv_scalar [OF assms(1), of v "is_const e" F] by auto
    qed simp
    from those_conv [OF this]
    show "go_eval F \<sigma>' (GComposite (GArrayType (goType el)) xs) = Some (VList (map emb vs))"
      using goods_eval [OF g(1) e] by simp
  qed
  ultimately show ?thesis by (simp add: lowerListLit_def)
qed

lemma map_of_emb: "map_of (map (map_prod id emb) fs) n = map_option emb (map_of fs n)"
  by (induction fs) auto

lemma lowerAttr_ok:
  assumes "repr_Shape br = Some s" and "Shape_Field s n = Some fr" and "repr_Elem br = None" and "fr \<in> set scalar_reprs"
  shows "lowerAttr bx br n = Some (GSelector bx n, fr) \<and>
    (\<forall>b \<sigma> v. has br v \<longrightarrow> good F b \<sigma> bx (emb v) \<longrightarrow>
       (\<exists>w. py_attr v n = POk w \<and> has fr w \<and> good F b \<sigma> (GSelector bx n) (emb w)))"
proof -
  obtain f where f: "f \<in> set (shape_Fields s)" "sf_Name f = n" "sf_Repr f = fr"
    using assms(2) nth_mem by (fastforce simp: Shape_Field_def find_Some_iff)
  have "\<exists>w. py_attr v n = POk w \<and> has fr w \<and> good F b \<sigma> (GSelector bx n) (emb w)" if hv: "has br v" "good F b \<sigma> bx (emb v)" for b \<sigma> v
  proof -
    obtain fs where fs: "v = PObj fs" using hv(1) assms(1,3) by (cases v) (auto simp: has_def)
    then obtain w where "map_of fs n = Some w" "scalar_has (repr_Scalar fr) w"
      using hv(1) f assms(1,3) by (auto simp: has_def list_all_iff split: option.splits)
    then show ?thesis
      using fs hv(2) assms(4) by (auto simp: py_attr_def scalar_has_iff good_at map_of_emb intro!: goodI)
  qed
  then show ?thesis using assms by (simp add: lowerAttr_def)
qed

section \<open>Guarded reads and calls\<close>

lemma sint_of_nat64: "in64 (int k) \<Longrightarrow> sint (of_nat k :: int64) = int k"
  using sint_word_of_int_in64 [of "int k"] by simp

lemma lowerIndex_sim:
  assumes low: "lowerIndex bx (listRepr el) ix intRepr b = Some ((x, el'), b')" and el: "el \<in> set scalar_reprs"
    and c: "clean S b \<sigma>" and h: "handoff h vs b' \<sigma>"
    and v: "has (listRepr el) v" "has intRepr w" and g: "good F b \<sigma> bx (emb v)" "good F b \<sigma> ix (emb w)"
  shows "sim (GTail h vs) b b' \<sigma> q (\<lambda>\<sigma>' u. has el u \<and> good F b' \<sigma>' x (emb u)) (go_block F G n (added b b') \<sigma>) (py_index v w)"
proof -
  let ?t = "tmp_name (nTmp b)" and ?i = "tmp_name (Suc (nTmp b))"
  let ?b1 = "b\<lparr>nTmp := Suc (Suc (nTmp b))\<rparr>"
  let ?oob = "GBinary T_LOR (GBinary T_LSS (GIdent ?i) (GIntLit 0))
                (GBinary T_GEQ (GIdent ?i) (GCall (GIdent ''int64'') [GCall (GIdent ''len'') [GIdent ?t]]))"
  let ?ps = "[define_stmt ?t bx, define_stmt ?i ix, ifStmt ?oob [fst (deoptEdge ?b1)]]"
  have x: "x = GIndex (GIdent ?t) (GIdent ?i)" and b': "b' = emit ?ps (snd (deoptEdge ?b1))"
    using low by (auto simp: lowerIndex_def temp_def Let_def split: prod.splits)
  obtain us where us: "v = PList us" "in64 (int (length us))" "list_all (scalar_has (repr_Scalar el)) us"
    using v(1) by (auto simp: has_list)
  obtain i where i: "w = PInt i" "in64 i" using v(2) by (auto simp: has_scalar)
  let ?\<sigma>1 = "(hd \<sigma>)(?t \<mapsto> VList (map emb us)) # tl \<sigma>"
  let ?\<sigma> = "(hd \<sigma>)(?t \<mapsto> VList (map emb us), ?i \<mapsto> VInt (word_of_int i)) # tl \<sigma>"
  have ne: "\<sigma> \<noteq> []" and fr: "fresh b \<sigma>" using c by (simp_all add: clean_def)
  have e1: "ext b \<sigma> ?\<sigma>1" and e: "ext b \<sigma> ?\<sigma>" and f: "fresh b' ?\<sigma>" using ne fr
    by (auto simp: ext_def fresh_def b' emit_def later_def deoptEdge_adv dest!: Suc_leD)
  have h1: "handoff h vs (snd (deoptEdge ?b1)) \<sigma>" using h by (rule handoff_adv) (simp add: b' emit_def)
  have p1: "go_stmt F G n (define_stmt ?t bx) \<sigma> = GNext ?\<sigma>1"
    using good_eval [OF g(1) ne] fr ne us(1)
    by (simp add: define_stmt_def go_assign_def eval_rhs_def go_declare_one fresh_def next_or_stuck_def)
  have p2: "go_stmt F G n (define_stmt ?i ix) ?\<sigma>1 = GNext ?\<sigma>"
    using good_at [OF g(2) e1] fr i(1)
    by (simp add: define_stmt_def go_assign_def eval_rhs_def go_declare_one fresh_def next_or_stuck_def)
  let ?out = "i < 0 \<or> int (length us) \<le> i"
  have "go_eval F ?\<sigma> ?oob = Some (VBool ?out)"
    using clean_reserved(3,4) [OF c e] us(2) i(2) by (simp add: go_call_def go_bin_def int_bin_def in64_0 sint_of_nat64 not_less)
  then have "go_block F G n ?ps \<sigma> = (if ?out then GTail h vs else GNext ?\<sigma>)"
    using p1 p2 go_edge(2) [OF h1 e] by simp
  moreover have "good F b' ?\<sigma> x (emb (us ! nat i))" if "\<not> ?out"
    using that i(2) by (intro goodI) (auto simp: x ext_glook b' emit_def deoptEdge_adv nat_less_iff not_less)
  moreover have "has el (us ! nat i)" if "\<not> ?out"
    using that us(3) el by (simp add: scalar_has_iff list_all_length nat_less_iff)
  moreover have "added b b' = ?ps" by (simp add: added_def b' deoptEdge_adv)
  ultimately show ?thesis
    using e f go_edge(1) [OF h1 e] by (auto simp: sim_def us(1) i(1) py_index_def b')
qed

lemma lowerIndex_total:
  "\<exists>x b'. lowerIndex bx (listRepr el) ix intRepr b = Some ((x, el), b') \<and> grow b b'"
  by (auto simp: lowerIndex_def temp_def Let_def deoptEdge_def emit_def grow_def adv_def split: prod.splits)

lemma lowerCall_grow: "lowerCall f xs r b = ((x, r'), b') \<Longrightarrow> r' = r \<and> grow b b'"
  by (auto simp: lowerCall_def temp_def errName_def Let_def emit_def grow_def adv_def)

end
