(* ===== verification/Emit_Sim.thy ===== *)
theory Emit_Sim
  imports Emit_Exprs
begin

text \<open>
  The simulation theorem for expressions, over the interface to the static functions an expression calls directly.
\<close>

section \<open>Composing simulations\<close>

lemma sim_mono:
  assumes "sim H b b' \<sigma> q P out pr" and "\<And>\<sigma>' v. ext b \<sigma> \<sigma>' \<Longrightarrow> fresh b' \<sigma>' \<Longrightarrow> P \<sigma>' v \<Longrightarrow> Q \<sigma>' v" and "q' \<Longrightarrow> q"
  shows "sim H b b' \<sigma> q' Q out pr"
  using assms by (cases pr) (auto simp: sim_def)

lemma sim_handed: "sim H b b' \<sigma> True P out (PRaise c m) \<Longrightarrow> sim H b b' \<sigma> q Q out pr"
  by (simp add: sim_def)

lemma sim_raise_any: "sim H b b' \<sigma> q P out (PRaise c m) \<Longrightarrow> sim H b b' \<sigma> q Q out (PRaise c m)"
  by (simp add: sim_def)

lemma two_sim:
  assumes gr: "grow b b1" "grow b1 b2" "grow b2 b3"
    and L: "sim (GTail h vs) b b1 \<sigma> ql (\<lambda>\<sigma>' v. has lr v \<and> good F b1 \<sigma>' lx (embc cl v)) (go_block F G n (added b b1) \<sigma>) pl"
    and R: "\<And>\<sigma>1. ext b \<sigma> \<sigma>1 \<Longrightarrow> fresh b1 \<sigma>1 \<Longrightarrow>
      sim (GTail h vs) b1 b2 \<sigma>1 qr (\<lambda>\<sigma>' w. has rr w \<and> good F b2 \<sigma>' rx (embc cr w)) (go_block F G n (added b1 b2) \<sigma>1) pr"
    and O: "\<And>\<sigma>2 v w. ext b \<sigma> \<sigma>2 \<Longrightarrow> fresh b2 \<sigma>2 \<Longrightarrow> has lr v \<Longrightarrow> has rr w \<Longrightarrow>
      good F b2 \<sigma>2 lx (embc cl v) \<Longrightarrow> good F b2 \<sigma>2 rx (embc cr w) \<Longrightarrow>
      sim (GTail h vs) b2 b3 \<sigma>2 qo P (go_block F G n (added b2 b3) \<sigma>2) (f v w)"
    and q: "q \<Longrightarrow> ql \<and> qr \<and> qo"
  shows "sim (GTail h vs) b b3 \<sigma> q P (go_block F G n (added b b3) \<sigma>) (pbind pl (\<lambda>v. pbind pr (f v)))"
proof (rule sim_grow [OF gr(1) _ L])
  show "grow b1 b3" using grow_trans [OF gr(2,3)] by simp
next
  fix \<sigma>1 v
  assume e: "ext b \<sigma> \<sigma>1" "fresh b1 \<sigma>1" and v: "has lr v \<and> good F b1 \<sigma>1 lx (embc cl v)"
  have "sim (GTail h vs) b1 b2 \<sigma>1 qr
      (\<lambda>\<sigma>' w. ext b \<sigma> \<sigma>' \<and> has rr w \<and> good F b2 \<sigma>' lx (embc cl v) \<and> good F b2 \<sigma>' rx (embc cr w)) (go_block F G n (added b1 b2) \<sigma>1) pr"
    using v e(1) ext_trans [OF e(1) _ grow_adv [OF gr(1)]] good_mono [OF _ _ grow_adv [OF gr(2)]]
    by (intro sim_mono [OF R [OF e]]) blast+
  then show "sim (GTail h vs) b1 b3 \<sigma>1 (qr \<and> qo) P (go_block F G n (added b1 b3) \<sigma>1) (pbind pr (f v))"
    by (rule sim_grow [OF gr(2,3), where q' = qo]) (use O v in auto)
qed (use q in auto)

text \<open>A quiet operand whose value Python may not ask for.\<close>

lemma sim_replace:
  assumes "sim H b b' \<sigma> True P out pr" and "\<And>\<sigma>' w. pr = POk w \<Longrightarrow> P \<sigma>' w \<Longrightarrow> \<exists>u. pr' = POk u \<and> Q \<sigma>' u"
  shows "sim H b b' \<sigma> q Q out pr'"
  using assms by (cases pr) (fastforce simp: sim_def)+

text \<open>An operation that emits nothing.\<close>

lemma sim_done: "ext b0 \<sigma>0 \<sigma> \<Longrightarrow> fresh b \<sigma> \<Longrightarrow> P \<sigma> v \<Longrightarrow> sim H b b \<sigma> q P (go_block F G n (added b b) \<sigma>) (POk v)"
  using ext_nonempty by (simp add: sim_pure)

section \<open>Calls\<close>

definition consts_ok :: "eexpr list \<Rightarrow> repr list \<Rightarrow> bool" where
  "consts_ok es rs \<longleftrightarrow> list_all2 (\<lambda>e r. is_const e \<longrightarrow> r \<in> set [intRepr, floatRepr]) es rs"

lemma args_conv:
  assumes "list_all2 has rs us" and "consts_ok es rs" and "set rs \<subseteq> set value_reprs"
  shows "list_all2 (\<lambda>(r, g) v. conv_type F (goType r) g = Some (emb v)) (zip rs (map (\<lambda>(e, v). embc (is_const e) v) (zip es us))) us"
proof -
  have "length rs = length us" "length es = length rs" using assms by (auto simp: consts_ok_def dest: list_all2_lengthD)
  then show ?thesis
    using assms
  proof (induction rs us arbitrary: es rule: list_induct2)
    case (Cons r rs u us)
    then obtain e es' where "es = e # es'" by (cases es) auto
    then show ?case using Cons conv_value [of r u "is_const e" F] by (auto simp: consts_ok_def)
  qed simp
qed

lemma go_error_check:
  assumes "b_ret b \<in> set value_reprs" and "glook \<sigma> ''false'' = None" and "glook \<sigma> ''nil'' = None" and "glook \<sigma> e = Some z"
    and "z = VNil \<or> z = VErr k m"
  shows "go_stmt F G n (error_check e b) \<sigma> = (if z = VNil then GNext \<sigma> else GRet [zero_val (b_ret b), z])"
proof -
  have t: "go_eval F \<sigma> (GBinary T_NEQ (GIdent e) (GIdent ''nil'')) = Some (VBool (z \<noteq> VNil))"
    using assms(3-5) by (auto simp: go_bin_def)
  show ?thesis
  proof (cases "z = VNil")
    case True
    then show ?thesis unfolding error_check_def using t by (subst go_ifStmt_false) simp_all
  next
    case False
    then show ?thesis
      unfolding error_check_def using t assms(4) go_zero [OF assms(1-3), of F]
      by (subst go_guard_true) (simp_all add: go_return_two)
  qed
qed

section \<open>What the types give\<close>

lemma const_typ: "typ_of S \<Gamma> e = Some r \<Longrightarrow> is_const e \<Longrightarrow> r \<in> set [intRepr, floatRepr] \<and> (r = floatRepr \<longrightarrow> float_lit e)"
proof (induction e arbitrary: r)
  case (EBin o' l r')
  then show ?case by (auto simp: typ_bin_def bitwise_def split: bind_splits if_splits)
qed (auto split: if_splits)

lemma quiet_no_guard: "quiet e \<Longrightarrow> \<not> HasRaisingGuard e"
  by (induction e) (auto simp: raising_def)

lemma consts_typs: "typs_of S \<Gamma> es = Some rs \<Longrightarrow> consts_ok es rs"
  by (induction es arbitrary: rs) (auto simp: consts_ok_def dest: const_typ split: bind_splits)

section \<open>The interface to the functions called\<close>

text \<open>What a caller relies on of the functions it calls directly: for arguments of the declared representations the
  Go function returns the Go form of what the Python function returns, or its exception on the error channel.\<close>

locale static_calls =
  fixes F :: fops and G :: gfuns and pc :: pcalls and S :: sigs
  assumes call_name: "S f = Some sg \<Longrightarrow> user_name f \<and> CHR ''.'' \<notin> set f"
    and call_ok: "S f = Some (rs, r) \<Longrightarrow> list_all2 has rs vs \<Longrightarrow>
      list_all2 (\<lambda>(r, g) v. conv_type F (goType r) g = Some (emb v)) (zip rs gs) vs \<Longrightarrow> length gs = length vs \<Longrightarrow>
      (case pc f vs of
         POk v \<Rightarrow> has r v \<and> G f gs = Some [emb v, VNil]
       | PRaise c m \<Rightarrow> \<exists>z. G f gs = Some [z, VErr c m] \<and> defaulted z = Some z
       | PUndef \<Rightarrow> False)"
begin

lemma go_multi_call:
  assumes "S f = Some sg"
  shows "go_multi G f vs = G f vs"
proof -
  have "f \<noteq> ''rt.'' @ g" for g using call_name [OF assms] by auto
  from this [of "''AddInt64''"] this [of "''SubInt64''"] this [of "''MulInt64''"] this [of "''FloorDivInt64''"]
    this [of "''PowInt64''"] this [of "''LShiftInt64''"]
  show ?thesis unfolding go_multi_def by simp
qed

lemma lowerCall_sim:
  assumes sg: "S f = Some (rs, r)" "set rs \<subseteq> set value_reprs" and us: "list_all2 has rs us" "consts_ok es rs" "goods F b \<sigma> xs es us"
    and low: "lowerCall f xs r b = ((x, r), b')" and c: "clean S b \<sigma>" and h: "handoff h vs b' \<sigma>"
  shows "sim (GTail h vs) b b' \<sigma> False (\<lambda>\<sigma>' u. has r u \<and> good F b' \<sigma>' x (emb u)) (go_block F G n (added b b') \<sigma>) (pc f us)"
proof -
  let ?t = "tmp_name (nTmp b)" and ?e = "err_name (nErr b)"
  let ?ps = "[GAssign [GIdent ?t, GIdent ?e] T_DEFINE [GCall (GIdent f) xs], error_check ?e b]"
  let ?gs = "map (\<lambda>(e, v). embc (is_const e) v) (zip es us)"
  have x: "x = GIdent ?t" and b': "b' = emit ?ps (b\<lparr>nTmp := nTmp b + 1, nErr := nErr b + 1\<rparr>)"
    using low by (auto simp: lowerCall_def temp_def errName_def Let_def error_check_def)
  have ne: "\<sigma> \<noteq> []" and fr: "fresh b \<sigma>" and f: "glook \<sigma> f = None" using c sg(1) by (auto simp: clean_def)
  have len: "length ?gs = length us" using us by (auto simp: consts_ok_def dest!: list_all2_lengthD)
  let ?\<sigma> = "\<lambda>g z. (hd \<sigma>)(?t \<mapsto> g, ?e \<mapsto> z) # tl \<sigma>"
  have st: "ext b \<sigma> (?\<sigma> g z) \<and> fresh b' (?\<sigma> g z)" for g z using ne fr
    by (auto simp: ext_def fresh_def b' emit_def later_def dest!: Suc_leD)
  have asg: "go_stmt F G n (hd ?ps) \<sigma> = GNext (?\<sigma> g z)"
    if "G f ?gs = Some [g, z]" "defaulted g = Some g" "defaulted z = Some z" for g z
    using that ne fr f goods_eval [OF us(3), of \<sigma>] go_multi_call [OF sg(1)]
    by (simp add: go_assign_def eval_rhs_def go_declare_two next_or_stuck_def fresh_def)
  note ok = call_ok [OF sg(1) us(1) args_conv [OF us(1,2) sg(2)] len]
  have ret: "b_ret b \<in> set value_reprs" using h by (simp add: handoff_def b')
  have chk: "go_stmt F G n (error_check ?e b) (?\<sigma> g z) = (if z = VNil then GNext (?\<sigma> g z) else GRet [zero_val (b_ret b), z])"
    if "z = VNil \<or> z = VErr k m" for g z k m
    using that clean_reserved(6,7) [OF c conjunct1 [OF st], of g z] by (intro go_error_check ret) simp_all
  have ad: "added b b' = ?ps" by (simp add: added_def b')
  show ?thesis
  proof (cases "pc f us")
    case (POk u)
    then have "G f ?gs = Some [emb u, VNil]" "has r u" using ok by simp_all
    moreover have "defaulted (emb u) = Some (emb u)" by (cases u) simp_all
    moreover have "good F b' (?\<sigma> (emb u) VNil) x (emb u)"
      by (auto simp: x good_def ext_glook b' emit_def)
    ultimately show ?thesis using POk asg chk [of VNil] st by (simp add: ad sim_def)
  next
    case (PRaise k m)
    then obtain z where "G f ?gs = Some [z, VErr k m]" "defaulted z = Some z" using ok by auto
    then show ?thesis using PRaise asg chk [of "VErr k m" k m] by (simp add: ad sim_def)
  qed (use ok in simp)
qed

text \<open>The simulation of an expression from one builder state to the next.\<close>

definition esim_at :: "nat \<Rightarrow> (string \<Rightarrow> repr option) \<Rightarrow> penv \<Rightarrow> string \<Rightarrow> gval list \<Rightarrow> eexpr \<Rightarrow> repr \<Rightarrow> builder \<Rightarrow> gexpr \<Rightarrow> builder \<Rightarrow> bool" where
  "esim_at n \<Gamma> \<rho> h vs e r b x b' \<longleftrightarrow>
     lowerExpr e b = Some ((x, r), b') \<and> grow b b' \<and>
     (\<forall>\<sigma>. clean S b \<sigma> \<longrightarrow> vars_ok \<Gamma> \<rho> \<sigma> \<longrightarrow> handoff h vs b' \<sigma> \<longrightarrow>
       sim (GTail h vs) b b' \<sigma> (quiet e) (\<lambda>\<sigma>' v. has r v \<and> good F b' \<sigma>' x (embc (is_const e) v))
         (go_block F G n (added b b') \<sigma>) (peval F pc \<rho> e))"

definition esim :: "nat \<Rightarrow> (string \<Rightarrow> repr option) \<Rightarrow> penv \<Rightarrow> string \<Rightarrow> gval list \<Rightarrow> eexpr \<Rightarrow> bool" where
  "esim n \<Gamma> \<rho> h vs e \<longleftrightarrow> (\<forall>r b. typ_of S \<Gamma> e = Some r \<longrightarrow> (\<exists>x b'. esim_at n \<Gamma> \<rho> h vs e r b x b'))"

lemma esimE:
  assumes "esim n \<Gamma> \<rho> h vs e" and "typ_of S \<Gamma> e = Some r"
  obtains x b' where "esim_at n \<Gamma> \<rho> h vs e r b x b'"
  using assms unfolding esim_def by blast

lemma esimI: "(\<And>r b. typ_of S \<Gamma> e = Some r \<Longrightarrow> \<exists>x b'. esim_at n \<Gamma> \<rho> h vs e r b x b') \<Longrightarrow> esim n \<Gamma> \<rho> h vs e"
  by (simp add: esim_def)

lemma esim_leaf:
  assumes "\<And>r b. typ_of S \<Gamma> e = Some r \<Longrightarrow> \<exists>x. lowerExpr e b = Some ((x, r), b) \<and>
      (\<forall>\<sigma>. clean S b \<sigma> \<longrightarrow> vars_ok \<Gamma> \<rho> \<sigma> \<longrightarrow> (\<exists>v. peval F pc \<rho> e = POk v \<and> has r v \<and> good F b \<sigma> x (embc (is_const e) v)))"
  shows "esim n \<Gamma> \<rho> h vs e"
proof (rule esimI)
  fix r b assume "typ_of S \<Gamma> e = Some r"
  from assms [OF this] obtain x where x: "lowerExpr e b = Some ((x, r), b)"
    "\<forall>\<sigma>. clean S b \<sigma> \<longrightarrow> vars_ok \<Gamma> \<rho> \<sigma> \<longrightarrow> (\<exists>v. peval F pc \<rho> e = POk v \<and> has r v \<and> good F b \<sigma> x (embc (is_const e) v))"
    by blast
  have "sim (GTail h vs) b b \<sigma> (quiet e) (\<lambda>\<sigma>' v. has r v \<and> good F b \<sigma>' x (embc (is_const e) v)) (go_block F G n (added b b) \<sigma>) (peval F pc \<rho> e)"
    if c: "clean S b \<sigma>" "vars_ok \<Gamma> \<rho> \<sigma>" for \<sigma>
  proof -
    obtain v where "peval F pc \<rho> e = POk v" "has r v" "good F b \<sigma> x (embc (is_const e) v)" using x(2) c by blast
    then show ?thesis using c(1) by (simp add: clean_def sim_pure)
  qed
  then have "esim_at n \<Gamma> \<rho> h vs e r b x b" using x(1) by (simp add: esim_at_def)
  then show "\<exists>x b'. esim_at n \<Gamma> \<rho> h vs e r b x b'" by blast
qed

text \<open>Two operands, then an operation.\<close>

lemma esim_two:
  assumes l: "esim_at n \<Gamma> \<rho> h vs l lr b lx b1" and r: "esim_at n \<Gamma> \<rho> h vs r rr b1 rx b2"
    and low: "lowerExpr e b = Some ((x, t), b3)" "grow b2 b3"
    and op: "\<And>\<sigma> v w. clean S b2 \<sigma> \<Longrightarrow> handoff h vs b3 \<sigma> \<Longrightarrow> has lr v \<Longrightarrow> has rr w \<Longrightarrow>
          good F b2 \<sigma> lx (embc (is_const l) v) \<Longrightarrow> good F b2 \<sigma> rx (embc (is_const r) w) \<Longrightarrow>
          sim (GTail h vs) b2 b3 \<sigma> qo (\<lambda>\<sigma>' v. has t v \<and> good F b3 \<sigma>' x (embc (is_const e) v)) (go_block F G n (added b2 b3) \<sigma>) (f v w)"
    and q: "quiet e \<Longrightarrow> quiet l \<and> quiet r \<and> qo"
    and pe: "peval F pc \<rho> e = pbind (peval F pc \<rho> l) (\<lambda>v. pbind (peval F pc \<rho> r) (f v))"
  shows "esim_at n \<Gamma> \<rho> h vs e t b x b3"
  unfolding esim_at_def
proof (intro conjI allI impI)
  have gr: "grow b b1" "grow b1 b2" using l r by (simp_all add: esim_at_def)
  then show "grow b b3" using low(2) grow_trans by blast
  fix \<sigma> assume c: "clean S b \<sigma>" and v: "vars_ok \<Gamma> \<rho> \<sigma>" and hd: "handoff h vs b3 \<sigma>"
  have h2: "handoff h vs b2 \<sigma>" by (rule handoff_adv [OF hd grow_adv [OF low(2)]])
  have h1: "handoff h vs b1 \<sigma>" by (rule handoff_adv [OF h2 grow_adv [OF gr(2)]])
  have sl: "sim (GTail h vs) b b1 \<sigma> (quiet l) (\<lambda>\<sigma>' v. has lr v \<and> good F b1 \<sigma>' lx (embc (is_const l) v)) (go_block F G n (added b b1) \<sigma>) (peval F pc \<rho> l)"
    using l c v h1 by (simp add: esim_at_def)
  show "sim (GTail h vs) b b3 \<sigma> (quiet e) (\<lambda>\<sigma>' v. has t v \<and> good F b3 \<sigma>' x (embc (is_const e) v)) (go_block F G n (added b b3) \<sigma>) (peval F pc \<rho> e)"
    unfolding pe
  proof (rule two_sim [OF gr low(2) sl, where qo = qo])
    fix \<sigma>1 assume e: "ext b \<sigma> \<sigma>1" "fresh b1 \<sigma>1"
    show "sim (GTail h vs) b1 b2 \<sigma>1 (quiet r) (\<lambda>\<sigma>' w. has rr w \<and> good F b2 \<sigma>' rx (embc (is_const r) w)) (go_block F G n (added b1 b2) \<sigma>1) (peval F pc \<rho> r)"
      using r clean_ext [OF c e] vars_ok_ext [OF v e(1)] handoff_ext [OF h2 e(1)] by (simp add: esim_at_def)
  next
    fix \<sigma>2 v w
    assume e: "ext b \<sigma> \<sigma>2" "fresh b2 \<sigma>2"
    assume "has lr v" "has rr w" "good F b2 \<sigma>2 lx (embc (is_const l) v)" "good F b2 \<sigma>2 rx (embc (is_const r) w)"
    then show "sim (GTail h vs) b2 b3 \<sigma>2 qo (\<lambda>\<sigma>' v. has t v \<and> good F b3 \<sigma>' x (embc (is_const e) v)) (go_block F G n (added b2 b3) \<sigma>2) (f v w)"
      by (rule op [OF clean_ext [OF c e] handoff_ext [OF hd e(1)]])
  qed (use q in auto)
qed (rule low(1))

lemma esim_bin:
  assumes l: "esim n \<Gamma> \<rho> h vs l" and r: "esim n \<Gamma> \<rho> h vs r"
  shows "esim n \<Gamma> \<rho> h vs (EBin o' l r)"
proof (rule esimI)
  fix t b assume "typ_of S \<Gamma> (EBin o' l r) = Some t"
  then obtain lr rr where tl: "typ_of S \<Gamma> l = Some lr" and tr: "typ_of S \<Gamma> r = Some rr"
    and t: "typ_bin o' lr rr (float_lit l \<and> float_lit r) = Some t"
    by (auto split: bind_splits)
  obtain lx b1 where el: "esim_at n \<Gamma> \<rho> h vs l lr b lx b1" by (rule esimE [OF l tl])
  obtain rx b2 where er: "esim_at n \<Gamma> \<rho> h vs r rr b1 rx b2" by (rule esimE [OF r tr])
  obtain x b3 where x: "lowerBin o' lx lr rx rr b2 = Some ((x, t), b3)" and g3: "grow b2 b3"
    using lowerBin_total [OF t] by blast
  have cl: "is_const l \<Longrightarrow> lr \<in> set [intRepr, floatRepr]" and cr: "is_const r \<Longrightarrow> rr \<in> set [intRepr, floatRepr]"
    and lits: "is_const l \<and> lr = floatRepr \<and> is_const r \<and> rr = floatRepr \<Longrightarrow> float_lit l \<and> float_lit r"
    using const_typ [OF tl] const_typ [OF tr] by auto
  have low: "lowerExpr (EBin o' l r) b = Some ((x, t), b3)" using el er x by (simp add: esim_at_def)
  have "esim_at n \<Gamma> \<rho> h vs (EBin o' l r) t b x b3"
    by (rule esim_two [OF el er low g3 _ _ peval.simps(6), where qo = "\<not> raising o'"])
      (simp_all add: bin_sim [OF t cl cr lits x g3])
  then show "\<exists>x b'. esim_at n \<Gamma> \<rho> h vs (EBin o' l r) t b x b'" by blast
qed

lemma esim_cmp:
  assumes l: "esim n \<Gamma> \<rho> h vs l" and r: "esim n \<Gamma> \<rho> h vs r"
  shows "esim n \<Gamma> \<rho> h vs (ECmp o' l r)"
proof (rule esimI)
  fix t b assume "typ_of S \<Gamma> (ECmp o' l r) = Some t"
  then obtain lr rr where tl: "typ_of S \<Gamma> l = Some lr" and tr: "typ_of S \<Gamma> r = Some rr" and t: "typ_cmp o' lr rr = Some t"
    by (auto split: bind_splits)
  obtain lx b1 where el: "esim_at n \<Gamma> \<rho> h vs l lr b lx b1" by (rule esimE [OF l tl])
  obtain rx b2 where er: "esim_at n \<Gamma> \<rho> h vs r rr b1 rx b2" by (rule esimE [OF r tr])
  have "t = boolRepr \<and> (\<exists>x. lowerCmp o' lx lr rx rr = Some (x, boolRepr) \<and>
    (\<forall>b \<sigma> v w. has lr v \<longrightarrow> has rr w \<longrightarrow> good F b \<sigma> lx (embc (is_const l) v) \<longrightarrow> good F b \<sigma> rx (embc (is_const r) w) \<longrightarrow>
       (\<exists>u. py_cmp F o' v w = POk (PBool u) \<and> good F b \<sigma> x (VBool u))))"
    using const_typ [OF tl] const_typ [OF tr] by (intro lowerCmp_ok [OF t]) auto
  then obtain x where tb: "t = boolRepr" and x: "lowerCmp o' lx lr rx rr = Some (x, boolRepr)"
    and ok: "\<And>\<sigma> v w. has lr v \<Longrightarrow> has rr w \<Longrightarrow> good F b2 \<sigma> lx (embc (is_const l) v) \<Longrightarrow> good F b2 \<sigma> rx (embc (is_const r) w) \<Longrightarrow>
       \<exists>u. py_cmp F o' v w = POk (PBool u) \<and> good F b2 \<sigma> x (VBool u)"
    by blast
  have low: "lowerExpr (ECmp o' l r) b = Some ((x, t), b2)" using el er x tb by (simp add: esim_at_def)
  have "esim_at n \<Gamma> \<rho> h vs (ECmp o' l r) t b x b2"
  proof (rule esim_two [OF el er low grow_refl(1) _ _ peval.simps(11), where qo = True])
    fix \<sigma> v w assume c: "clean S b2 \<sigma>"
    assume "has lr v" "has rr w" "good F b2 \<sigma> lx (embc (is_const l) v)" "good F b2 \<sigma> rx (embc (is_const r) w)"
    from ok [OF this] obtain u where "py_cmp F o' v w = POk (PBool u)" "good F b2 \<sigma> x (VBool u)" by blast
    then show "sim (GTail h vs) b2 b2 \<sigma> True (\<lambda>\<sigma>' v. has t v \<and> good F b2 \<sigma>' x (embc (is_const (ECmp o' l r)) v))
        (go_block F G n (added b2 b2) \<sigma>) (py_cmp F o' v w)"
      using c by (simp add: clean_def sim_pure tb has_scalar)
  qed simp
  then show "\<exists>x b'. esim_at n \<Gamma> \<rho> h vs (ECmp o' l r) t b x b'" by blast
qed

lemma esim_index:
  assumes l: "esim n \<Gamma> \<rho> h vs x" and r: "esim n \<Gamma> \<rho> h vs i"
  shows "esim n \<Gamma> \<rho> h vs (EIndex x i)"
proof (rule esimI)
  fix t b assume "typ_of S \<Gamma> (EIndex x i) = Some t"
  then have tl: "typ_of S \<Gamma> x = Some (listRepr t)" and tr: "typ_of S \<Gamma> i = Some intRepr" and t: "t \<in> set scalar_reprs"
    and ci: "\<not> is_const i"
    by (auto split: bind_splits option.splits if_splits)
  have cx: "\<not> is_const x" using const_typ [OF tl] by (auto simp: listRepr_def repr_defs)
  obtain lx b1 where el: "esim_at n \<Gamma> \<rho> h vs x (listRepr t) b lx b1" by (rule esimE [OF l tl])
  obtain rx b2 where er: "esim_at n \<Gamma> \<rho> h vs i intRepr b1 rx b2" by (rule esimE [OF r tr])
  obtain y b3 where y: "lowerIndex lx (listRepr t) rx intRepr b2 = Some ((y, t), b3)" and g3: "grow b2 b3"
    using lowerIndex_total by blast
  have low: "lowerExpr (EIndex x i) b = Some ((y, t), b3)" using el er y by (simp add: esim_at_def)
  have "esim_at n \<Gamma> \<rho> h vs (EIndex x i) t b y b3"
    by (rule esim_two [OF el er low g3 _ _ peval.simps(7), where qo = True])
      (use cx ci in \<open>simp_all add: lowerIndex_sim [OF y t]\<close>)
  then show "\<exists>y b'. esim_at n \<Gamma> \<rho> h vs (EIndex x i) t b y b'" by blast
qed

text \<open>A connective runs the guards of both operands and picks one value; the right operand is quiet.\<close>

lemma esim_conn:
  assumes l: "esim n \<Gamma> \<rho> h vs l" and r: "esim n \<Gamma> \<rho> h vs r" and tk: "t = T_LAND \<and> e = EAnd l r \<or> t = T_LOR \<and> e = EOr l r"
  shows "esim n \<Gamma> \<rho> h vs e"
proof (rule esimI)
  fix k b assume "typ_of S \<Gamma> e = Some k"
  then have tl: "typ_of S \<Gamma> l = Some k" and tr: "typ_of S \<Gamma> r = Some k" and k: "k \<in> set scalar_reprs" and q: "quiet r"
    using tk by (auto split: bind_splits if_splits)
  obtain lx b1 where el: "esim_at n \<Gamma> \<rho> h vs l k b lx b1" by (rule esimE [OF l tl])
  obtain rx b2 where er: "esim_at n \<Gamma> \<rho> h vs r k b1 rx b2" by (rule esimE [OF r tr])
  have "\<exists>x. lowerBoolBin t lx k rx k r = Some (x, k) \<and>
    (\<forall>S b \<sigma> v w. clean S b \<sigma> \<longrightarrow> has k v \<longrightarrow> has k w \<longrightarrow> good F b \<sigma> lx (embc (is_const l) v) \<longrightarrow> good F b \<sigma> rx (embc (is_const r) w) \<longrightarrow>
       good F b \<sigma> x (emb (if truth F v = (t = T_LOR) then v else w)))"
    using const_typ [OF tl] const_typ [OF tr] quiet_no_guard [OF q] tk by (intro conn_ok k) auto
  then obtain x where x: "lowerBoolBin t lx k rx k r = Some (x, k)"
    and ok: "\<And>\<sigma> v w. clean S b2 \<sigma> \<Longrightarrow> has k v \<Longrightarrow> has k w \<Longrightarrow> good F b2 \<sigma> lx (embc (is_const l) v) \<Longrightarrow> good F b2 \<sigma> rx (embc (is_const r) w) \<Longrightarrow>
       good F b2 \<sigma> x (emb (if truth F v = (t = T_LOR) then v else w))"
    by blast
  have gr: "grow b b1" "grow b1 b2" using el er by (simp_all add: esim_at_def)
  have pe: "peval F pc \<rho> e = pbind (peval F pc \<rho> l) (\<lambda>v. if truth F v = (t = T_LOR) then POk v else peval F pc \<rho> r)"
    using tk by (auto simp: fun_eq_iff intro!: arg_cong [of _ _ "pbind _"])
  have "esim_at n \<Gamma> \<rho> h vs e k b x b2"
    unfolding esim_at_def
  proof (intro conjI allI impI)
    show "lowerExpr e b = Some ((x, k), b2)" using tk el er x by (auto simp: esim_at_def)
    show "grow b b2" using gr grow_trans by blast
    fix \<sigma> assume c: "clean S b \<sigma>" and v: "vars_ok \<Gamma> \<rho> \<sigma>" and hd: "handoff h vs b2 \<sigma>"
    have h1: "handoff h vs b1 \<sigma>" by (rule handoff_adv [OF hd grow_adv [OF gr(2)]])
    have sl: "sim (GTail h vs) b b1 \<sigma> (quiet l) (\<lambda>\<sigma>' v. has k v \<and> good F b1 \<sigma>' lx (embc (is_const l) v)) (go_block F G n (added b b1) \<sigma>) (peval F pc \<rho> l)"
      using el c v h1 by (simp add: esim_at_def)
    show "sim (GTail h vs) b b2 \<sigma> (quiet e) (\<lambda>\<sigma>' v. has k v \<and> good F b2 \<sigma>' x (embc (is_const e) v)) (go_block F G n (added b b2) \<sigma>) (peval F pc \<rho> e)"
      unfolding pe
    proof (rule sim_grow [OF gr sl])
      fix \<sigma>1 u assume e1: "ext b \<sigma> \<sigma>1" "fresh b1 \<sigma>1" and u: "has k u \<and> good F b1 \<sigma>1 lx (embc (is_const l) u)"
      have c1: "clean S b1 \<sigma>1" by (rule clean_ext [OF c e1])
      have "sim (GTail h vs) b1 b2 \<sigma>1 True (\<lambda>\<sigma>' w. has k w \<and> good F b2 \<sigma>' rx (embc (is_const r) w)) (go_block F G n (added b1 b2) \<sigma>1) (peval F pc \<rho> r)"
        using er q c1 vars_ok_ext [OF v e1(1)] handoff_ext [OF hd e1(1)] by (simp add: esim_at_def)
      then have "sim (GTail h vs) b1 b2 \<sigma>1 True (\<lambda>\<sigma>' w. has k w \<and> good F b2 \<sigma>' x (emb (if truth F u = (t = T_LOR) then u else w)))
          (go_block F G n (added b1 b2) \<sigma>1) (peval F pc \<rho> r)"
        by (rule sim_mono) (use u ok clean_ext [OF c1] good_mono [OF _ _ grow_adv [OF gr(2)]] in blast)+
      then show "sim (GTail h vs) b1 b2 \<sigma>1 True (\<lambda>\<sigma>' v. has k v \<and> good F b2 \<sigma>' x (embc (is_const e) v)) (go_block F G n (added b1 b2) \<sigma>1)
          (if truth F u = (t = T_LOR) then POk u else peval F pc \<rho> r)"
        by (rule sim_replace) (use u tk in auto)
    qed (use tk in auto)
  qed
  then show "\<exists>x b'. esim_at n \<Gamma> \<rho> h vs e k b x b'" by blast
qed

text \<open>One operand, then an operation that emits nothing.\<close>

lemma esim_one:
  assumes x: "esim_at n \<Gamma> \<rho> h vs x xr b y b1" and low: "lowerExpr e b = Some ((z, t), b1)"
    and op: "\<And>\<sigma> v. has xr v \<Longrightarrow> good F b1 \<sigma> y (embc (is_const x) v) \<Longrightarrow>
      \<exists>u. f v = POk u \<and> has t u \<and> good F b1 \<sigma> z (embc (is_const e) u)"
    and q: "quiet e \<Longrightarrow> quiet x" and pe: "peval F pc \<rho> e = pbind (peval F pc \<rho> x) f"
  shows "esim_at n \<Gamma> \<rho> h vs e t b z b1"
  unfolding esim_at_def
proof (intro conjI allI impI)
  show g: "grow b b1" using x by (simp add: esim_at_def)
  fix \<sigma> assume c: "clean S b \<sigma>" and v: "vars_ok \<Gamma> \<rho> \<sigma>" and hd: "handoff h vs b1 \<sigma>"
  have sx: "sim (GTail h vs) b b1 \<sigma> (quiet x) (\<lambda>\<sigma>' v. has xr v \<and> good F b1 \<sigma>' y (embc (is_const x) v)) (go_block F G n (added b b1) \<sigma>) (peval F pc \<rho> x)"
    using x c v hd by (simp add: esim_at_def)
  show "sim (GTail h vs) b b1 \<sigma> (quiet e) (\<lambda>\<sigma>' v. has t v \<and> good F b1 \<sigma>' z (embc (is_const e) v)) (go_block F G n (added b b1) \<sigma>) (peval F pc \<rho> e)"
    unfolding pe
  proof (rule sim_grow [OF g grow_refl(1) sx, where q' = True])
    fix \<sigma>1 v assume e: "ext b \<sigma> \<sigma>1" "fresh b1 \<sigma>1" and v: "has xr v \<and> good F b1 \<sigma>1 y (embc (is_const x) v)"
    then obtain u where f: "f v = POk u" and u: "has t u \<and> good F b1 \<sigma>1 z (embc (is_const e) u)" using op by blast
    show "sim (GTail h vs) b1 b1 \<sigma>1 True (\<lambda>\<sigma>' v. has t v \<and> good F b1 \<sigma>' z (embc (is_const e) v)) (go_block F G n (added b1 b1) \<sigma>1) (f v)"
      unfolding f by (rule sim_done [OF e]) (rule u)
  qed (use q in auto)
qed (rule low)

lemma esim_attr:
  assumes x: "esim n \<Gamma> \<rho> h vs x"
  shows "esim n \<Gamma> \<rho> h vs (EAttr x a)"
proof (rule esimI)
  fix t b assume "typ_of S \<Gamma> (EAttr x a) = Some t"
  then obtain xr s where tx: "typ_of S \<Gamma> x = Some xr" and s: "repr_Shape xr = Some s" "Shape_Field s a = Some t" "repr_Elem xr = None"
    and t: "t \<in> set scalar_reprs"
    by (auto split: bind_splits if_splits)
  have cx: "\<not> is_const x" using const_typ [OF tx] s(1) by auto
  obtain y b1 where ex: "esim_at n \<Gamma> \<rho> h vs x xr b y b1" by (rule esimE [OF x tx])
  have a: "lowerAttr y xr a = Some (GSelector y a, t)"
    "\<And>b \<sigma> v. has xr v \<Longrightarrow> good F b \<sigma> y (emb v) \<Longrightarrow> \<exists>w. py_attr v a = POk w \<and> has t w \<and> good F b \<sigma> (GSelector y a) (emb w)"
    using lowerAttr_ok [OF s t, of y F] by blast+
  have "esim_at n \<Gamma> \<rho> h vs (EAttr x a) t b (GSelector y a) b1"
    by (rule esim_one [OF ex _ _ _ peval.simps(9)]) (use ex a cx in \<open>simp_all add: esim_at_def\<close>)
  then show "\<exists>z b'. esim_at n \<Gamma> \<rho> h vs (EAttr x a) t b z b'" by blast
qed

lemma esim_not:
  assumes x: "esim n \<Gamma> \<rho> h vs x"
  shows "esim n \<Gamma> \<rho> h vs (ENot x)"
proof (rule esimI)
  fix t b assume "typ_of S \<Gamma> (ENot x) = Some t"
  then have tx: "typ_of S \<Gamma> x = Some boolRepr" and t: "t = boolRepr" by (auto split: bind_splits if_splits)
  have cx: "\<not> is_const x" using const_typ [OF tx] by auto
  obtain y b1 where ex: "esim_at n \<Gamma> \<rho> h vs x boolRepr b y b1" by (rule esimE [OF x tx])
  obtain z where z: "lowerNot y boolRepr = Some (z, boolRepr)" "\<And>b \<sigma> t. good F b \<sigma> y (VBool t) \<Longrightarrow> good F b \<sigma> z (VBool (\<not> t))"
    using lowerNot_ok by blast
  have "esim_at n \<Gamma> \<rho> h vs (ENot x) boolRepr b z b1"
    by (rule esim_one [OF ex _ _ _ peval.simps(14)]) (use ex z cx in \<open>auto simp: esim_at_def has_scalar\<close>)
  then show "\<exists>z b'. esim_at n \<Gamma> \<rho> h vs (ENot x) t b z b'" using t by blast
qed

text \<open>A list of operands.\<close>

definition asim_at :: "nat \<Rightarrow> (string \<Rightarrow> repr option) \<Rightarrow> penv \<Rightarrow> string \<Rightarrow> gval list \<Rightarrow> eexpr list \<Rightarrow> repr list \<Rightarrow> builder \<Rightarrow> gexpr list \<Rightarrow> builder \<Rightarrow> bool" where
  "asim_at n \<Gamma> \<rho> h vs es rs b xs b' \<longleftrightarrow>
     lowerArgs es b = Some (zip xs rs, b') \<and> grow b b' \<and> length xs = length rs \<and>
     (\<forall>\<sigma>. clean S b \<sigma> \<longrightarrow> vars_ok \<Gamma> \<rho> \<sigma> \<longrightarrow> handoff h vs b' \<sigma> \<longrightarrow>
       sim (GTail h vs) b b' \<sigma> (list_all quiet es) (\<lambda>\<sigma>' us. list_all2 has rs us \<and> goods F b' \<sigma>' xs es us)
         (go_block F G n (added b b') \<sigma>) (peval_list F pc \<rho> es))"

lemma goods_Nil [simp]: "goods F b \<sigma> [] [] us \<longleftrightarrow> us = []"
  by (auto simp: goods_def)

lemma goods_Cons [simp]:
  "goods F b \<sigma> (x # xs) (e # es) (u # us) \<longleftrightarrow> good F b \<sigma> x (embc (is_const e) u) \<and> goods F b \<sigma> xs es us"
  by (auto simp: goods_def)

lemma asim:
  assumes "\<And>e. e \<in> set es \<Longrightarrow> esim n \<Gamma> \<rho> h vs e" and "typs_of S \<Gamma> es = Some rs"
  shows "\<exists>xs b'. asim_at n \<Gamma> \<rho> h vs es rs b xs b'"
  using assms
proof (induction es arbitrary: rs b)
  case Nil
  have "sim (GTail h vs) b b \<sigma> True (\<lambda>\<sigma>' us. list_all2 has [] us \<and> goods F b \<sigma>' [] [] us) (GNext \<sigma>) (POk [])"
    if "clean S b \<sigma>" for \<sigma>
    using that by (simp add: clean_def sim_pure)
  then have "asim_at n \<Gamma> \<rho> h vs [] [] b [] b" by (simp add: asim_at_def)
  then show ?case using Nil by auto
next
  case (Cons e es)
  then obtain r rs' where te: "typ_of S \<Gamma> e = Some r" and ts: "typs_of S \<Gamma> es = Some rs'" and rs: "rs = r # rs'"
    by (auto split: bind_splits)
  have es: "esim n \<Gamma> \<rho> h vs e" using Cons.prems(1) by simp
  obtain x b1 where e1: "esim_at n \<Gamma> \<rho> h vs e r b x b1" by (rule esimE [OF es te])
  obtain xs b2 where e2: "asim_at n \<Gamma> \<rho> h vs es rs' b1 xs b2" using Cons.IH [OF _ ts] Cons.prems(1) by fastforce
  have gr: "grow b b1" "grow b1 b2" using e1 e2 by (simp_all add: esim_at_def asim_at_def)
  have "asim_at n \<Gamma> \<rho> h vs (e # es) rs b (x # xs) b2"
    unfolding asim_at_def
  proof (intro conjI allI impI)
    show "lowerArgs (e # es) b = Some (zip (x # xs) rs, b2)" "length (x # xs) = length rs"
      using e1 e2 by (simp_all add: esim_at_def asim_at_def rs)
    show "grow b b2" using gr grow_trans by blast
    fix \<sigma> assume c: "clean S b \<sigma>" and v: "vars_ok \<Gamma> \<rho> \<sigma>" and hd: "handoff h vs b2 \<sigma>"
    have h1: "handoff h vs b1 \<sigma>" by (rule handoff_adv [OF hd grow_adv [OF gr(2)]])
    have s1: "sim (GTail h vs) b b1 \<sigma> (quiet e) (\<lambda>\<sigma>' u. has r u \<and> good F b1 \<sigma>' x (embc (is_const e) u)) (go_block F G n (added b b1) \<sigma>) (peval F pc \<rho> e)"
      using e1 c v h1 by (simp add: esim_at_def)
    show "sim (GTail h vs) b b2 \<sigma> (list_all quiet (e # es)) (\<lambda>\<sigma>' us. list_all2 has rs us \<and> goods F b2 \<sigma>' (x # xs) (e # es) us)
        (go_block F G n (added b b2) \<sigma>) (peval_list F pc \<rho> (e # es))"
      unfolding peval_list.simps
    proof (rule sim_grow [OF gr s1])
      fix \<sigma>1 u assume e: "ext b \<sigma> \<sigma>1" "fresh b1 \<sigma>1" and u: "has r u \<and> good F b1 \<sigma>1 x (embc (is_const e) u)"
      have "sim (GTail h vs) b1 b2 \<sigma>1 (list_all quiet es) (\<lambda>\<sigma>' us. list_all2 has rs' us \<and> goods F b2 \<sigma>' xs es us)
          (go_block F G n (added b1 b2) \<sigma>1) (peval_list F pc \<rho> es)"
        using e2 clean_ext [OF c e] vars_ok_ext [OF v e(1)] handoff_ext [OF hd e(1)] by (simp add: asim_at_def)
      then have "sim (GTail h vs) b1 b2 \<sigma>1 (list_all quiet es) (\<lambda>\<sigma>' us. list_all2 has rs (u # us) \<and> goods F b2 \<sigma>' (x # xs) (e # es) (u # us))
          (go_block F G n (added b1 b2) \<sigma>1) (peval_list F pc \<rho> es)"
        by (rule sim_mono) (use u good_mono [OF _ _ grow_adv [OF gr(2)]] in \<open>auto simp: rs\<close>)
      then show "sim (GTail h vs) b1 b2 \<sigma>1 (list_all quiet es) (\<lambda>\<sigma>' us. list_all2 has rs us \<and> goods F b2 \<sigma>' (x # xs) (e # es) us)
          (go_block F G n (added b1 b2) \<sigma>1) (pbind (peval_list F pc \<rho> es) (\<lambda>us. POk (u # us)))"
        by (cases "peval_list F pc \<rho> es") (auto simp: sim_def)
    qed simp
  qed
  then show ?case by blast
qed

lemma asim_typ_length: "typs_of S \<Gamma> es = Some rs \<Longrightarrow> length es = length rs"
  by (induction es arbitrary: rs) (auto split: bind_splits)

lemma esim_list:
  assumes es: "\<And>e. e \<in> set es \<Longrightarrow> esim n \<Gamma> \<rho> h vs e"
  shows "esim n \<Gamma> \<rho> h vs (EListLit el es)"
proof (rule esimI)
  fix t b assume "typ_of S \<Gamma> (EListLit el es) = Some t"
  then obtain rs where ts: "typs_of S \<Gamma> es = Some rs" and el: "el \<in> set scalar_reprs" and rs: "list_all (\<lambda>r. r = el) rs"
    and len: "in64 (int (length es))" and t: "t = listRepr el"
    by (auto split: bind_splits if_splits)
  obtain xs b1 where a: "asim_at n \<Gamma> \<rho> h vs es rs b xs b1" using asim [OF es ts] by blast
  have cs: "\<forall>e\<in>set es. is_const e \<longrightarrow> el \<in> set [intRepr, floatRepr]"
    using consts_typs [OF ts] rs unfolding consts_ok_def by (induction es rs rule: list_all2_induct) auto
  obtain x where x: "lowerListLit el (zip xs rs) = Some (x, listRepr el)"
    "\<And>b \<sigma> us. goods F b \<sigma> xs es us \<Longrightarrow> list_all2 has rs us \<Longrightarrow> good F b \<sigma> x (emb (PList us))"
    using lowerListLit_ok [OF el rs, of xs F] a cs unfolding asim_at_def by blast
  have has: "has (listRepr el) (PList us)" if "list_all2 has rs us" for us
  proof -
    have "length us = length es" using that asim_typ_length [OF ts] by (simp add: list_all2_lengthD)
    moreover have "list_all (has el) us" using that rs by (induction rule: list_all2_induct) auto
    ultimately show ?thesis using len el by (simp add: has_list scalar_has_iff list_all_iff)
  qed
  have "esim_at n \<Gamma> \<rho> h vs (EListLit el es) t b x b1"
    unfolding esim_at_def
  proof (intro conjI allI impI)
    show g: "grow b b1" using a by (simp add: asim_at_def)
    show "lowerExpr (EListLit el es) b = Some ((x, t), b1)" using a x t by (simp add: asim_at_def)
    fix \<sigma> assume "clean S b \<sigma>" "vars_ok \<Gamma> \<rho> \<sigma>" "handoff h vs b1 \<sigma>"
    then have "sim (GTail h vs) b b1 \<sigma> (list_all quiet es) (\<lambda>\<sigma>' us. list_all2 has rs us \<and> goods F b1 \<sigma>' xs es us)
        (go_block F G n (added b b1) \<sigma>) (peval_list F pc \<rho> es)"
      using a by (simp add: asim_at_def)
    then show "sim (GTail h vs) b b1 \<sigma> (quiet (EListLit el es)) (\<lambda>\<sigma>' v. has t v \<and> good F b1 \<sigma>' x (embc (is_const (EListLit el es)) v))
        (go_block F G n (added b b1) \<sigma>) (peval F pc \<rho> (EListLit el es))"
      using has x(2) by (cases "peval_list F pc \<rho> es") (auto simp: sim_def t)
  qed
  then show "\<exists>x b'. esim_at n \<Gamma> \<rho> h vs (EListLit el es) t b x b'" by blast
qed

lemma esim_call:
  assumes es: "\<And>e. e \<in> set es \<Longrightarrow> esim n \<Gamma> \<rho> h vs e"
  shows "esim n \<Gamma> \<rho> h vs (ECall f es r)"
proof (rule esimI)
  fix t b assume "typ_of S \<Gamma> (ECall f es r) = Some t"
  then obtain rs where ts: "typs_of S \<Gamma> es = Some rs" and sg: "S f = Some (rs, r)" "set rs \<subseteq> set value_reprs" and t: "t = r"
    by (auto split: bind_splits if_splits)
  obtain xs b1 where a: "asim_at n \<Gamma> \<rho> h vs es rs b xs b1" using asim [OF es ts] by blast
  obtain x r' b2 where low': "lowerCall f xs r b1 = ((x, r'), b2)" by (metis surj_pair)
  have r': "r' = r" and g2: "grow b1 b2" using lowerCall_grow [OF low'] by auto
  have low: "lowerCall f xs r b1 = ((x, r), b2)" using low' r' by simp
  have g1: "grow b b1" using a by (simp add: asim_at_def)
  have "esim_at n \<Gamma> \<rho> h vs (ECall f es r) r b x b2"
    unfolding esim_at_def
  proof (intro conjI allI impI)
    show "grow b b2" using g1 g2 grow_trans by blast
    have "map fst (zip xs rs) = xs" using a by (simp add: asim_at_def)
    then show "lowerExpr (ECall f es r) b = Some ((x, r), b2)" using a low by (simp add: asim_at_def)
    fix \<sigma> assume c: "clean S b \<sigma>" and v: "vars_ok \<Gamma> \<rho> \<sigma>" and hd: "handoff h vs b2 \<sigma>"
    have s1: "sim (GTail h vs) b b1 \<sigma> (list_all quiet es) (\<lambda>\<sigma>' us. list_all2 has rs us \<and> goods F b1 \<sigma>' xs es us)
        (go_block F G n (added b b1) \<sigma>) (peval_list F pc \<rho> es)"
      using a c v handoff_adv [OF hd grow_adv [OF g2]] by (simp add: asim_at_def)
    show "sim (GTail h vs) b b2 \<sigma> (quiet (ECall f es r)) (\<lambda>\<sigma>' v. has r v \<and> good F b2 \<sigma>' x (embc (is_const (ECall f es r)) v))
        (go_block F G n (added b b2) \<sigma>) (peval F pc \<rho> (ECall f es r))"
      unfolding peval.simps
    proof (rule sim_grow [OF g1 g2 s1, where q' = False])
      fix \<sigma>1 us assume e: "ext b \<sigma> \<sigma>1" "fresh b1 \<sigma>1" and us: "list_all2 has rs us \<and> goods F b1 \<sigma>1 xs es us"
      show "sim (GTail h vs) b1 b2 \<sigma>1 False (\<lambda>\<sigma>' v. has r v \<and> good F b2 \<sigma>' x (embc (is_const (ECall f es r)) v))
          (go_block F G n (added b1 b2) \<sigma>1) (pc f us)"
        using lowerCall_sim [OF sg _ consts_typs [OF ts] _ low clean_ext [OF c e] handoff_ext [OF hd e(1)]] us by simp
    qed simp
  qed
  then show "\<exists>x b'. esim_at n \<Gamma> \<rho> h vs (ECall f es r) t b x b'" using t by blast
qed

lemma expr_sim: "esim n \<Gamma> \<rho> h vs e"
proof (induction e)
  case (EVar x r)
  show ?case
    by (rule esim_leaf) (force simp: vars_ok_def good_def ext_glook user_not_later split: if_splits)
next
  case (EInt v)
  show ?case by (rule esim_leaf) (auto simp: has_scalar good_def embc_def)
next
  case (EFloat v)
  show ?case by (rule esim_leaf) (auto simp: has_scalar good_def embc_def split: if_splits)
next
  case (EBool v)
  show ?case by (rule esim_leaf) (auto simp: has_scalar good_def)
next
  case (EStr v)
  show ?case by (rule esim_leaf) (auto simp: has_scalar good_def)
next
  case (EBin o' l r)
  then show ?case by (rule esim_bin)
next
  case (EIndex x i)
  then show ?case by (rule esim_index)
next
  case (EListLit el es)
  then show ?case by (rule esim_list)
next
  case (EAttr x a)
  then show ?case by (rule esim_attr)
next
  case (ECmp o' l r)
  then show ?case by (rule esim_cmp)
next
  case (EAnd l r)
  then show ?case by (rule esim_conn) simp
next
  case (EOr l r)
  then show ?case by (rule esim_conn) simp
next
  case (ENot x)
  then show ?case by (rule esim_not)
next
  case (ECall f es r)
  then show ?case by (rule esim_call)
qed (simp_all add: esim_def)

end

end
