(* ===== verification/Emit_Typing.thy ===== *)
theory Emit_Typing
  imports Emit_Sim
begin

text \<open>
  The functions the correctness theorem of \<^verbatim>\<open>pkg/emit\<close> is about: a typing of statements that also tracks what is
  declared in Go and what is definitely assigned in Python.

  Python has one scope per function and Go one per block. A name declared inside a block is therefore forgotten
  after it, a declaration never shadows, and \<open>VarDecl\<close> ahead of an \<open>if\<close> declares a name that both branches assign.
  The conditions are those the bridge (\<^verbatim>\<open>ir/bridge.go\<close>) establishes, with three more that it does not: names are
  not spelled like the emitter's temporaries, a \<open>while\<close> condition emits no check, and expressions are those \<^const>\<open>typ_of\<close> types.
\<close>

fun is_lit :: "eexpr \<Rightarrow> bool" where
  "is_lit (EInt v) = True"
| "is_lit (EFloat v) = True"
| "is_lit _ = False"

text \<open>What may stand to the right of \<open>:=\<close>, which gives an untyped constant Go's own \<open>int\<close>.\<close>

definition definable :: "eexpr \<Rightarrow> bool" where
  "definable e \<longleftrightarrow> (is_const e \<longrightarrow> is_lit e)"

text \<open>The expressions whose lowering emits no statement.\<close>

fun guard_free :: "sigs \<Rightarrow> (string \<Rightarrow> repr option) \<Rightarrow> eexpr \<Rightarrow> bool" where
  "guard_free S \<Gamma> (EBin o' l r) =
     (guard_free S \<Gamma> l \<and> guard_free S \<Gamma> r \<and>
      (bitwise o' \<or> (\<not> raising o' \<and> typ_of S \<Gamma> (EBin o' l r) \<in> {Some floatRepr, Some strRepr})))"
| "guard_free S \<Gamma> (EListLit el xs) = list_all (guard_free S \<Gamma>) xs"
| "guard_free S \<Gamma> (EAttr x n) = guard_free S \<Gamma> x"
| "guard_free S \<Gamma> (ECmp o' l r) = (guard_free S \<Gamma> l \<and> guard_free S \<Gamma> r)"
| "guard_free S \<Gamma> (EAnd l r) = (guard_free S \<Gamma> l \<and> guard_free S \<Gamma> r)"
| "guard_free S \<Gamma> (EOr l r) = (guard_free S \<Gamma> l \<and> guard_free S \<Gamma> r)"
| "guard_free S \<Gamma> (ENot x) = guard_free S \<Gamma> x"
| "guard_free S \<Gamma> (EIndex x i) = False"
| "guard_free S \<Gamma> (ECall n xs r) = False"
| "guard_free S \<Gamma> _ = True"

section \<open>Statements\<close>

primrec assigned :: "estmt \<Rightarrow> string list" where
  "assigned (EDefine n v) = [n]"
| "assigned (EAssign n v) = [n]"
| "assigned (EAugAssign n o' r v) = [n]"
| "assigned (EVarDecl n r) = []"
| "assigned (EBind ns vs d) = ns"
| "assigned (EReturn v) = []"
| "assigned (EDiscard v) = []"
| "assigned (EIf c th el) = concat (map assigned th) @ concat (map assigned el)"
| "assigned (EWhile c body) = concat (map assigned body)"
| "assigned (EForCount v i e down body res) = v # concat (map assigned body)"
| "assigned EBreak = []"
| "assigned EContinue = []"
| "assigned (EForRange bnd idx over body) = bnd # idx # concat (map assigned body)"
| "assigned (EForGen bnd el gen body deopt) = bnd # concat (map assigned body)"

text \<open>Statements after which control never continues.\<close>

primrec ends :: "estmt \<Rightarrow> bool" where
  "ends (EReturn v) = True"
| "ends EBreak = True"
| "ends EContinue = True"
| "ends (EIf c th el) = (list_ex id (map ends th) \<and> list_ex id (map ends el))"
| "ends (EDefine n v) = False"
| "ends (EAssign n v) = False"
| "ends (EAugAssign n o' r v) = False"
| "ends (EVarDecl n r) = False"
| "ends (EBind ns vs d) = False"
| "ends (EDiscard v) = False"
| "ends (EWhile c body) = False"
| "ends (EForCount v i e down body res) = False"
| "ends (EForRange bnd idx over body) = False"
| "ends (EForGen bnd el gen body deopt) = False"

type_synonym tenv = "string \<Rightarrow> repr option"

definition may_declare :: "sigs \<Rightarrow> string \<Rightarrow> tenv \<Rightarrow> string \<Rightarrow> bool" where
  "may_declare S h D n \<longleftrightarrow> user_name n \<and> D n = None \<and> S n = None \<and> n \<noteq> h"

definition within :: "tenv \<Rightarrow> tenv \<Rightarrow> tenv" where
  "within D \<Gamma> = (\<lambda>n. if D n = None then None else \<Gamma> n)"

definition join_env :: "tenv \<Rightarrow> estmt list \<Rightarrow> tenv \<Rightarrow> estmt list \<Rightarrow> tenv \<Rightarrow> tenv" where
  "join_env D th \<Gamma>t el \<Gamma>e =
     (if list_ex ends th then within D \<Gamma>e else if list_ex ends el then within D \<Gamma>t
      else within D (\<lambda>n. if \<Gamma>t n = \<Gamma>e n then \<Gamma>t n else None))"

fun bound_ok :: "eexpr \<Rightarrow> string list \<Rightarrow> bool" where
  "bound_ok (EInt v) ns = True"
| "bound_ok (EVar m r) ns = (m \<notin> set ns)"
| "bound_ok _ ns = False"

text \<open>The state is the names definitely assigned and the names declared, with their representations.\<close>

fun stmt_typ :: "sigs \<Rightarrow> string \<Rightarrow> repr \<Rightarrow> bool \<Rightarrow> estmt \<Rightarrow> tenv \<times> tenv \<Rightarrow> (tenv \<times> tenv) option"
  and block_typ :: "sigs \<Rightarrow> string \<Rightarrow> repr \<Rightarrow> bool \<Rightarrow> estmt list \<Rightarrow> tenv \<times> tenv \<Rightarrow> (tenv \<times> tenv) option" where
  "stmt_typ S h rt lp (EDefine n v) (\<Gamma>, D) =
     do {r \<leftarrow> typ_of S \<Gamma> v; if may_declare S h D n \<and> definable v then Some (\<Gamma>(n \<mapsto> r), D(n \<mapsto> r)) else None}"
| "stmt_typ S h rt lp (EAssign n v) (\<Gamma>, D) =
     do {r \<leftarrow> typ_of S \<Gamma> v; if D n = Some r then Some (\<Gamma>(n \<mapsto> r), D) else None}"
| "stmt_typ S h rt lp (EAugAssign n o' r v) (\<Gamma>, D) =
     (if typ_of S \<Gamma> (EBin o' (EVar n r) v) = Some r \<and> (r = floatRepr \<longrightarrow> o' \<in> {OpAdd, OpSub, OpMul}) then Some (\<Gamma>, D) else None)"
| "stmt_typ S h rt lp (EVarDecl n r) (\<Gamma>, D) =
     (if may_declare S h D n \<and> r \<in> set value_reprs then Some (\<Gamma>, D(n \<mapsto> r)) else None)"
| "stmt_typ S h rt lp (EBind ns vs d) (\<Gamma>, D) =
     do {rs \<leftarrow> typs_of S \<Gamma> vs;
         if length ns = length vs \<and> distinct ns \<and> ns \<noteq> [] \<and>
            (if d then list_all (may_declare S h D) ns \<and> list_all definable vs else map D ns = map Some rs)
         then Some (\<Gamma> ++ map_of (zip ns rs), D ++ map_of (zip ns rs)) else None}"
| "stmt_typ S h rt lp (EReturn v) (\<Gamma>, D) = (if typ_of S \<Gamma> v = Some rt then Some (\<Gamma>, D) else None)"
| "stmt_typ S h rt lp (EDiscard v) (\<Gamma>, D) = (if typ_of S \<Gamma> v \<noteq> None then Some (\<Gamma>, D) else None)"
| "stmt_typ S h rt lp (EIf c th el) (\<Gamma>, D) =
     do {r \<leftarrow> typ_of S \<Gamma> c;
         (\<Gamma>t, _) \<leftarrow> block_typ S h rt lp th (\<Gamma>, D);
         (\<Gamma>e, _) \<leftarrow> block_typ S h rt lp el (\<Gamma>, D);
         if r \<in> set value_reprs then Some (join_env D th \<Gamma>t el \<Gamma>e, D) else None}"
| "stmt_typ S h rt lp (EWhile c body) (\<Gamma>, D) =
     do {r \<leftarrow> typ_of S \<Gamma> c;
         _ \<leftarrow> block_typ S h rt True body (\<Gamma>, D);
         if r \<in> set value_reprs \<and> guard_free S \<Gamma> c then Some (\<Gamma>, D) else None}"
| "stmt_typ S h rt lp (EForCount v i e down body res) (\<Gamma>, D) =
     do {_ \<leftarrow> block_typ S h rt True body (\<Gamma>(v \<mapsto> intRepr), D(v \<mapsto> intRepr));
         if res = None \<and> may_declare S h D v \<and> typ_of S \<Gamma> i = Some intRepr \<and> definable i \<and> typ_of S \<Gamma> e = Some intRepr \<and>
            bound_ok e (v # concat (map assigned body)) \<and> v \<notin> set (concat (map assigned body))
         then Some (\<Gamma>, D) else None}"
| "stmt_typ S h rt lp EBreak (\<Gamma>, D) = (if lp then Some (\<Gamma>, D) else None)"
| "stmt_typ S h rt lp EContinue (\<Gamma>, D) = (if lp then Some (\<Gamma>, D) else None)"
| "stmt_typ S h rt lp (EForRange bnd idx over body) (\<Gamma>, D) = None"
| "stmt_typ S h rt lp (EForGen bnd el gen body deopt) (\<Gamma>, D) = None"
| "block_typ S h rt lp [] st = Some st"
| "block_typ S h rt lp (s # ss) st = do {st \<leftarrow> stmt_typ S h rt lp s st; block_typ S h rt lp ss st}"

section \<open>Python facts\<close>

lemma pseq_next: "pseq p k = PNext \<rho>' \<Longrightarrow> \<exists>\<rho>. p = PNext \<rho> \<and> k \<rho> = PNext \<rho>'"
  by (cases p) auto

lemma prun_ends:
  assumes "\<And>s \<rho> \<rho>'. s \<in> set ss \<Longrightarrow> ends s \<Longrightarrow> pexec F pc n s \<rho> \<noteq> PNext \<rho>'" and "list_ex ends ss"
  shows "pblock F pc n ss \<rho> \<noteq> PNext \<rho>'"
  using assms
proof (induction ss arbitrary: \<rho>)
  case (Cons s ss)
  show ?case
  proof
    assume "pblock F pc n (s # ss) \<rho> = PNext \<rho>'"
    then obtain \<rho>1 where "pexec F pc n s \<rho> = PNext \<rho>1" "pblock F pc n ss \<rho>1 = PNext \<rho>'"
      using pseq_next by (metis list.simps(9) prun.simps(2))
    then show False using Cons.IH [of \<rho>1] Cons.prems by auto
  qed
qed simp

lemma list_ex_map: "list_ex id (map f xs) = list_ex f xs"
  by (induction xs) auto

lemma pexec_ends: "ends s \<Longrightarrow> pexec F pc n s \<rho> \<noteq> PNext \<rho>'"
proof (induction s arbitrary: \<rho> \<rho>')
  case (EIf c th el)
  have "list_ex ends th" "list_ex ends el" using EIf.prems by (simp_all add: list_ex_map)
  then have "pblock F pc n th \<rho> \<noteq> PNext \<rho>'" "pblock F pc n el \<rho> \<noteq> PNext \<rho>'"
    using prun_ends [OF EIf.IH(1)] prun_ends [OF EIf.IH(2)] by blast+
  then show ?case by (auto simp: with_val_def split: pres.splits)
qed (auto simp: with_val_def split: pres.splits)

lemma block_ends: "list_ex ends ss \<Longrightarrow> pblock F pc n ss \<rho> \<noteq> PNext \<rho>'"
  by (rule prun_ends) (auto dest: pexec_ends)

text \<open>A statement changes only the names it assigns.\<close>

definition keeps :: "string list \<Rightarrow> penv \<Rightarrow> pout \<Rightarrow> bool" where
  "keeps ns \<rho> p \<longleftrightarrow> (\<forall>\<rho>' m. p = PNext \<rho>' \<or> p = PBreak \<rho>' \<or> p = PCont \<rho>' \<longrightarrow> m \<notin> set ns \<longrightarrow> \<rho>' m = \<rho> m)"

lemma keeps_simps [simp]:
  "keeps ns \<rho> (PNext \<rho>') \<longleftrightarrow> (\<forall>m. m \<notin> set ns \<longrightarrow> \<rho>' m = \<rho> m)" "keeps ns \<rho> (PBreak \<rho>') \<longleftrightarrow> (\<forall>m. m \<notin> set ns \<longrightarrow> \<rho>' m = \<rho> m)"
  "keeps ns \<rho> (PCont \<rho>') \<longleftrightarrow> (\<forall>m. m \<notin> set ns \<longrightarrow> \<rho>' m = \<rho> m)"
  "keeps ns \<rho> (PRet v)" "keeps ns \<rho> (PExc c m)" "keeps ns \<rho> PStuck" "keeps ns \<rho> PFuel"
  by (auto simp: keeps_def)

lemma keeps_mono: "keeps ns \<rho> p \<Longrightarrow> set ns \<subseteq> set ms \<Longrightarrow> keeps ms \<rho> p"
  by (auto simp: keeps_def)

lemma keeps_with_val: "(\<And>v. keeps ns \<rho> (k v)) \<Longrightarrow> keeps ns \<rho> (with_val r k)"
  by (cases r) (simp_all add: with_val_def)

lemma keeps_trans: "\<forall>m. m \<notin> set ns \<longrightarrow> \<rho>1 m = \<rho> m \<Longrightarrow> keeps ns \<rho>1 p \<Longrightarrow> keeps ns \<rho> p"
  by (simp add: keeps_def)

lemma keeps_block:
  assumes "\<And>s \<rho>. s \<in> set ss \<Longrightarrow> keeps (assigned s) \<rho> (pexec F pc n s \<rho>)"
  shows "keeps (concat (map assigned ss)) \<rho> (pblock F pc n ss \<rho>)"
  using assms
proof (induction ss arbitrary: \<rho>)
  case (Cons s ss)
  have 1: "keeps (assigned s) \<rho> (pexec F pc n s \<rho>)" using Cons.prems by simp
  show ?case
  proof (cases "pexec F pc n s \<rho>")
    case (PNext \<rho>1)
    have "keeps (concat (map assigned ss)) \<rho>1 (pblock F pc n ss \<rho>1)" using Cons by simp
    then have "keeps (concat (map assigned (s # ss))) \<rho>1 (pblock F pc n ss \<rho>1)" by (rule keeps_mono) simp
    from keeps_trans [OF _ this, of \<rho>] show ?thesis using 1 PNext by simp
  qed (use 1 in \<open>auto intro: keeps_mono\<close>)
qed simp

lemma keeps_while:
  assumes "\<And>\<rho>. keeps ns \<rho> (body \<rho>)"
  shows "keeps ns \<rho> (while_loop k c F body \<rho>)"
proof (induction k arbitrary: \<rho>)
  case (Suc k)
  have "keeps ns \<rho> (case body \<rho> of PNext \<rho>' \<Rightarrow> while_loop k c F body \<rho>' | PCont \<rho>' \<Rightarrow> while_loop k c F body \<rho>' | PBreak \<rho>' \<Rightarrow> PNext \<rho>' | r \<Rightarrow> r)"
    using assms [of \<rho>] Suc [THEN keeps_trans [rotated]] by (cases "body \<rho>") auto
  then show ?case unfolding while_loop.simps by (intro keeps_with_val) simp
qed simp

lemma keeps_count:
  assumes "\<And>\<rho>. keeps ns \<rho> (body \<rho>)"
  shows "keeps (v # ns) \<rho> (count_rounds k v i e down body \<rho>)"
proof (induction k arbitrary: \<rho> i)
  case (Suc k)
  have "keeps (v # ns) (\<rho>(v \<mapsto> PInt i)) (case body (\<rho>(v \<mapsto> PInt i)) of
      PNext \<rho>' \<Rightarrow> count_rounds k v (if down then i - 1 else i + 1) e down body \<rho>'
    | PCont \<rho>' \<Rightarrow> count_rounds k v (if down then i - 1 else i + 1) e down body \<rho>' | PBreak \<rho>' \<Rightarrow> PNext \<rho>' | r \<Rightarrow> r)"
    using assms [of "\<rho>(v \<mapsto> PInt i)"] Suc [THEN keeps_trans [rotated]] by (cases "body (\<rho>(v \<mapsto> PInt i))") auto
  then show ?case by (auto simp: keeps_def)
qed simp

lemma pexec_keeps: "keeps (assigned s) \<rho> (pexec F pc n s \<rho>)"
proof (induction s arbitrary: \<rho>)
  case (EBind ns vs d)
  show ?case by (auto simp: with_vals_def map_add_def map_of_eq_None_iff split: pres.splits option.splits dest!: map_of_SomeD set_zip_leftD)
next
  case (EIf c th el)
  have "keeps (assigned (EIf c th el)) \<rho> (pblock F pc n th \<rho>)" "keeps (assigned (EIf c th el)) \<rho> (pblock F pc n el \<rho>)"
    using EIf by (auto intro!: keeps_mono [OF keeps_block])
  then show ?case by (auto intro!: keeps_with_val)
next
  case (EWhile c body)
  then show ?case by (auto intro!: keeps_while keeps_block)
next
  case (EForCount v i e down body res)
  then show ?case by (auto intro!: keeps_with_val keeps_count keeps_block split: pval.splits)
qed (auto intro!: keeps_with_val)

lemma pblock_keeps: "keeps (concat (map assigned ss)) \<rho> (pblock F pc n ss \<rho>)"
  by (rule keeps_block) (rule pexec_keeps)

end
