(* ===== verification/Emit_Env.thy ===== *)
theory Emit_Env
  imports Emit_Typing
begin

text \<open>
  The environments the simulation of statements relates: what running a block may change, how a Go environment
  holds a Python one, and what the typing of statements says of names.
\<close>

section \<open>Environments across statements\<close>

text \<open>Running statements changes user variables and declares new names in the innermost block; enclosing blocks keep
  their names and everything that is not a user variable.\<close>

definition frames_same :: "genv \<Rightarrow> genv \<Rightarrow> bool" where
  "frames_same \<sigma> \<sigma>' \<longleftrightarrow> list_all2 (\<lambda>f f'. \<forall>n. (f' n = None \<longleftrightarrow> f n = None) \<and> (\<not> user_name n \<longrightarrow> f' n = f n)) \<sigma> \<sigma>'"

definition upd :: "builder \<Rightarrow> genv \<Rightarrow> genv \<Rightarrow> bool" where
  "upd b \<sigma> \<sigma>' \<longleftrightarrow> \<sigma> \<noteq> [] \<and> \<sigma>' \<noteq> [] \<and> frames_same (tl \<sigma>) (tl \<sigma>') \<and>
     (\<forall>n. \<not> user_name n \<longrightarrow> \<not> later b n \<longrightarrow> hd \<sigma>' n = hd \<sigma> n) \<and>
     (\<forall>n. user_name n \<longrightarrow> hd \<sigma> n \<noteq> None \<longrightarrow> hd \<sigma>' n \<noteq> None) \<and>
     (\<forall>n. user_name n \<longrightarrow> hd \<sigma> n = None \<longrightarrow> hd \<sigma>' n \<noteq> None \<longrightarrow> glook \<sigma> n = None)"

lemma frames_same_refl [simp]: "frames_same \<sigma> \<sigma>"
  by (simp add: frames_same_def list_all2_refl)

lemma frames_same_trans: "frames_same \<sigma>1 \<sigma>2 \<Longrightarrow> frames_same \<sigma>2 \<sigma>3 \<Longrightarrow> frames_same \<sigma>1 \<sigma>3"
  unfolding frames_same_def by (rule list_all2_trans) auto

lemma frames_same_Cons:
  "frames_same (f # \<sigma>) (f' # \<sigma>') \<longleftrightarrow>
     (\<forall>n. (f' n = None \<longleftrightarrow> f n = None) \<and> (\<not> user_name n \<longrightarrow> f' n = f n)) \<and> frames_same \<sigma> \<sigma>'"
  by (simp add: frames_same_def)

lemma frames_same_length: "frames_same \<sigma> \<sigma>' \<Longrightarrow> length \<sigma>' = length \<sigma>"
  by (simp add: frames_same_def list_all2_lengthD)

lemma frames_same_glook:
  assumes "frames_same \<sigma> \<sigma>'"
  shows "(glook \<sigma>' n = None \<longleftrightarrow> glook \<sigma> n = None) \<and> (\<not> user_name n \<longrightarrow> glook \<sigma>' n = glook \<sigma> n)"
  using frames_same_length [OF assms, symmetric] assms
proof (induction \<sigma> \<sigma>' rule: list_induct2)
  case (Cons f \<sigma> f' \<sigma>')
  then have ih: "(glook \<sigma>' n = None \<longleftrightarrow> glook \<sigma> n = None) \<and> (\<not> user_name n \<longrightarrow> glook \<sigma>' n = glook \<sigma> n)"
    and "f' n = None \<longleftrightarrow> f n = None" "\<not> user_name n \<longrightarrow> f' n = f n" by (simp_all add: frames_same_Cons)
  then show ?case by (cases "f n"; cases "f' n") simp_all
qed simp

lemma frames_same_upd: "frames_same \<sigma> \<sigma>' \<Longrightarrow> \<sigma> \<noteq> [] \<Longrightarrow> upd b \<sigma> \<sigma>'"
  by (cases \<sigma>; cases \<sigma>') (auto simp: frames_same_def upd_def simp del: not_None_eq)

lemma frames_same_fresh: "frames_same \<sigma> \<sigma>' \<Longrightarrow> fresh b \<sigma> \<Longrightarrow> \<sigma> \<noteq> [] \<Longrightarrow> fresh b \<sigma>'"
  by (cases \<sigma>; cases \<sigma>') (auto simp: frames_same_def fresh_def simp del: not_None_eq)

lemma upd_refl [simp]: "upd b \<sigma> \<sigma> \<longleftrightarrow> \<sigma> \<noteq> []"
  by (auto simp: upd_def)

lemma ext_upd: "ext b \<sigma> \<sigma>' \<Longrightarrow> upd b \<sigma> \<sigma>'"
  by (auto simp: ext_def upd_def user_not_later)

lemma upd_glook:
  assumes "upd b \<sigma> \<sigma>'"
  shows "\<not> user_name n \<Longrightarrow> \<not> later b n \<Longrightarrow> glook \<sigma>' n = glook \<sigma> n"
    and "glook \<sigma> n \<noteq> None \<Longrightarrow> user_name n \<Longrightarrow> glook \<sigma>' n \<noteq> None"
  using assms frames_same_glook [of "tl \<sigma>" "tl \<sigma>'"] by (auto simp: upd_def glook_hd split: option.splits simp del: not_None_eq)

lemma upd_trans:
  assumes "upd b \<sigma>1 \<sigma>2" and "upd b' \<sigma>2 \<sigma>3" and "adv b b'"
  shows "upd b \<sigma>1 \<sigma>3"
proof -
  have "glook \<sigma>1 n = None" if "user_name n" "hd \<sigma>1 n = None" "hd \<sigma>3 n \<noteq> None" for n
  proof (cases "hd \<sigma>2 n")
    case None
    then have "glook \<sigma>2 n = None" using assms(2) that by (simp add: upd_def)
    then show ?thesis using upd_glook(2) [OF assms(1)] that by blast
  next
    case (Some g)
    then show ?thesis using assms(1) that by (simp add: upd_def)
  qed
  moreover have "hd \<sigma>3 n = hd \<sigma>1 n" if "\<not> user_name n" "\<not> later b n" for n
    using assms that adv_later [OF assms(3), of n] by (auto simp: upd_def)
  ultimately show ?thesis
    using assms(1,2) frames_same_trans [of "tl \<sigma>1" "tl \<sigma>2" "tl \<sigma>3"] by (simp add: upd_def)
qed

lemma upd_leave: "upd b (f # \<sigma>) \<sigma>' \<Longrightarrow> frames_same \<sigma> (tl \<sigma>')"
  by (simp add: upd_def)

text \<open>The Go environment holds the Python one: assigned names have their values and declared names some value of
  their representation; no other user name is declared.\<close>

definition vals :: "tenv \<Rightarrow> tenv \<Rightarrow> penv \<Rightarrow> genv \<Rightarrow> bool" where
  "vals \<Gamma> D \<rho> \<sigma> \<longleftrightarrow> vars_ok \<Gamma> \<rho> \<sigma> \<and> (\<forall>n r. D n = Some r \<longrightarrow> user_name n \<and> (\<exists>v. has r v \<and> glook \<sigma> n = Some (emb v)))"

definition only :: "tenv \<Rightarrow> genv \<Rightarrow> bool" where
  "only D \<sigma> \<longleftrightarrow> (\<forall>n. user_name n \<longrightarrow> glook \<sigma> n \<noteq> None \<longrightarrow> D n \<noteq> None)"

lemma vals_glook: "vals \<Gamma> D \<rho> \<sigma> \<Longrightarrow> D n = Some r \<Longrightarrow> glook \<sigma> n \<noteq> None"
  by (fastforce simp: vals_def)

lemma upd_hidden:
  assumes "upd b ((\<lambda>_. None) # \<sigma>) \<sigma>'" and "glook \<sigma> n \<noteq> None" and "user_name n"
  shows "glook (tl \<sigma>') n = glook \<sigma>' n"
proof -
  have "hd \<sigma>' n = None" using assms by (auto simp: upd_def)
  then show ?thesis using assms(1) by (simp add: upd_def glook_hd)
qed

lemma vals_leave:
  assumes "upd b ((\<lambda>_. None) # \<sigma>) \<sigma>'" and "vals \<Gamma>' D' \<rho>' \<sigma>'" and "vals \<Gamma> D \<rho> \<sigma>" and "\<Gamma>1 \<subseteq>\<^sub>m \<Gamma>'" and "\<Gamma>1 \<subseteq>\<^sub>m D" and "D \<subseteq>\<^sub>m D'"
  shows "vals \<Gamma>1 D \<rho>' (tl \<sigma>')"
proof -
  have look: "glook (tl \<sigma>') n = glook \<sigma>' n" if "D n = Some r" for n r
    using upd_hidden [OF assms(1)] vals_glook [OF assms(3) that] assms(3) that by (simp add: vals_def)
  have "vars_ok \<Gamma>1 \<rho>' (tl \<sigma>')"
    unfolding vars_ok_def
  proof (intro allI impI)
    fix n r assume "\<Gamma>1 n = Some r"
    then have "\<Gamma>' n = Some r" "D n = Some r" using assms(4,5) by (auto simp: map_le_def dom_def)
    then show "user_name n \<and> (\<exists>v. \<rho>' n = Some v \<and> has r v \<and> glook (tl \<sigma>') n = Some (emb v))"
      using assms(2) look by (auto simp: vals_def vars_ok_def)
  qed
  moreover have "user_name n \<and> (\<exists>v. has r v \<and> glook (tl \<sigma>') n = Some (emb v))" if "D n = Some r" for n r
  proof -
    have "D' n = Some r" using assms(6) that by (auto simp: map_le_def dom_def)
    then show ?thesis using assms(2) look [OF that] by (auto simp: vals_def)
  qed
  ultimately show ?thesis by (simp add: vals_def)
qed

lemma only_leave: "frames_same \<sigma> \<sigma>' \<Longrightarrow> only D \<sigma> \<Longrightarrow> only D \<sigma>'"
  by (simp add: only_def frames_same_glook)

lemma vals_weaken: "vals \<Gamma> D \<rho> \<sigma> \<Longrightarrow> \<Gamma>' \<subseteq>\<^sub>m \<Gamma> \<Longrightarrow> D' \<subseteq>\<^sub>m D \<Longrightarrow> vals \<Gamma>' D' \<rho> \<sigma>"
  by (fastforce simp: vals_def vars_ok_def map_le_def dom_def)

lemma vals_ext: "vals \<Gamma> D \<rho> \<sigma> \<Longrightarrow> ext b \<sigma> \<sigma>' \<Longrightarrow> vals \<Gamma> D \<rho> \<sigma>'"
  by (auto simp: vals_def vars_ok_ext ext_glook user_not_later)

lemma only_ext: "only D \<sigma> \<Longrightarrow> ext b \<sigma> \<sigma>' \<Longrightarrow> only D \<sigma>'"
  by (auto simp: only_def ext_glook user_not_later)

lemma handoff_upd:
  assumes "handoff h vs b' \<sigma>" and "upd b \<sigma> \<sigma>'" and "only D \<sigma>'" and "D h = None"
  shows "handoff h vs b' \<sigma>'"
proof -
  have "\<not> user_name (deoptParam i)" for i by (simp add: user_name_def)
  then have "glook \<sigma>' (deoptParam i) = glook \<sigma> (deoptParam i)" for i using upd_glook(1) [OF assms(2)] by simp
  moreover have "glook \<sigma>' h = None" using assms(1,3,4) by (auto simp: handoff_def only_def)
  ultimately show ?thesis using assms(1) by (simp add: handoff_def)
qed

lemma clean_upd:
  assumes "clean S b \<sigma>" and "upd b \<sigma> \<sigma>'" and "fresh b' \<sigma>'" and "only D \<sigma>'" and "\<And>f. S f \<noteq> None \<Longrightarrow> D f = None"
  shows "clean S b' \<sigma>'"
proof -
  have "glook \<sigma>' n = None" if "n \<in> set reserved" for n
    using that upd_glook(1) [OF assms(2), of n] assms(1) reserved_not_later by (auto simp: clean_def user_name_def)
  moreover have "user_name f \<and> glook \<sigma>' f = None" if "S f \<noteq> None" for f
    using that assms(1,4) assms(5) [OF that] by (auto simp: clean_def only_def simp del: not_None_eq)
  ultimately show ?thesis using assms(2,3) by (simp add: clean_def upd_def)
qed

text \<open>Assignment and declaration of user variables.\<close>

lemma gset_spec:
  assumes "glook \<sigma> n \<noteq> None"
  shows "\<exists>\<sigma>'. gset n v \<sigma> = Some \<sigma>' \<and> (\<forall>m. glook \<sigma>' m = (if m = n then Some v else glook \<sigma> m)) \<and> (user_name n \<longrightarrow> frames_same \<sigma> \<sigma>')"
  using assms
proof (induction \<sigma>)
  case (Cons f \<sigma>)
  show ?case
  proof (cases "f n")
    case None
    then obtain \<sigma>' where "gset n v \<sigma> = Some \<sigma>'" "\<forall>m. glook \<sigma>' m = (if m = n then Some v else glook \<sigma> m)" "user_name n \<longrightarrow> frames_same \<sigma> \<sigma>'"
      using Cons by auto
    then show ?thesis using None by (auto simp: frames_same_Cons split: option.splits)
  qed (auto simp: frames_same_Cons)
qed simp

lemma like_value:
  assumes "has r u" and "has r v" and "c \<Longrightarrow> r \<in> set [intRepr, floatRepr]"
  shows "like F (emb u) (embc c v) = Some (emb v)"
proof (cases c)
  case True
  then show ?thesis using assms by (auto simp: has_scalar embc_def)
next
  case False
  then show ?thesis using assms(1,2) unfolding embc_def has_def
    by (cases u; cases v; cases "repr_Scalar r") (auto split: option.splits)
qed

lemma assign_user:
  assumes "vals \<Gamma> D \<rho> \<sigma>" and "D n = Some r" and "has r v" and "c \<Longrightarrow> r \<in> set [intRepr, floatRepr]" and "\<Gamma> \<subseteq>\<^sub>m D"
  shows "\<exists>\<sigma>'. assign_one F (GIdent n, embc c v) \<sigma> = Some \<sigma>' \<and> frames_same \<sigma> \<sigma>' \<and> vals (\<Gamma>(n \<mapsto> r)) D (\<rho>(n \<mapsto> v)) \<sigma>'"
proof -
  obtain u where u: "user_name n" "has r u" "glook \<sigma> n = Some (emb u)" using assms(1,2) by (auto simp: vals_def)
  then obtain \<sigma>' where s: "gset n (emb v) \<sigma> = Some \<sigma>'" "\<forall>m. glook \<sigma>' m = (if m = n then Some (emb v) else glook \<sigma> m)" "frames_same \<sigma> \<sigma>'"
    using gset_spec [of \<sigma> n "emb v"] by auto
  have "n \<noteq> ''_''" using u(1) by (auto simp: user_name_def)
  then have "assign_one F (GIdent n, embc c v) \<sigma> = Some \<sigma>'" using u(3) s(1) like_value [OF u(2) assms(3,4)] by simp
  moreover have "vals (\<Gamma>(n \<mapsto> r)) D (\<rho>(n \<mapsto> v)) \<sigma>'"
    using assms(1-3) u(1) s(2) by (auto simp: vals_def vars_ok_def)
  ultimately show ?thesis using s(3) by blast
qed

lemma only_glook: "only D \<sigma> \<Longrightarrow> D n = None \<Longrightarrow> user_name n \<Longrightarrow> glook \<sigma> n = None"
  unfolding only_def by blast

lemma declared:
  assumes "\<sigma> \<noteq> []" and "only D \<sigma>" and "D n = None" and "user_name n" and "vals \<Gamma> D \<rho> \<sigma>" and "\<Gamma> \<subseteq>\<^sub>m D" and "has r v"
  shows "upd b \<sigma> ((hd \<sigma>)(n \<mapsto> emb v) # tl \<sigma>)" and "fresh b \<sigma> \<Longrightarrow> fresh b ((hd \<sigma>)(n \<mapsto> emb v) # tl \<sigma>)"
    and "vals (\<Gamma>(n \<mapsto> r)) (D(n \<mapsto> r)) (\<rho>(n \<mapsto> v)) ((hd \<sigma>)(n \<mapsto> emb v) # tl \<sigma>)"
    and "vals \<Gamma> (D(n \<mapsto> r)) \<rho> ((hd \<sigma>)(n \<mapsto> emb v) # tl \<sigma>)"
    and "only (D(n \<mapsto> r)) ((hd \<sigma>)(n \<mapsto> emb v) # tl \<sigma>)"
proof -
  have none: "glook \<sigma> n = None" by (rule only_glook) fact+
  have look: "glook ((hd \<sigma>)(n \<mapsto> emb v) # tl \<sigma>) m = (if m = n then Some (emb v) else glook \<sigma> m)" for m
    using assms(1) by (simp add: glook_hd)
  have gn: "\<Gamma> n = None" using assms(3,6) by (auto simp: map_le_def dom_def)
  show "upd b \<sigma> ((hd \<sigma>)(n \<mapsto> emb v) # tl \<sigma>)" using assms(1,4) none by (simp add: upd_def)
  show "fresh b ((hd \<sigma>)(n \<mapsto> emb v) # tl \<sigma>)" if "fresh b \<sigma>"
    using that user_not_later [OF assms(4)] by (auto simp: fresh_def)
  show "vals (\<Gamma>(n \<mapsto> r)) (D(n \<mapsto> r)) (\<rho>(n \<mapsto> v)) ((hd \<sigma>)(n \<mapsto> emb v) # tl \<sigma>)"
    using assms(4,5,7) unfolding vals_def vars_ok_def look by auto
  show "vals \<Gamma> (D(n \<mapsto> r)) \<rho> ((hd \<sigma>)(n \<mapsto> emb v) # tl \<sigma>)"
    using assms(4,5,7) gn unfolding vals_def vars_ok_def look by auto
  show "only (D(n \<mapsto> r)) ((hd \<sigma>)(n \<mapsto> emb v) # tl \<sigma>)"
    using assms(2) unfolding only_def look by auto
qed

section \<open>What the typing of statements gives\<close>

definition wf_env :: "sigs \<Rightarrow> string \<Rightarrow> tenv \<Rightarrow> tenv \<Rightarrow> bool" where
  "wf_env S h \<Gamma> D \<longleftrightarrow> \<Gamma> \<subseteq>\<^sub>m D \<and> (\<forall>n. D n \<noteq> None \<longrightarrow> user_name n \<and> S n = None \<and> n \<noteq> h)"

definition grows :: "sigs \<Rightarrow> string \<Rightarrow> tenv \<Rightarrow> tenv \<Rightarrow> tenv \<Rightarrow> tenv \<Rightarrow> bool" where
  "grows S h \<Gamma> D \<Gamma>' D' \<longleftrightarrow> wf_env S h \<Gamma>' D' \<and> \<Gamma> \<subseteq>\<^sub>m \<Gamma>' \<and> D \<subseteq>\<^sub>m D'"

lemma grows_refl: "wf_env S h \<Gamma> D \<Longrightarrow> grows S h \<Gamma> D \<Gamma> D"
  by (simp add: grows_def)

lemma grows_trans: "grows S h \<Gamma> D \<Gamma>1 D1 \<Longrightarrow> grows S h \<Gamma>1 D1 \<Gamma>2 D2 \<Longrightarrow> grows S h \<Gamma> D \<Gamma>2 D2"
  by (auto simp: grows_def intro: map_le_trans)

lemma map_le_iff: "m \<subseteq>\<^sub>m m' \<longleftrightarrow> (\<forall>n v. m n = Some v \<longrightarrow> m' n = Some v)"
  by (auto simp: map_le_def dom_def)

lemma grows_declare:
  assumes "wf_env S h \<Gamma> D" and "may_declare S h D n"
  shows "grows S h \<Gamma> D (\<Gamma>(n \<mapsto> r)) (D(n \<mapsto> r))" and "grows S h \<Gamma> D \<Gamma> (D(n \<mapsto> r))"
  using assms by (auto simp: grows_def wf_env_def may_declare_def map_le_iff)

lemma grows_assign: "wf_env S h \<Gamma> D \<Longrightarrow> D n = Some r \<Longrightarrow> grows S h \<Gamma> D (\<Gamma>(n \<mapsto> r)) D"
  by (auto simp: grows_def wf_env_def map_le_iff)

lemma add_zip_Cons: "n \<notin> set ns \<Longrightarrow> m ++ map_of (zip (n # ns) (r # rs)) = m(n \<mapsto> r) ++ map_of (zip ns rs)"
  by (auto simp: map_add_def fun_eq_iff split: option.splits dest!: map_of_SomeD set_zip_leftD)

lemma grows_declares:
  assumes "wf_env S h \<Gamma> D" and "length ns = length rs" and "list_all (may_declare S h D) ns" and "distinct ns"
  shows "grows S h \<Gamma> D (\<Gamma> ++ map_of (zip ns rs)) (D ++ map_of (zip ns rs))"
  using assms(2,1,3,4)
proof (induction ns rs arbitrary: \<Gamma> D rule: list_induct2)
  case (Cons n ns r rs)
  have 1: "grows S h \<Gamma> D (\<Gamma>(n \<mapsto> r)) (D(n \<mapsto> r))" using Cons.prems by (intro grows_declare) simp_all
  have "list_all (may_declare S h (D(n \<mapsto> r))) ns" using Cons.prems by (auto simp: list_all_iff may_declare_def)
  moreover have "wf_env S h (\<Gamma>(n \<mapsto> r)) (D(n \<mapsto> r))" using 1 by (simp add: grows_def)
  ultimately have "grows S h (\<Gamma>(n \<mapsto> r)) (D(n \<mapsto> r)) (\<Gamma>(n \<mapsto> r) ++ map_of (zip ns rs)) (D(n \<mapsto> r) ++ map_of (zip ns rs))"
    using Cons.IH Cons.prems(3) by simp
  moreover have "n \<notin> set ns" using Cons.prems(3) by simp
  ultimately show ?case using grows_trans [OF 1] by (simp only: add_zip_Cons not_False_eq_True)
qed (simp add: grows_refl)

lemma assigns_look:
  assumes "length ns = length rs" and "map D ns = map Some rs" and m: "map_of (zip ns rs) n = Some r"
  shows "D n = Some r"
proof -
  obtain i where "i < length ns" "n = ns ! i" "r = rs ! i" using map_of_SomeD [OF m] by (auto simp: in_set_zip)
  then show ?thesis using nth_map [of i ns D] assms(1,2) by simp
qed

lemma assigns_same: "length ns = length rs \<Longrightarrow> map D ns = map Some rs \<Longrightarrow> D ++ map_of (zip ns rs) = D"
  using assigns_look [of ns rs D] by (auto simp: map_add_def fun_eq_iff split: option.splits)

lemma grows_assigns:
  assumes "wf_env S h \<Gamma> D" and "length ns = length rs" and "map D ns = map Some rs"
  shows "grows S h \<Gamma> D (\<Gamma> ++ map_of (zip ns rs)) (D ++ map_of (zip ns rs))"
proof -
  have "\<Gamma> \<subseteq>\<^sub>m \<Gamma> ++ map_of (zip ns rs)" "\<Gamma> ++ map_of (zip ns rs) \<subseteq>\<^sub>m D"
    using assms(1) assigns_look [OF assms(2,3)] unfolding wf_env_def map_le_iff map_add_def by (fastforce split: option.splits)+
  then show ?thesis using assms by (simp add: assigns_same grows_def wf_env_def)
qed

lemma within_Some: "within D \<Gamma> n = Some v \<longleftrightarrow> D n \<noteq> None \<and> \<Gamma> n = Some v"
  by (simp add: within_def)

lemma agree_Some: "(if x = y then x else None) = Some v \<longleftrightarrow> x = Some v \<and> y = Some v"
  by auto

lemma within_le:
  assumes "\<Gamma> \<subseteq>\<^sub>m D'" and "D \<subseteq>\<^sub>m D'"
  shows "within D \<Gamma> \<subseteq>\<^sub>m D"
  using assms unfolding map_le_iff within_Some by (metis not_None_eq option.inject)

lemma join_env_Some:
  "join_env D th \<Gamma>t el \<Gamma>e n = Some v \<longleftrightarrow>
     D n \<noteq> None \<and> (list_ex ends th \<or> \<Gamma>t n = Some v) \<and> (list_ex ends el \<and> \<not> list_ex ends th \<or> \<Gamma>e n = Some v)"
  unfolding join_env_def by (simp add: within_Some agree_Some)

lemma join_env_le:
  assumes "\<Gamma>t \<subseteq>\<^sub>m Dt" "\<Gamma>e \<subseteq>\<^sub>m De" "D \<subseteq>\<^sub>m Dt" "D \<subseteq>\<^sub>m De"
  shows "join_env D th \<Gamma>t el \<Gamma>e \<subseteq>\<^sub>m D"
    and "\<not> list_ex ends th \<Longrightarrow> join_env D th \<Gamma>t el \<Gamma>e \<subseteq>\<^sub>m \<Gamma>t"
    and "\<not> list_ex ends el \<Longrightarrow> join_env D th \<Gamma>t el \<Gamma>e \<subseteq>\<^sub>m \<Gamma>e"
    and "\<Gamma> \<subseteq>\<^sub>m D \<Longrightarrow> \<Gamma> \<subseteq>\<^sub>m \<Gamma>t \<Longrightarrow> \<Gamma> \<subseteq>\<^sub>m \<Gamma>e \<Longrightarrow> \<Gamma> \<subseteq>\<^sub>m join_env D th \<Gamma>t el \<Gamma>e"
proof -
  have "join_env D th \<Gamma>t el \<Gamma>e \<subseteq>\<^sub>m within D \<Gamma>t \<or> join_env D th \<Gamma>t el \<Gamma>e \<subseteq>\<^sub>m within D \<Gamma>e"
    unfolding map_le_iff join_env_Some within_Some by blast
  then show "join_env D th \<Gamma>t el \<Gamma>e \<subseteq>\<^sub>m D"
    using within_le [OF assms(1,3)] within_le [OF assms(2,4)] map_le_trans by blast
  show "\<not> list_ex ends th \<Longrightarrow> join_env D th \<Gamma>t el \<Gamma>e \<subseteq>\<^sub>m \<Gamma>t" "\<not> list_ex ends el \<Longrightarrow> join_env D th \<Gamma>t el \<Gamma>e \<subseteq>\<^sub>m \<Gamma>e"
    unfolding map_le_iff join_env_Some by blast+
  show "\<Gamma> \<subseteq>\<^sub>m join_env D th \<Gamma>t el \<Gamma>e" if "\<Gamma> \<subseteq>\<^sub>m D" "\<Gamma> \<subseteq>\<^sub>m \<Gamma>t" "\<Gamma> \<subseteq>\<^sub>m \<Gamma>e"
    using that unfolding map_le_iff join_env_Some by simp
qed

lemma block_typ_grows:
  assumes "\<And>s lp \<Gamma> D \<Gamma>' D'. s \<in> set ss \<Longrightarrow> wf_env S h \<Gamma> D \<Longrightarrow> stmt_typ S h rt lp s (\<Gamma>, D) = Some (\<Gamma>', D') \<Longrightarrow> grows S h \<Gamma> D \<Gamma>' D'"
    and "wf_env S h \<Gamma> D" and "block_typ S h rt lp ss (\<Gamma>, D) = Some (\<Gamma>', D')"
  shows "grows S h \<Gamma> D \<Gamma>' D'"
  using assms
proof (induction ss arbitrary: \<Gamma> D)
  case (Cons s ss)
  then obtain \<Gamma>1 D1 where 1: "stmt_typ S h rt lp s (\<Gamma>, D) = Some (\<Gamma>1, D1)" "block_typ S h rt lp ss (\<Gamma>1, D1) = Some (\<Gamma>', D')"
    by (auto split: bind_splits)
  have g: "grows S h \<Gamma> D \<Gamma>1 D1" using Cons.prems(1) [OF _ Cons.prems(2) 1(1)] by simp
  then have w: "wf_env S h \<Gamma>1 D1" by (simp add: grows_def)
  have "grows S h \<Gamma>1 D1 \<Gamma>' D'" by (rule Cons.IH [OF Cons.prems(1) [OF list.set_intros(2)] w 1(2)])
  then show ?case by (rule grows_trans [OF g])
qed (simp add: grows_refl)

lemma EIf_typE:
  assumes "stmt_typ S h rt lp (EIf c th el) (\<Gamma>, D) = Some (\<Gamma>', D')"
  obtains r \<Gamma>t Dt \<Gamma>e De where "typ_of S \<Gamma> c = Some r" "r \<in> set value_reprs" "block_typ S h rt lp th (\<Gamma>, D) = Some (\<Gamma>t, Dt)"
    "block_typ S h rt lp el (\<Gamma>, D) = Some (\<Gamma>e, De)" "\<Gamma>' = join_env D th \<Gamma>t el \<Gamma>e" "D' = D"
proof -
  obtain r where r: "typ_of S \<Gamma> c = Some r" using assms by (cases "typ_of S \<Gamma> c") simp_all
  obtain \<Gamma>t Dt where t: "block_typ S h rt lp th (\<Gamma>, D) = Some (\<Gamma>t, Dt)" using assms r by (cases "block_typ S h rt lp th (\<Gamma>, D)") auto
  obtain \<Gamma>e De where e: "block_typ S h rt lp el (\<Gamma>, D) = Some (\<Gamma>e, De)" using assms r t by (cases "block_typ S h rt lp el (\<Gamma>, D)") auto
  show thesis by (rule that [OF r _ t e]) (use assms r t e in \<open>auto split: if_splits\<close>)
qed

lemma stmt_typ_grows:
  "wf_env S h \<Gamma> D \<Longrightarrow> stmt_typ S h rt lp s (\<Gamma>, D) = Some (\<Gamma>', D') \<Longrightarrow> grows S h \<Gamma> D \<Gamma>' D'"
proof (induction s arbitrary: lp \<Gamma> D \<Gamma>' D')
  case (EDefine n v)
  then show ?case by (auto split: bind_splits if_splits intro: grows_declare)
next
  case (EAssign n v)
  then show ?case by (auto split: bind_splits if_splits intro: grows_assign)
next
  case (EVarDecl n r)
  then show ?case by (auto split: if_splits intro: grows_declare)
next
  case (EBind ns vs d)
  then obtain rs where "typs_of S \<Gamma> vs = Some rs" and ns: "length ns = length vs" "distinct ns"
    "if d then list_all (may_declare S h D) ns \<and> list_all definable vs else map D ns = map Some rs"
    and g: "\<Gamma>' = \<Gamma> ++ map_of (zip ns rs)" "D' = D ++ map_of (zip ns rs)"
    by (auto split: bind_splits if_splits)
  moreover have "length vs = length rs" if "typs_of S \<Gamma> vs = Some rs" for vs rs
    using that by (induction vs arbitrary: rs) (auto split: bind_splits)
  ultimately have "length ns = length rs" by simp
  then show ?case using EBind.prems(1) ns(2,3) grows_declares grows_assigns unfolding g by (cases d) simp_all
next
  case (EIf c th el)
  from EIf.prems(2) obtain r \<Gamma>t Dt \<Gamma>e De where "block_typ S h rt lp th (\<Gamma>, D) = Some (\<Gamma>t, Dt)" "block_typ S h rt lp el (\<Gamma>, D) = Some (\<Gamma>e, De)"
    and g: "\<Gamma>' = join_env D th \<Gamma>t el \<Gamma>e" "D' = D"
    by (rule EIf_typE)
  then have "grows S h \<Gamma> D \<Gamma>t Dt" "grows S h \<Gamma> D \<Gamma>e De"
    by (auto intro: block_typ_grows [OF EIf.IH(1) EIf.prems(1)] block_typ_grows [OF EIf.IH(2) EIf.prems(1)])
  then show ?case using EIf.prems(1) join_env_le(1,4) [of \<Gamma>t Dt \<Gamma>e De D] unfolding g by (simp add: grows_def wf_env_def)
qed (auto split: bind_splits if_splits intro: grows_refl)

lemma block_grows: "wf_env S h \<Gamma> D \<Longrightarrow> block_typ S h rt lp ss (\<Gamma>, D) = Some (\<Gamma>', D') \<Longrightarrow> grows S h \<Gamma> D \<Gamma>' D'"
  by (rule block_typ_grows) (auto intro: stmt_typ_grows)

end
