(* ===== verification/Emit_Stmts.thy ===== *)
theory Emit_Stmts
  imports Emit_Env
begin

text \<open>
  The simulation of statements: running the lowered block ends the way the Python block ends, in a Go environment that
  holds the Python one, or hands off.
\<close>

section \<open>Outcomes\<close>

text \<open>How a Go outcome answers a Python one. A \<open>break\<close> or \<open>continue\<close> need only keep what held before the statement.\<close>

definition outcome :: "fops \<Rightarrow> string \<Rightarrow> gval list \<Rightarrow> builder \<Rightarrow> builder \<Rightarrow> genv \<Rightarrow> tenv \<Rightarrow> tenv \<Rightarrow> tenv \<Rightarrow> tenv \<Rightarrow> gout \<Rightarrow> pout \<Rightarrow> bool" where
  "outcome F h vs b b' \<sigma> \<Gamma> D \<Gamma>' D' out p \<longleftrightarrow>
     deoptUsed b' \<and> out = GTail h vs \<or>
     (case p of
        PNext \<rho> \<Rightarrow> \<exists>\<sigma>'. out = GNext \<sigma>' \<and> upd b \<sigma> \<sigma>' \<and> fresh b' \<sigma>' \<and> vals \<Gamma>' D' \<rho> \<sigma>' \<and> only D' \<sigma>'
      | PBreak \<rho> \<Rightarrow> \<exists>\<sigma>'. out = GBreak \<sigma>' \<and> upd b \<sigma> \<sigma>' \<and> vals \<Gamma> D \<rho> \<sigma>'
      | PCont \<rho> \<Rightarrow> \<exists>\<sigma>'. out = GCont \<sigma>' \<and> upd b \<sigma> \<sigma>' \<and> vals \<Gamma> D \<rho> \<sigma>'
      | PRet v \<Rightarrow> \<exists>g. out = GRet [g, VNil] \<and> has (b_ret b) v \<and> conv_type F (goType (b_ret b)) g = Some (emb v)
      | PExc c m \<Rightarrow> out = GRet [zero_val (b_ret b), VErr c m]
      | PFuel \<Rightarrow> out = GFuel
      | PStuck \<Rightarrow> False)"

text \<open>A Go outcome that leaves no declaration behind.\<close>

fun closed :: "genv \<Rightarrow> gout \<Rightarrow> bool" where
  "closed \<sigma> (GNext \<sigma>') = frames_same \<sigma> \<sigma>'"
| "closed \<sigma> (GBreak \<sigma>') = frames_same \<sigma> \<sigma>'"
| "closed \<sigma> (GCont \<sigma>') = frames_same \<sigma> \<sigma>'"
| "closed \<sigma> _ = True"

lemma fresh_adv: "fresh b \<sigma> \<Longrightarrow> adv b b' \<Longrightarrow> fresh b' \<sigma>"
  using adv_later by (auto simp: fresh_def)

lemma upd_adv: "upd b \<sigma> \<sigma>' \<Longrightarrow> adv b0 b \<Longrightarrow> upd b0 \<sigma> \<sigma>'"
  using adv_later by (auto simp: upd_def)

lemma outcome_adv:
  assumes "outcome F h vs b b' \<sigma> \<Gamma> D \<Gamma>' D' out p" and "adv b0 b" and "adv b' b1"
  shows "outcome F h vs b0 b1 \<sigma> \<Gamma> D \<Gamma>' D' out p"
proof -
  have "b_ret b0 = b_ret b" "deoptUsed b' \<longrightarrow> deoptUsed b1" using assms(2,3) by (auto simp: adv_def)
  then show ?thesis
    using assms(1) upd_adv [OF _ assms(2)] fresh_adv [OF _ assms(3)] by (cases p) (auto simp: outcome_def)
qed

lemma outcome_seq:
  assumes "outcome F h vs b b1 \<sigma> \<Gamma> D \<Gamma>1 D1 out p" and "adv b b1" and "adv b1 b2" and "\<Gamma> \<subseteq>\<^sub>m \<Gamma>1" and "D \<subseteq>\<^sub>m D1"
    and "\<And>\<sigma>1 \<rho>1. p = PNext \<rho>1 \<Longrightarrow> upd b \<sigma> \<sigma>1 \<Longrightarrow> fresh b1 \<sigma>1 \<Longrightarrow> vals \<Gamma>1 D1 \<rho>1 \<sigma>1 \<Longrightarrow> only D1 \<sigma>1 \<Longrightarrow>
           outcome F h vs b1 b2 \<sigma>1 \<Gamma>1 D1 \<Gamma>2 D2 (k \<sigma>1) (f \<rho>1)"
  shows "outcome F h vs b b2 \<sigma> \<Gamma> D \<Gamma>2 D2 (seq out k) (pseq p f)"
proof (cases "deoptUsed b1 \<and> out = GTail h vs")
  case True
  then show ?thesis using assms(3) by (auto simp: outcome_def adv_def)
next
  case out: False
  have ret: "b_ret b1 = b_ret b" using assms(2) by (simp add: adv_def)
  show ?thesis
  proof (cases p)
    case (PNext \<rho>1)
    then obtain \<sigma>1 where s: "out = GNext \<sigma>1" "upd b \<sigma> \<sigma>1" "fresh b1 \<sigma>1" "vals \<Gamma>1 D1 \<rho>1 \<sigma>1" "only D1 \<sigma>1"
      using assms(1) out by (auto simp: outcome_def)
    from assms(6) [OF PNext s(2-)] show ?thesis
      using PNext s(1) ret upd_trans [OF s(2) _ assms(2)] vals_weaken [OF _ assms(4,5)]
      by (cases "f \<rho>1") (auto simp: outcome_def)
  qed (use assms(1) out in \<open>auto simp: outcome_def\<close>)
qed

lemma outcome_ext:
  assumes "sim (GTail h vs) b b1 \<sigma> q P out pr" and "adv b b1" and "adv b1 b2"
    and "\<And>\<sigma>1 v. pr = POk v \<Longrightarrow> ext b \<sigma> \<sigma>1 \<Longrightarrow> fresh b1 \<sigma>1 \<Longrightarrow> P \<sigma>1 v \<Longrightarrow> outcome F h vs b1 b2 \<sigma>1 \<Gamma> D \<Gamma>' D' (k \<sigma>1) (f v)"
  shows "outcome F h vs b b2 \<sigma> \<Gamma> D \<Gamma>' D' (seq out k) (case pr of POk v \<Rightarrow> f v | PRaise c m \<Rightarrow> PExc c m | PUndef \<Rightarrow> PStuck)"
proof (cases "deoptUsed b1 \<and> out = GTail h vs")
  case True
  then show ?thesis using assms(3) by (auto simp: outcome_def adv_def)
next
  case out: False
  have ret: "b_ret b1 = b_ret b" using assms(2) by (simp add: adv_def)
  show ?thesis
  proof (cases pr)
    case (POk v)
    then obtain \<sigma>1 where s: "out = GNext \<sigma>1" "ext b \<sigma> \<sigma>1" "fresh b1 \<sigma>1" "P \<sigma>1 v" using assms(1) out by (auto simp: sim_def)
    from assms(4) [OF POk s(2-)] show ?thesis
      using POk s(1) ret upd_trans [OF ext_upd [OF s(2)] _ assms(2)] by (cases "f v") (auto simp: outcome_def)
  qed (use assms(1) out in \<open>auto simp: outcome_def sim_def\<close>)
qed

lemma outcome_leave:
  assumes "outcome F h vs b b' ((\<lambda>_. None) # \<sigma>) \<Gamma> D \<Gamma>' D' out p" and "vals \<Gamma> D \<rho> \<sigma>" and "only D \<sigma>" and "fresh b \<sigma>" and "adv b b'"
    and "\<And>\<rho>'. p = PNext \<rho>' \<Longrightarrow> \<Gamma>1 \<subseteq>\<^sub>m \<Gamma>'" and "\<Gamma>1 \<subseteq>\<^sub>m D" and "D \<subseteq>\<^sub>m D'" and "\<Gamma> \<subseteq>\<^sub>m D" and "\<sigma> \<noteq> []"
  shows "outcome F h vs b b' \<sigma> \<Gamma> D \<Gamma>1 D (leave out) p" and "closed \<sigma> (leave out)"
proof -
  have u: "upd b \<sigma> (tl \<sigma>') \<and> fresh b' (tl \<sigma>') \<and> only D (tl \<sigma>')" if "upd b ((\<lambda>_. None) # \<sigma>) \<sigma>'" for \<sigma>'
    using frames_same_upd [OF upd_leave [OF that]] frames_same_fresh [OF upd_leave [OF that]] only_leave [OF upd_leave [OF that]]
      assms(3,4,10) fresh_adv [OF _ assms(5)] by blast
  show "outcome F h vs b b' \<sigma> \<Gamma> D \<Gamma>1 D (leave out) p"
    using assms(1) u assms(6) vals_leave [OF _ _ assms(2) _ assms(7,8)] vals_leave [OF _ _ assms(2) map_le_refl assms(9) map_le_refl]
    by (cases p) (auto simp: outcome_def)
  show "closed \<sigma> (leave out)"
    using assms(1) upd_leave by (cases p) (auto simp: outcome_def)
qed

lemma outcome_closed:
  assumes "outcome F h vs b b' \<sigma> \<Gamma> D \<Gamma>' D' out p" and "closed \<sigma> out" and "only D \<sigma>"
    and "\<And>\<rho>'. p = PNext \<rho>' \<Longrightarrow> \<Gamma>1 \<subseteq>\<^sub>m \<Gamma>'" and "D \<subseteq>\<^sub>m D'"
  shows "outcome F h vs b b' \<sigma> \<Gamma> D \<Gamma>1 D out p"
  using assms(1,2) only_leave [OF _ assms(3)] vals_weaken [OF _ assms(4,5)]
  by (cases p) (auto simp: outcome_def)

lemma closed_leave: "closed ((\<lambda>_. None) # \<sigma>) out \<Longrightarrow> closed \<sigma> (leave out)"
  by (cases out) (auto simp: frames_same_def list_all2_Cons1)

lemma later_pre [simp]: "later (b\<lparr>pre := p\<rparr>) = later b"
  by (intro HOL.ext) (simp add: later_def)

lemma pre_simps [simp]:
  "ext (b\<lparr>pre := p\<rparr>) = ext b" "fresh (b\<lparr>pre := p\<rparr>) = fresh b" "good F (b\<lparr>pre := p\<rparr>) = good F b"
  "clean S (b\<lparr>pre := p\<rparr>) = clean S b" "handoff h vs (b\<lparr>pre := p\<rparr>) = handoff h vs b" "upd (b\<lparr>pre := p\<rparr>) = upd b"
  "adv (b\<lparr>pre := p\<rparr>) b' = adv b b'" "adv b (b'\<lparr>pre := p\<rparr>) = adv b b'"
proof -
  show "ext (b\<lparr>pre := p\<rparr>) = ext b" by (intro HOL.ext) (simp add: ext_def)
  then show "good F (b\<lparr>pre := p\<rparr>) = good F b" by (intro HOL.ext) (simp add: good_def)
  show "fresh (b\<lparr>pre := p\<rparr>) = fresh b" by (intro HOL.ext) (simp add: fresh_def)
  then show "clean S (b\<lparr>pre := p\<rparr>) = clean S b" by (intro HOL.ext) (simp add: clean_def)
  show "handoff h vs (b\<lparr>pre := p\<rparr>) = handoff h vs b" by (intro HOL.ext) (simp add: handoff_def)
  show "upd (b\<lparr>pre := p\<rparr>) = upd b" by (intro HOL.ext) (simp add: upd_def)
qed (simp_all add: adv_def)

definition if_only :: "gstmt list \<Rightarrow> bool" where
  "if_only xs \<longleftrightarrow> (\<exists>s. xs = [s] \<and> is_if s)"

lemma if_only_snoc [simp]: "\<not> is_if s \<Longrightarrow> \<not> if_only (xs @ [s])"
  by (cases xs) (auto simp: if_only_def)

lemma run_block_one [simp]: "run_block [f] = f"
  by (intro HOL.ext) simp

lemma flushed_eq: "flushed ss b = (pre b @ ss, b\<lparr>pre := []\<rparr>)"
  by (simp add: flushed_def flush_def)

lemma go_set: "go_eval F \<sigma> y = Some g \<Longrightarrow> go_stmt F G n (setStmt (GIdent x) y) \<sigma> = next_or_stuck (assign_one F (GIdent x, g) \<sigma>)"
  by (simp add: setStmt_def go_assign_def eval_rhs_def del: assign_one.simps split: option.split)

lemma go_define:
  assumes "go_eval F \<sigma> y = Some g" and "defaulted g = Some g'" and "\<sigma> \<noteq> []" and "hd \<sigma> x = None" and "x \<noteq> ''_''"
  shows "go_stmt F G n (define_stmt x y) \<sigma> = GNext ((hd \<sigma>)(x \<mapsto> g') # tl \<sigma>)"
  using assms go_declare_one [of \<sigma> x g g' F] by (simp add: define_stmt_def go_assign_def eval_rhs_def next_or_stuck_def)

lemma emb_neq [simp]: "emb v \<noteq> VConst i" "VConst i \<noteq> emb v" "defaulted (emb v) = Some (emb v)"
  by (cases v; simp)+

lemma pin_value:
  assumes "lowerExpr e b = Some ((x, r), b')" and "definable e" and "good F b1 \<sigma> x (embc (is_const e) v)" and "clean S b1 \<sigma>"
  shows "\<exists>g. go_eval F \<sigma> (pin x r) = Some g \<and> defaulted g = Some (emb v)"
proof -
  have ne: "\<sigma> \<noteq> []" using assms(4) by (simp add: clean_def)
  then have x: "go_eval F \<sigma> x = Some (embc (is_const e) v)" and i64: "glook \<sigma> ''int64'' = None"
    using assms(3) clean_reserved(3) [OF assms(4)] by (simp_all add: good_eval)
  show ?thesis
  proof (cases "is_const e")
    case True
    then have "is_lit e" using assms(2) by (simp add: definable_def)
    then show ?thesis using assms(1) x i64
      by (cases e; cases v) (auto simp: pin_def embc_def go_call_def word_of_int_eq_iff split: if_splits)
  next
    case False
    then have "\<not> is_int_lit x" using x by (cases x) auto
    then show ?thesis using False x by (simp add: pin_def)
  qed
qed

lemma declare_outcome:
  assumes "\<sigma> \<noteq> []" and "vals \<Gamma> D \<rho> \<sigma>" and "only D \<sigma>" and "fresh b \<sigma>" and "may_declare S h D n" and "\<Gamma> \<subseteq>\<^sub>m D" and "has r v"
  shows "outcome F h vs b (b\<lparr>pre := []\<rparr>) \<sigma> \<Gamma> D (\<Gamma>(n \<mapsto> r)) (D(n \<mapsto> r)) (GNext ((hd \<sigma>)(n \<mapsto> emb v) # tl \<sigma>)) (PNext (\<rho>(n \<mapsto> v)))"
    and "outcome F h vs b (b\<lparr>pre := []\<rparr>) \<sigma> \<Gamma> D \<Gamma> (D(n \<mapsto> r)) (GNext ((hd \<sigma>)(n \<mapsto> emb v) # tl \<sigma>)) (PNext \<rho>)"
proof -
  have n: "D n = None" "user_name n" using assms(5) by (simp_all add: may_declare_def)
  note d = declared [OF assms(1,3) n assms(2,6,7)]
  show "outcome F h vs b (b\<lparr>pre := []\<rparr>) \<sigma> \<Gamma> D (\<Gamma>(n \<mapsto> r)) (D(n \<mapsto> r)) (GNext ((hd \<sigma>)(n \<mapsto> emb v) # tl \<sigma>)) (PNext (\<rho>(n \<mapsto> v)))"
    using d(1,3,5) d(2) [OF assms(4)] by (simp add: outcome_def)
  show "outcome F h vs b (b\<lparr>pre := []\<rparr>) \<sigma> \<Gamma> D \<Gamma> (D(n \<mapsto> r)) (GNext ((hd \<sigma>)(n \<mapsto> emb v) # tl \<sigma>)) (PNext \<rho>)"
    using d(1,4,5) d(2) [OF assms(4)] by (simp add: outcome_def)
qed

lemma vals_var: "vals \<Gamma> D \<rho> \<sigma> \<Longrightarrow> \<Gamma> n = Some r \<Longrightarrow> \<exists>v. \<rho> n = Some v \<and> has r v \<and> glook \<sigma> n = Some (emb v)"
  unfolding vals_def vars_ok_def by blast

lemma undeclared: "only D \<sigma> \<Longrightarrow> may_declare S h D n \<Longrightarrow> \<sigma> \<noteq> [] \<Longrightarrow> hd \<sigma> n = None \<and> n \<noteq> ''_''"
  using only_glook [of D \<sigma> n] by (auto simp: may_declare_def user_name_def glook_hd split: option.splits)

section \<open>Statements that compute one value\<close>

context static_calls
begin

definition runs :: "nat \<Rightarrow> string \<Rightarrow> gval list \<Rightarrow> builder \<Rightarrow> builder \<Rightarrow> tenv \<Rightarrow> tenv \<Rightarrow> tenv \<Rightarrow> tenv \<Rightarrow> gstmt list \<Rightarrow> (penv \<Rightarrow> pout) \<Rightarrow> bool" where
  "runs n h vs b b' \<Gamma> D \<Gamma>' D' xs px \<longleftrightarrow>
     (\<forall>\<rho> \<sigma>. vals \<Gamma> D \<rho> \<sigma> \<longrightarrow> only D \<sigma> \<longrightarrow> clean S b \<sigma> \<longrightarrow> handoff h vs b' \<sigma> \<longrightarrow>
       outcome F h vs b b' \<sigma> \<Gamma> D \<Gamma>' D' (go_block F G n xs \<sigma>) (px \<rho>) \<and> (if_only xs \<longrightarrow> closed \<sigma> (go_block F G n xs \<sigma>)))"

definition lowered :: "nat \<Rightarrow> string \<Rightarrow> gval list \<Rightarrow> builder \<Rightarrow> tenv \<Rightarrow> tenv \<Rightarrow> tenv \<Rightarrow> tenv \<Rightarrow> (gstmt list \<times> builder) option \<Rightarrow> (penv \<Rightarrow> pout) \<Rightarrow> bool" where
  "lowered n h vs b \<Gamma> D \<Gamma>' D' low px \<longleftrightarrow>
     (\<exists>xs b'. low = Some (xs, b') \<and> adv b b' \<and> pre b' = [] \<and> runs n h vs b b' \<Gamma> D \<Gamma>' D' xs px)"

definition ssim :: "nat \<Rightarrow> string \<Rightarrow> gval list \<Rightarrow> estmt \<Rightarrow> bool" where
  "ssim n h vs s \<longleftrightarrow>
     (\<forall>lp \<Gamma> D \<Gamma>' D' b. wf_env S h \<Gamma> D \<longrightarrow> stmt_typ S h (b_ret b) lp s (\<Gamma>, D) = Some (\<Gamma>', D') \<longrightarrow> pre b = [] \<longrightarrow>
       lowered n h vs b \<Gamma> D \<Gamma>' D' (lowerStmt s b) (pexec F pc n s))"

lemma ssimI:
  assumes "\<And>lp \<Gamma> D \<Gamma>' D' b. wf_env S h \<Gamma> D \<Longrightarrow> stmt_typ S h (b_ret b) lp s (\<Gamma>, D) = Some (\<Gamma>', D') \<Longrightarrow> pre b = [] \<Longrightarrow>
     lowered n h vs b \<Gamma> D \<Gamma>' D' (lowerStmt s b) (pexec F pc n s)"
  shows "ssim n h vs s"
  using assms unfolding ssim_def by blast

lemma esim_at_unique: "esim_at n \<Gamma> \<rho> h vs e r b x b' \<Longrightarrow> esim_at n \<Gamma> \<rho>' h vs e r b y b'' \<Longrightarrow> x = y \<and> b' = b''"
  by (simp add: esim_at_def)

lemma expr_low:
  assumes "typ_of S \<Gamma> e = Some r"
  obtains x b' where "\<And>\<rho>. esim_at n \<Gamma> \<rho> h vs e r b x b'"
proof -
  have ex: "\<exists>x b'. esim_at n \<Gamma> \<rho> h vs e r b x b'" for \<rho> using expr_sim assms by (simp add: esim_def)
  then obtain x b' where x: "esim_at n \<Gamma> Map.empty h vs e r b x b'" by blast
  have "esim_at n \<Gamma> \<rho> h vs e r b x b'" for \<rho> using ex [of \<rho>] esim_at_unique [OF x] by blast
  then show ?thesis by (rule that)
qed

lemma value_lowered:
  assumes te: "typ_of S \<Gamma> e = Some r" and pre: "pre b = []"
    and low: "\<And>x b1. lowerExpr e b = Some ((x, r), b1) \<Longrightarrow> low = Some (flushed [st x] b1)" and st: "\<And>x. \<not> is_if (st x)"
    and px: "\<And>\<rho> \<sigma>. vals \<Gamma> D \<rho> \<sigma> \<Longrightarrow> px \<rho> = with_val (peval F pc \<rho> e) (k \<rho>)"
    and step: "\<And>x b1 \<rho> \<sigma> v. lowerExpr e b = Some ((x, r), b1) \<Longrightarrow> vals \<Gamma> D \<rho> \<sigma> \<Longrightarrow> only D \<sigma> \<Longrightarrow> clean S b1 \<sigma> \<Longrightarrow> has r v \<Longrightarrow> good F b1 \<sigma> x (embc (is_const e) v) \<Longrightarrow>
      b_ret b1 = b_ret b \<Longrightarrow> b_ret b1 \<in> set value_reprs \<Longrightarrow>
      outcome F h vs b1 (b1\<lparr>pre := []\<rparr>) \<sigma> \<Gamma> D \<Gamma>' D' (go_stmt F G n (st x) \<sigma>) (k \<rho> v)"
  shows "lowered n h vs b \<Gamma> D \<Gamma>' D' low px"
proof -
  obtain x b1 where x: "\<And>\<rho>. esim_at n \<Gamma> \<rho> h vs e r b x b1" using expr_low [OF te, of n h vs b] by blast
  then have l: "lowerExpr e b = Some ((x, r), b1)" and g: "grow b b1" by (simp_all add: esim_at_def)
  have ad: "added b b1 = pre b1" using pre by (simp add: added_def)
  have "outcome F h vs b (b1\<lparr>pre := []\<rparr>) \<sigma> \<Gamma> D \<Gamma>' D' (go_block F G n (pre b1 @ [st x]) \<sigma>) (px \<rho>)"
    if v: "vals \<Gamma> D \<rho> \<sigma>" "only D \<sigma>" "clean S b \<sigma>" "handoff h vs b1 \<sigma>" for \<rho> \<sigma>
  proof -
    have "sim (GTail h vs) b b1 \<sigma> (quiet e) (\<lambda>\<sigma>' v. has r v \<and> good F b1 \<sigma>' x (embc (is_const e) v)) (go_block F G n (pre b1) \<sigma>) (peval F pc \<rho> e)"
      using x [of \<rho>] v by (simp add: esim_at_def vals_def ad)
    then have "outcome F h vs b (b1\<lparr>pre := []\<rparr>) \<sigma> \<Gamma> D \<Gamma>' D' (seq (go_block F G n (pre b1) \<sigma>) (go_stmt F G n (st x)))
        (case peval F pc \<rho> e of POk v \<Rightarrow> k \<rho> v | PRaise c m \<Rightarrow> PExc c m | PUndef \<Rightarrow> PStuck)"
    proof (rule outcome_ext)
      fix \<sigma>1 u assume e: "ext b \<sigma> \<sigma>1" "fresh b1 \<sigma>1" and u: "has r u \<and> good F b1 \<sigma>1 x (embc (is_const e) u)"
      have "b_ret b1 = b_ret b" "b_ret b1 \<in> set value_reprs" using v(4) grow_adv [OF g] by (auto simp: handoff_def adv_def)
      then show "outcome F h vs b1 (b1\<lparr>pre := []\<rparr>) \<sigma>1 \<Gamma> D \<Gamma>' D' (go_stmt F G n (st x) \<sigma>1) (k \<rho> u)"
        using u by (intro step l vals_ext [OF v(1) e(1)] only_ext [OF v(2) e(1)] clean_ext [OF v(3) e]) simp_all
    qed (use grow_adv [OF g] in simp_all)
    then show ?thesis by (simp add: px [OF v(1)] with_val_def run_block_append)
  qed
  then have "runs n h vs b (b1\<lparr>pre := []\<rparr>) \<Gamma> D \<Gamma>' D' (pre b1 @ [st x]) px" by (simp add: runs_def st)
  then show ?thesis using low [OF l] grow_adv [OF g] by (auto simp: lowered_def flushed_eq)
qed


lemma outcome_next:
  assumes "upd b \<sigma> \<sigma>'" and "fresh b' \<sigma>'" and "vals \<Gamma>' D' \<rho> \<sigma>'" and "only D' \<sigma>'"
  shows "outcome F h vs b b' \<sigma> \<Gamma> D \<Gamma>' D' (GNext \<sigma>') (PNext \<rho>)"
  using assms by (simp add: outcome_def)

lemma outcome_set:
  assumes "vals \<Gamma> D \<rho> \<sigma>" and "only D \<sigma>" and "clean S b \<sigma>" and "D n = Some r" and "has r v" and "c \<Longrightarrow> r \<in> set [intRepr, floatRepr]" and "\<Gamma> \<subseteq>\<^sub>m D"
    and "out = next_or_stuck (assign_one F (GIdent n, embc c v) \<sigma>)" and "\<Gamma>' = \<Gamma>(n \<mapsto> r)"
  shows "outcome F h vs b (b\<lparr>pre := []\<rparr>) \<sigma> \<Gamma> D \<Gamma>' D out (PNext (\<rho>(n \<mapsto> v)))"
proof -
  obtain \<sigma>' where s: "assign_one F (GIdent n, embc c v) \<sigma> = Some \<sigma>'" "frames_same \<sigma> \<sigma>'" "vals (\<Gamma>(n \<mapsto> r)) D (\<rho>(n \<mapsto> v)) \<sigma>'"
    using assign_user [OF assms(1,4-7), where F = F] by blast
  then have "upd b \<sigma> \<sigma>'" "fresh b \<sigma>'" "only D \<sigma>'"
    using assms(2,3) frames_same_upd frames_same_fresh only_leave by (auto simp: clean_def)
  then show ?thesis using s by (simp add: assms(8,9) next_or_stuck_def outcome_next)
qed

lemma ssim_assign: "ssim n h vs (EAssign x e)"
proof (rule ssimI)
  fix lp \<Gamma> D \<Gamma>' D' and b :: builder assume w: "wf_env S h \<Gamma> D" and t: "stmt_typ S h (b_ret b) lp (EAssign x e) (\<Gamma>, D) = Some (\<Gamma>', D')" and pre: "pre b = []"
  from t obtain r where te: "typ_of S \<Gamma> e = Some r" and r: "D x = Some r" and g: "\<Gamma>' = \<Gamma>(x \<mapsto> r)" "D' = D"
    by (auto split: bind_splits if_splits)
  show "lowered n h vs b \<Gamma> D \<Gamma>' D' (lowerStmt (EAssign x e) b) (pexec F pc n (EAssign x e))"
  proof (rule value_lowered [OF te pre, where st = "setStmt (GIdent x)" and k = "\<lambda>\<rho> v. PNext (\<rho>(x \<mapsto> v))"])
    fix y b1 \<rho> \<sigma> v
    assume a: "vals \<Gamma> D \<rho> \<sigma>" "only D \<sigma>" "clean S b1 \<sigma>" and v: "has r v" and y: "good F b1 \<sigma> y (embc (is_const e) v)"
    have "go_eval F \<sigma> y = Some (embc (is_const e) v)" using y a(3) by (simp add: good_eval clean_def)
    then have "go_stmt F G n (setStmt (GIdent x) y) \<sigma> = next_or_stuck (assign_one F (GIdent x, embc (is_const e) v) \<sigma>)" by (rule go_set)
    then show "outcome F h vs b1 (b1\<lparr>pre := []\<rparr>) \<sigma> \<Gamma> D \<Gamma>' D' (go_stmt F G n (setStmt (GIdent x) y) \<sigma>) (PNext (\<rho>(x \<mapsto> v)))"
      unfolding g using w const_typ [OF te] by (intro outcome_set [OF a r v, where c = "is_const e"]) (auto simp: wf_env_def)
  qed (simp_all add: setStmt_def)
qed

lemma ssim_return: "ssim n h vs (EReturn e)"
proof (rule ssimI)
  fix lp \<Gamma> D \<Gamma>' D' and b :: builder assume t: "stmt_typ S h (b_ret b) lp (EReturn e) (\<Gamma>, D) = Some (\<Gamma>', D')" and pre: "pre b = []"
  from t have te: "typ_of S \<Gamma> e = Some (b_ret b)" by (simp split: if_splits)
  show "lowered n h vs b \<Gamma> D \<Gamma>' D' (lowerStmt (EReturn e) b) (pexec F pc n (EReturn e))"
  proof (rule value_lowered [OF te pre, where st = "\<lambda>x. GReturn [x, GIdent ''nil'']" and k = "\<lambda>\<rho>. PRet"])
    fix y b1 \<rho> \<sigma> v
    assume a: "clean S b1 \<sigma>" and v: "has (b_ret b) v" and y: "good F b1 \<sigma> y (embc (is_const e) v)" and r: "b_ret b1 = b_ret b" "b_ret b1 \<in> set value_reprs"
    have ne: "\<sigma> \<noteq> []" using a by (simp add: clean_def)
    have "go_eval F \<sigma> y = Some (embc (is_const e) v)" "glook \<sigma> ''nil'' = None" using y a ne clean_reserved(7) [OF a] by (simp_all add: good_eval)
    then have "go_return F [y, GIdent ''nil''] \<sigma> = GRet [embc (is_const e) v, VNil]" by (intro go_return_two) simp_all
    moreover have "conv_type F (goType (b_ret b)) (embc (is_const e) v) = Some (emb v)"
      using r v const_typ [OF te] by (intro conv_value) auto
    ultimately show "outcome F h vs b1 (b1\<lparr>pre := []\<rparr>) \<sigma> \<Gamma> D \<Gamma>' D' (go_stmt F G n (GReturn [y, GIdent ''nil'']) \<sigma>) (PRet v)"
      using r v by (simp add: outcome_def)
  qed simp_all
qed

lemma ssim_define: "ssim n h vs (EDefine x e)"
proof (rule ssimI)
  fix lp \<Gamma> D \<Gamma>' D' and b :: builder assume w: "wf_env S h \<Gamma> D" and t: "stmt_typ S h (b_ret b) lp (EDefine x e) (\<Gamma>, D) = Some (\<Gamma>', D')" and pre: "pre b = []"
  from t obtain r where te: "typ_of S \<Gamma> e = Some r" and m: "may_declare S h D x" and d: "definable e" and g: "\<Gamma>' = \<Gamma>(x \<mapsto> r)" "D' = D(x \<mapsto> r)"
    by (auto split: bind_splits if_splits)
  show "lowered n h vs b \<Gamma> D \<Gamma>' D' (lowerStmt (EDefine x e) b) (pexec F pc n (EDefine x e))"
  proof (rule value_lowered [OF te pre, where st = "\<lambda>y. define_stmt x (pin y r)" and k = "\<lambda>\<rho> v. PNext (\<rho>(x \<mapsto> v))"])
    fix y b1 \<rho> \<sigma> v
    assume l: "lowerExpr e b = Some ((y, r), b1)" and a: "vals \<Gamma> D \<rho> \<sigma>" "only D \<sigma>" "clean S b1 \<sigma>" and v: "has r v"
      and y: "good F b1 \<sigma> y (embc (is_const e) v)"
    have ne: "\<sigma> \<noteq> []" "fresh b1 \<sigma>" using a(3) by (simp_all add: clean_def)
    obtain z where "go_eval F \<sigma> (pin y r) = Some z" "defaulted z = Some (emb v)" using pin_value [OF l d y a(3)] by blast
    then have "go_stmt F G n (define_stmt x (pin y r)) \<sigma> = GNext ((hd \<sigma>)(x \<mapsto> emb v) # tl \<sigma>)"
      using undeclared [OF a(2) m ne(1)] ne(1) by (intro go_define) simp_all
    then show "outcome F h vs b1 (b1\<lparr>pre := []\<rparr>) \<sigma> \<Gamma> D \<Gamma>' D' (go_stmt F G n (define_stmt x (pin y r)) \<sigma>) (PNext (\<rho>(x \<mapsto> v)))"
      using w by (simp only: g) (intro declare_outcome(1) [OF ne(1) a(1,2) ne(2) m] v, simp add: wf_env_def)
  qed (simp_all add: define_stmt_def)
qed

text \<open>\<open>x op= e\<close> on a float runs Go's own operator.\<close>

lemma go_aug:
  assumes "o' \<in> {OpAdd, OpSub, OpMul}" and "go_eval F \<sigma> (GIdent x) = Some (VFloat a)" and "go_eval F \<sigma> y = Some (fg c z)"
  shows "\<exists>u. float_op F o' a z = POk (PFloat u) \<and> go_stmt F G n (augAssign x o' y) \<sigma> = next_or_stuck (assign_one F (GIdent x, VFloat u) \<sigma>)"
  using assms by (auto simp: augAssign_def go_assign_def go_bin_def float_bin_def simp del: assign_one.simps)

lemma ssim_aug: "ssim n h vs (EAugAssign x o' r e)"
proof (rule ssimI)
  fix lp \<Gamma> D \<Gamma>' D' and b :: builder assume w: "wf_env S h \<Gamma> D" and t: "stmt_typ S h (b_ret b) lp (EAugAssign x o' r e) (\<Gamma>, D) = Some (\<Gamma>', D')" and pre: "pre b = []"
  from t have tb: "typ_of S \<Gamma> (EBin o' (EVar x r) e) = Some r" and fl: "r = floatRepr \<longrightarrow> o' \<in> {OpAdd, OpSub, OpMul}" and g: "\<Gamma>' = \<Gamma>" "D' = D"
    by (auto split: if_splits)
  from tb obtain rr where x: "\<Gamma> x = Some r" and te: "typ_of S \<Gamma> e = Some rr" and tbin: "typ_bin o' r rr False = Some r"
    by (auto split: bind_splits if_splits)
  have dx: "D x = Some r" and gx: "\<Gamma> = \<Gamma>(x \<mapsto> r)" and le: "\<Gamma> \<subseteq>\<^sub>m D" using w x by (auto simp: wf_env_def map_le_iff)
  show "lowered n h vs b \<Gamma> D \<Gamma>' D' (lowerStmt (EAugAssign x o' r e) b) (pexec F pc n (EAugAssign x o' r e))"
    unfolding g
  proof (cases "r = floatRepr")
    case True
    have num: "rr = intRepr \<or> rr = floatRepr \<or> rr = boolRepr" using tbin True by (auto simp: typ_bin_def split: if_splits)
    have st: "(if repr_Scalar rr \<noteq> SFloat then toFloat y rr else y) = toFloat y rr" for y by (simp add: toFloat_def)
    show "lowered n h vs b \<Gamma> D \<Gamma> D (lowerStmt (EAugAssign x o' r e) b) (pexec F pc n (EAugAssign x o' r e))"
    proof (rule value_lowered [OF te pre, where st = "\<lambda>y. augAssign x o' (toFloat y rr)" and k = "\<lambda>\<rho> v. with_val (py_bin F o' (the (\<rho> x)) v) (\<lambda>u. PNext (\<rho>(x \<mapsto> u)))"])
      fix \<rho> \<sigma> assume "vals \<Gamma> D \<rho> \<sigma>"
      then obtain a where "\<rho> x = Some a" using vals_var x by blast
      then show "pexec F pc n (EAugAssign x o' r e) \<rho> = with_val (peval F pc \<rho> e) (\<lambda>v. with_val (py_bin F o' (the (\<rho> x)) v) (\<lambda>u. PNext (\<rho>(x \<mapsto> u))))"
        by (cases "peval F pc \<rho> e") (simp_all add: with_val_def)
    next
      fix y b1 \<rho> \<sigma> v
      assume a: "vals \<Gamma> D \<rho> \<sigma>" "only D \<sigma>" "clean S b1 \<sigma>" and v: "has rr v" and y: "good F b1 \<sigma> y (embc (is_const e) v)"
      have ne: "\<sigma> \<noteq> []" using a(3) by (simp add: clean_def)
      obtain z where z: "as_float F v = Some z" "good F b1 \<sigma> (toFloat y rr) (fg (is_const e \<and> rr = floatRepr) z)"
        by (rule float_operand [OF v _ a(3) y]) (use num const_typ [OF te] in auto)
      obtain c where c: "\<rho> x = Some (PFloat c)" "go_eval F \<sigma> (GIdent x) = Some (VFloat c)"
        using vals_var [OF a(1) x] True by (auto simp: has_scalar)
      obtain u where u: "float_op F o' c z = POk (PFloat u)"
        "go_stmt F G n (augAssign x o' (toFloat y rr)) \<sigma> = next_or_stuck (assign_one F (GIdent x, VFloat u) \<sigma>)"
        using go_aug [OF fl [rule_format, OF True] c(2) good_eval [OF z(2) ne]] by blast
      have "py_bin F o' (PFloat c) v = POk (PFloat u)" using py_bin_float [of F "PFloat c" c v z o'] z(1) u(1) by simp
      moreover have "outcome F h vs b1 (b1\<lparr>pre := []\<rparr>) \<sigma> \<Gamma> D \<Gamma> D (next_or_stuck (assign_one F (GIdent x, VFloat u) \<sigma>)) (PNext (\<rho>(x \<mapsto> PFloat u)))"
        by (rule outcome_set [OF a dx _ _ le _ gx, where c = False]) (use True in \<open>simp_all add: has_scalar embc_def\<close>)
      ultimately show "outcome F h vs b1 (b1\<lparr>pre := []\<rparr>) \<sigma> \<Gamma> D \<Gamma> D (go_stmt F G n (augAssign x o' (toFloat y rr)) \<sigma>)
          (with_val (py_bin F o' (the (\<rho> x)) v) (\<lambda>u. PNext (\<rho>(x \<mapsto> u))))"
        by (simp add: u(2) c(1) with_val_def del: assign_one.simps)
    qed (use True st in \<open>auto simp: augAssign_def\<close>)
  next
    case False
    then have sc: "repr_Scalar r \<noteq> SFloat" using tbin by (auto simp: typ_bin_def split: if_splits)
    show "lowered n h vs b \<Gamma> D \<Gamma> D (lowerStmt (EAugAssign x o' r e) b) (pexec F pc n (EAugAssign x o' r e))"
    proof (rule value_lowered [OF tb pre, where st = "setStmt (GIdent x)" and k = "\<lambda>\<rho> v. PNext (\<rho>(x \<mapsto> v))"])
      fix y b1 \<rho> \<sigma> v
      assume a: "vals \<Gamma> D \<rho> \<sigma>" "only D \<sigma>" "clean S b1 \<sigma>" and v: "has r v" and y: "good F b1 \<sigma> y (embc (is_const (EBin o' (EVar x r) e)) v)"
      have "go_eval F \<sigma> y = Some (embc False v)" using y a(3) by (simp add: good_eval clean_def)
      from go_set [OF this] show "outcome F h vs b1 (b1\<lparr>pre := []\<rparr>) \<sigma> \<Gamma> D \<Gamma> D (go_stmt F G n (setStmt (GIdent x) y) \<sigma>) (PNext (\<rho>(x \<mapsto> v)))"
        by (intro outcome_set [OF a dx v _ le _ gx, where c = False]) simp_all
    qed (use sc in \<open>simp_all add: setStmt_def del: lowerExpr.simps peval.simps\<close>)
  qed
qed

lemma simple_lowered:
  assumes "low = Some (flushed [st] b)" and "pre b = []" and "\<not> is_if st"
    and "\<And>\<rho> \<sigma>. vals \<Gamma> D \<rho> \<sigma> \<Longrightarrow> only D \<sigma> \<Longrightarrow> clean S b \<sigma> \<Longrightarrow> handoff h vs b \<sigma> \<Longrightarrow>
      outcome F h vs b (b\<lparr>pre := []\<rparr>) \<sigma> \<Gamma> D \<Gamma>' D' (go_stmt F G n st \<sigma>) (px \<rho>)"
  shows "lowered n h vs b \<Gamma> D \<Gamma>' D' low px"
  using assms by (simp add: lowered_def flushed_eq runs_def if_only_def)

lemma zero_type_value:
  assumes "r \<in> set value_reprs"
  obtains v where "has r v" "zero_type (goType r) = Some (emb v)"
  using assms
proof (cases rule: value_reprs_cases)
  case 1
  then consider "r = intRepr" | "r = floatRepr" | "r = boolRepr" | "r = strRepr" by (auto simp: scalar_reprs_iff)
  then show ?thesis
    using that [of "PInt 0"] that [of "PFloat 0"] that [of "PBool False"] that [of "PStr []"] by cases (simp_all add: has_def in64_def)
next
  case (2 el)
  then show ?thesis using that [of "PList []"] by (simp add: has_list in64_def)
qed

lemma ssim_var: "ssim n h vs (EVarDecl x r)"
proof (rule ssimI)
  fix lp \<Gamma> D \<Gamma>' D' and b :: builder assume w: "wf_env S h \<Gamma> D" and t: "stmt_typ S h (b_ret b) lp (EVarDecl x r) (\<Gamma>, D) = Some (\<Gamma>', D')" and pre: "pre b = []"
  from t have m: "may_declare S h D x" and r: "r \<in> set value_reprs" and g: "\<Gamma>' = \<Gamma>" "D' = D(x \<mapsto> r)" by (auto split: if_splits)
  show "lowered n h vs b \<Gamma> D \<Gamma>' D' (lowerStmt (EVarDecl x r) b) (pexec F pc n (EVarDecl x r))"
  proof (rule simple_lowered [OF _ pre])
    fix \<rho> \<sigma> assume a: "vals \<Gamma> D \<rho> \<sigma>" "only D \<sigma>" "clean S b \<sigma>"
    have ne: "\<sigma> \<noteq> []" "fresh b \<sigma>" using a(3) by (simp_all add: clean_def)
    obtain v where v: "has r v" "zero_type (goType r) = Some (emb v)" by (rule zero_type_value [OF r])
    have "go_stmt F G n (GVar x (goType r)) \<sigma> = GNext ((hd \<sigma>)(x \<mapsto> emb v) # tl \<sigma>)"
      using undeclared [OF a(2) m ne(1)] ne(1) v(2) by (cases \<sigma>) (simp_all add: go_var_def next_or_stuck_def)
    then show "outcome F h vs b (b\<lparr>pre := []\<rparr>) \<sigma> \<Gamma> D \<Gamma>' D' (go_stmt F G n (GVar x (goType r)) \<sigma>) (pexec F pc n (EVarDecl x r) \<rho>)"
      using w by (simp only: g pexec.simps) (intro declare_outcome(2) [OF ne(1) a(1,2) ne(2) m] v, simp add: wf_env_def)
  qed simp_all
qed

lemma ssim_jump: "ssim n h vs EBreak" "ssim n h vs EContinue"
  by (auto intro!: ssimI simple_lowered simp: outcome_def clean_def split: if_splits)

section \<open>Statements that compute several values\<close>

lemma args_low:
  assumes "typs_of S \<Gamma> es = Some rs"
  obtains xs b' where "\<And>\<rho>. asim_at n \<Gamma> \<rho> h vs es rs b xs b'"
proof -
  have ex: "\<exists>xs b'. asim_at n \<Gamma> \<rho> h vs es rs b xs b'" for \<rho> by (rule asim [OF expr_sim assms])
  then obtain xs b' where x: "asim_at n \<Gamma> Map.empty h vs es rs b xs b'" by blast
  have "asim_at n \<Gamma> \<rho> h vs es rs b xs b'" for \<rho>
  proof -
    obtain ys b'' where y: "asim_at n \<Gamma> \<rho> h vs es rs b ys b''" using ex by blast
    then have "zip ys rs = zip xs rs" "length ys = length xs" "b'' = b'" using x by (auto simp: asim_at_def)
    then have "ys = xs" using x by (metis asim_at_def map_fst_zip)
    then show ?thesis using y \<open>b'' = b'\<close> by simp
  qed
  then show ?thesis by (rule that)
qed

lemma args_lowered:
  assumes te: "typs_of S \<Gamma> es = Some rs" and pre: "pre b = []"
    and low: "\<And>xs b1. lowerArgs es b = Some (zip xs rs, b1) \<Longrightarrow> length xs = length rs \<Longrightarrow>
      low = Some (pre b1 @ sts xs b1, fin b1) \<and> adv b1 (fin b1) \<and> pre (fin b1) = [] \<and> \<not> if_only (pre b1 @ sts xs b1)"
    and px: "\<And>\<rho> \<sigma>. vals \<Gamma> D \<rho> \<sigma> \<Longrightarrow> px \<rho> = with_vals (peval_list F pc \<rho> es) (k \<rho>)"
    and step: "\<And>xs b1 \<rho> \<sigma> us. lowerArgs es b = Some (zip xs rs, b1) \<Longrightarrow> length xs = length rs \<Longrightarrow> vals \<Gamma> D \<rho> \<sigma> \<Longrightarrow> only D \<sigma> \<Longrightarrow>
      clean S b1 \<sigma> \<Longrightarrow> handoff h vs (fin b1) \<sigma> \<Longrightarrow> list_all2 has rs us \<Longrightarrow> goods F b1 \<sigma> xs es us \<Longrightarrow>
      outcome F h vs b1 (fin b1) \<sigma> \<Gamma> D \<Gamma>' D' (go_block F G n (sts xs b1) \<sigma>) (k \<rho> us)"
  shows "lowered n h vs b \<Gamma> D \<Gamma>' D' low px"
proof -
  obtain xs b1 where x: "\<And>\<rho>. asim_at n \<Gamma> \<rho> h vs es rs b xs b1" using args_low [OF te, of n h vs b] by blast
  then have l: "lowerArgs es b = Some (zip xs rs, b1)" "length xs = length rs" and g: "grow b b1" by (simp_all add: asim_at_def)
  note f = low [OF l]
  have ad: "added b b1 = pre b1" using pre by (simp add: added_def)
  have "outcome F h vs b (fin b1) \<sigma> \<Gamma> D \<Gamma>' D' (go_block F G n (pre b1 @ sts xs b1) \<sigma>) (px \<rho>)"
    if v: "vals \<Gamma> D \<rho> \<sigma>" "only D \<sigma>" "clean S b \<sigma>" "handoff h vs (fin b1) \<sigma>" for \<rho> \<sigma>
  proof -
    have "handoff h vs b1 \<sigma>" using handoff_adv [OF v(4)] f by blast
    then have "sim (GTail h vs) b b1 \<sigma> (list_all quiet es) (\<lambda>\<sigma>' us. list_all2 has rs us \<and> goods F b1 \<sigma>' xs es us) (go_block F G n (pre b1) \<sigma>) (peval_list F pc \<rho> es)"
      using x [of \<rho>] v by (simp add: asim_at_def vals_def ad)
    then have "outcome F h vs b (fin b1) \<sigma> \<Gamma> D \<Gamma>' D' (seq (go_block F G n (pre b1) \<sigma>) (go_block F G n (sts xs b1)))
        (case peval_list F pc \<rho> es of POk v \<Rightarrow> k \<rho> v | PRaise c m \<Rightarrow> PExc c m | PUndef \<Rightarrow> PStuck)"
    proof (rule outcome_ext)
      fix \<sigma>1 us assume e: "ext b \<sigma> \<sigma>1" "fresh b1 \<sigma>1" and u: "list_all2 has rs us \<and> goods F b1 \<sigma>1 xs es us"
      then show "outcome F h vs b1 (fin b1) \<sigma>1 \<Gamma> D \<Gamma>' D' (go_block F G n (sts xs b1) \<sigma>1) (k \<rho> us)"
        by (intro step l vals_ext [OF v(1) e(1)] only_ext [OF v(2) e(1)] clean_ext [OF v(3) e] handoff_ext [OF v(4) e(1)]) simp_all
    qed (use grow_adv [OF g] f in simp_all)
    then show ?thesis by (simp add: px [OF v(1)] with_vals_def run_block_append)
  qed
  then have "runs n h vs b (fin b1) \<Gamma> D \<Gamma>' D' (pre b1 @ sts xs b1) px" using f by (simp add: runs_def)
  then show ?thesis using f adv_trans [OF grow_adv [OF g]] by (auto simp: lowered_def)
qed

lemma ssim_discard_call: "ssim n h vs (EDiscard (ECall f es r))"
proof (rule ssimI)
  fix lp \<Gamma> D \<Gamma>' D' and b :: builder assume t: "stmt_typ S h (b_ret b) lp (EDiscard (ECall f es r)) (\<Gamma>, D) = Some (\<Gamma>', D')" and pre: "pre b = []"
  from t obtain rs where ts: "typs_of S \<Gamma> es = Some rs" and sg: "S f = Some (rs, r)" "set rs \<subseteq> set value_reprs" and g: "\<Gamma>' = \<Gamma>" "D' = D"
    by (auto split: bind_splits if_splits)
  let ?e = "\<lambda>b. err_name (nErr b)"
  let ?sts = "\<lambda>xs b. [GAssign [GIdent ''_'', GIdent (?e b)] T_DEFINE [GCall (GIdent f) xs], error_check (?e b) b]"
  let ?fin = "\<lambda>b. b\<lparr>nErr := nErr b + 1, pre := []\<rparr>"
  show "lowered n h vs b \<Gamma> D \<Gamma>' D' (lowerStmt (EDiscard (ECall f es r)) b) (pexec F pc n (EDiscard (ECall f es r)))"
  proof (rule args_lowered [OF ts pre, where sts = ?sts and fin = ?fin and k = "\<lambda>\<rho> us. with_val (pc f us) (\<lambda>v. PNext \<rho>)"])
    fix xs b1 \<rho> \<sigma> us
    assume a: "vals \<Gamma> D \<rho> \<sigma>" "only D \<sigma>" and c: "clean S b1 \<sigma>" and hd: "handoff h vs (?fin b1) \<sigma>"
      and us: "list_all2 has rs us" and gd: "goods F b1 \<sigma> xs es us"
    let ?gs = "map (\<lambda>(e, v). embc (is_const e) v) (zip es us)" and ?\<sigma> = "\<lambda>z. (hd \<sigma>)(?e b1 \<mapsto> z) # tl \<sigma>"
    have ne: "\<sigma> \<noteq> []" and fr: "fresh b1 \<sigma>" and f: "glook \<sigma> f = None" and ret: "b_ret b1 \<in> set value_reprs"
      using c sg(1) hd by (auto simp: clean_def handoff_def)
    have st: "ext b1 \<sigma> (?\<sigma> z)" "fresh (?fin b1) (?\<sigma> z)" for z using ne fr by (auto simp: ext_def fresh_def later_def dest!: Suc_leD)
    have asg: "go_stmt F G n (hd (?sts xs b1)) \<sigma> = GNext (?\<sigma> z)" if "G f ?gs = Some [y, z]" "defaulted z = Some z" for y z
      using that ne fr f goods_eval [OF gd, of \<sigma>] go_multi_call [OF sg(1)]
      by (cases \<sigma>) (simp_all add: go_assign_def eval_rhs_def go_declare_def declare_one_def next_or_stuck_def fresh_def)
    have len: "length ?gs = length us" using us consts_typs [OF ts] by (auto simp: consts_ok_def dest!: list_all2_lengthD)
    note ok = call_ok [OF sg(1) us args_conv [OF us consts_typs [OF ts] sg(2)] len]
    have chk: "go_stmt F G n (error_check (?e b1) b1) (?\<sigma> z) = (if z = VNil then GNext (?\<sigma> z) else GRet [zero_val (b_ret b1), z])"
      if "z = VNil \<or> z = VErr k m" for z k m
      using that clean_reserved(6,7) [OF c st(1), of z] by (intro go_error_check ret) simp_all
    show "outcome F h vs b1 (?fin b1) \<sigma> \<Gamma> D \<Gamma>' D' (go_block F G n (?sts xs b1) \<sigma>) (with_val (pc f us) (\<lambda>v. PNext \<rho>))"
    proof (cases "pc f us")
      case (POk u)
      then have "G f ?gs = Some [emb u, VNil]" using ok by simp
      then have "go_block F G n (?sts xs b1) \<sigma> = GNext (?\<sigma> VNil)" using asg chk [of VNil] by simp
      then show ?thesis unfolding g using POk st(2) [of VNil] ext_upd [OF st(1)] vals_ext [OF a(1) st(1)] only_ext [OF a(2) st(1)]
        by (simp add: with_val_def outcome_def)
    next
      case (PRaise k m)
      then obtain z where "G f ?gs = Some [z, VErr k m]" using ok by auto
      then show ?thesis using PRaise asg chk [of "VErr k m" k m] by (simp add: with_val_def outcome_def)
    qed (use ok in simp)
  qed (auto simp: errName_def flushed_eq error_check_def if_only_def append_eq_Cons_conv with_vals_def with_val_def split: pres.splits)
qed

lemma ssim_discard: "ssim n h vs (EDiscard e)"
proof (cases "\<exists>f es r. e = ECall f es r")
  case False
  show ?thesis
  proof (rule ssimI)
    fix lp \<Gamma> D \<Gamma>' D' and b :: builder assume t: "stmt_typ S h (b_ret b) lp (EDiscard e) (\<Gamma>, D) = Some (\<Gamma>', D')" and pre: "pre b = []"
    from t obtain r where te: "typ_of S \<Gamma> e = Some r" and g: "\<Gamma>' = \<Gamma>" "D' = D" by (auto split: if_splits)
    show "lowered n h vs b \<Gamma> D \<Gamma>' D' (lowerStmt (EDiscard e) b) (pexec F pc n (EDiscard e))"
    proof (rule value_lowered [OF te pre, where st = "setStmt (GIdent ''_'')" and k = "\<lambda>\<rho> v. PNext \<rho>"])
      fix y b1 \<rho> \<sigma> v
      assume a: "vals \<Gamma> D \<rho> \<sigma>" "only D \<sigma>" "clean S b1 \<sigma>" and y: "good F b1 \<sigma> y (embc (is_const e) v)"
      have "\<sigma> \<noteq> []" "fresh b1 \<sigma>" using a(3) by (simp_all add: clean_def)
      with good_eval [OF y] show "outcome F h vs b1 (b1\<lparr>pre := []\<rparr>) \<sigma> \<Gamma> D \<Gamma>' D' (go_stmt F G n (setStmt (GIdent ''_'') y) \<sigma>) (PNext \<rho>)"
        unfolding g using go_set [of F \<sigma> y _ G n "''_''"] a by (simp add: next_or_stuck_def outcome_def)
    qed (use False in \<open>auto simp: setStmt_def simp del: lowerExpr.simps split: eexpr.split\<close>)
  qed
qed (auto simp: ssim_discard_call)

text \<open>Several names at once: the values are computed first, then bound from left to right.\<close>

lemma map_of_rev: "distinct (map fst xs) \<Longrightarrow> map_of (rev xs) = map_of xs"
proof (induction xs)
  case (Cons x xs)
  then have "map_of xs (fst x) = None" by (simp add: map_of_eq_None_iff)
  then show ?case using Cons by (cases x) (auto simp: fun_eq_iff map_add_def split: option.splits)
qed simp

lemma fold_declare:
  assumes "list_all2 (\<lambda>g u. defaulted g = Some (emb u)) gs us" and "length ns = length us" and "list_all2 has rs us"
    and "distinct ns" and "list_all (may_declare S h D) ns"
    and "\<sigma> \<noteq> []" and "vals \<Gamma> D \<rho> \<sigma>" and "only D \<sigma>" and "fresh b \<sigma>" and "wf_env S h \<Gamma> D"
  shows "\<exists>\<sigma>'. fold_opt (declare_one F) (zip ns gs) \<sigma> = Some \<sigma>' \<and> upd b \<sigma> \<sigma>' \<and> fresh b \<sigma>' \<and>
     vals (\<Gamma> ++ map_of (zip ns rs)) (D ++ map_of (zip ns rs)) (\<rho> ++ map_of (zip ns us)) \<sigma>' \<and> only (D ++ map_of (zip ns rs)) \<sigma>'"
  using assms
proof (induction gs us arbitrary: ns rs \<Gamma> D \<rho> \<sigma> rule: list_all2_induct)
  case (Cons g gs u us)
  obtain n ns' where ns: "ns = n # ns'" using Cons.prems by (cases ns) auto
  obtain r rs' where rs: "rs = r # rs'" "has r u" "list_all2 has rs' us" using Cons.prems by (cases rs) auto
  have m: "may_declare S h D n" "n \<notin> set ns'" "length ns' = length us" "distinct ns'" using Cons.prems ns by simp_all
  let ?\<sigma> = "(hd \<sigma>)(n \<mapsto> emb u) # tl \<sigma>"
  have one: "declare_one F (n, g) \<sigma> = Some ?\<sigma>"
    using undeclared [OF Cons.prems(7) m(1) Cons.prems(5)] Cons.hyps(1) Cons.prems(5) by (cases \<sigma>) (simp_all add: declare_one_def)
  have w: "wf_env S h (\<Gamma>(n \<mapsto> r)) (D(n \<mapsto> r))" using grows_declare(1) [OF Cons.prems(9) m(1)] by (simp add: grows_def)
  have "D n = None" "user_name n" "\<Gamma> \<subseteq>\<^sub>m D" using m(1) Cons.prems(9) by (simp_all add: may_declare_def wf_env_def)
  note d = declared [OF Cons.prems(5,7) this(1,2) Cons.prems(6) this(3) rs(2)]
  have md: "list_all (may_declare S h (D(n \<mapsto> r))) ns'" using Cons.prems(4) m(2) ns by (auto simp: list_all_iff may_declare_def)
  obtain \<sigma>' where s: "fold_opt (declare_one F) (zip ns' gs) ?\<sigma> = Some \<sigma>'" "upd b ?\<sigma> \<sigma>'" "fresh b \<sigma>'"
    "vals (\<Gamma>(n \<mapsto> r) ++ map_of (zip ns' rs')) (D(n \<mapsto> r) ++ map_of (zip ns' rs')) (\<rho>(n \<mapsto> u) ++ map_of (zip ns' us)) \<sigma>'"
    "only (D(n \<mapsto> r) ++ map_of (zip ns' rs')) \<sigma>'"
    using Cons.IH [OF m(3) rs(3) m(4) md _ d(3,5) d(2) [OF Cons.prems(8)] w] by blast
  show ?case using one s(1,3-5) upd_trans [OF d(1) s(2)] unfolding ns rs(1) add_zip_Cons [OF m(2)] by simp
qed auto

lemma fold_assign:
  assumes "list_all2 has rs us" and "consts_ok es rs" and "length ns = length us" and "distinct ns" and "map D ns = map Some rs"
    and "vals \<Gamma> D \<rho> \<sigma>" and "\<Gamma> \<subseteq>\<^sub>m D"
  shows "\<exists>\<sigma>'. fold_opt (assign_one F) (zip (map GIdent ns) (map (\<lambda>(e, v). embc (is_const e) v) (zip es us))) \<sigma> = Some \<sigma>' \<and>
     frames_same \<sigma> \<sigma>' \<and> vals (\<Gamma> ++ map_of (zip ns rs)) D (\<rho> ++ map_of (zip ns us)) \<sigma>'"
  using assms
proof (induction rs us arbitrary: ns es \<Gamma> \<rho> \<sigma> rule: list_all2_induct)
  case (Cons r rs u us)
  obtain n ns' where ns: "ns = n # ns'" using Cons.prems by (cases ns) auto
  obtain e es' where es: "es = e # es'" "is_const e \<longrightarrow> r \<in> set [intRepr, floatRepr]" "consts_ok es' rs"
    using Cons.prems(1) by (cases es) (auto simp: consts_ok_def)
  have m: "D n = Some r" "n \<notin> set ns'" "length ns' = length us" "distinct ns'" "map D ns' = map Some rs" using Cons.prems ns by simp_all
  obtain \<sigma>1 where 1: "assign_one F (GIdent n, embc (is_const e) u) \<sigma> = Some \<sigma>1" "frames_same \<sigma> \<sigma>1" "vals (\<Gamma>(n \<mapsto> r)) D (\<rho>(n \<mapsto> u)) \<sigma>1"
    using assign_user [OF Cons.prems(5) m(1) Cons.hyps(1) es(2) [rule_format] Cons.prems(6), where F = F] by blast
  have le: "\<Gamma>(n \<mapsto> r) \<subseteq>\<^sub>m D" using Cons.prems(6) m(1) by (auto simp: map_le_iff)
  obtain \<sigma>' where s: "fold_opt (assign_one F) (zip (map GIdent ns') (map (\<lambda>(e, v). embc (is_const e) v) (zip es' us))) \<sigma>1 = Some \<sigma>'"
    "frames_same \<sigma>1 \<sigma>'" "vals (\<Gamma>(n \<mapsto> r) ++ map_of (zip ns' rs)) D (\<rho>(n \<mapsto> u) ++ map_of (zip ns' us)) \<sigma>'"
    using Cons.IH [OF es(3) m(3-5) 1(3) le] by blast
  show ?case using 1(1) s(1,3) frames_same_trans [OF 1(2) s(2)] unfolding ns es(1) add_zip_Cons [OF m(2)]
    by (simp del: assign_one.simps)
qed auto

lemma goods_pins:
  assumes "lowerArgs es b = Some (zip xs rs, b')" and "length xs = length rs" and "list_all definable es" and "goods F b1 \<sigma> xs es us" and "clean S b1 \<sigma>"
  shows "\<exists>gs. those (map (go_eval F \<sigma>) (map (\<lambda>(x, r). pin x r) (zip xs rs))) = Some gs \<and> list_all2 (\<lambda>g u. defaulted g = Some (emb u)) gs us"
  using assms
proof (induction es arbitrary: b xs rs us)
  case Nil
  then show ?case by (auto simp: goods_def)
next
  case (Cons e es)
  then obtain x xs' r rs' where x: "xs = x # xs'" "rs = r # rs'" "length xs' = length rs'" by (cases xs; cases rs) (auto split: bind_splits)
  obtain u us' where u: "us = u # us'" using Cons.prems(4) x(1) by (cases us) (auto simp: goods_def)
  from Cons.prems(1) x obtain b2 where low: "lowerExpr e b = Some ((x, r), b2)" "lowerArgs es b2 = Some (zip xs' rs', b')"
    by (auto split: bind_splits)
  have g: "good F b1 \<sigma> x (embc (is_const e) u)" "goods F b1 \<sigma> xs' es us'" using Cons.prems(4) x(1) u by simp_all
  obtain y where "go_eval F \<sigma> (pin x r) = Some y" "defaulted y = Some (emb u)"
    using pin_value [OF low(1) _ g(1) Cons.prems(5)] Cons.prems(3) by auto
  moreover obtain gs where "those (map (go_eval F \<sigma>) (map (\<lambda>(x, r). pin x r) (zip xs' rs'))) = Some gs" "list_all2 (\<lambda>g u. defaulted g = Some (emb u)) gs us'"
    using Cons.IH [OF low(2) x(3) _ g(2) Cons.prems(5)] Cons.prems(3) by auto
  ultimately show ?case using x u by simp
qed

lemma ssim_bind: "ssim n h vs (EBind ns es d)"
proof (rule ssimI)
  fix lp \<Gamma> D \<Gamma>' D' and b :: builder
  assume w: "wf_env S h \<Gamma> D" and t: "stmt_typ S h (b_ret b) lp (EBind ns es d) (\<Gamma>, D) = Some (\<Gamma>', D')" and pre: "pre b = []"
  from t obtain rs where ts: "typs_of S \<Gamma> es = Some rs" and ns: "length ns = length es" "distinct ns" "ns \<noteq> []"
    and m: "if d then list_all (may_declare S h D) ns \<and> list_all definable es else map D ns = map Some rs"
    and g: "\<Gamma>' = \<Gamma> ++ map_of (zip ns rs)" "D' = D ++ map_of (zip ns rs)"
    by (auto split: bind_splits if_splits)
  have len: "length es = length rs" by (rule asim_typ_length [OF ts])
  let ?st = "\<lambda>xs. GAssign (map GIdent ns) (if d then T_DEFINE else T_ASSIGN) (map (\<lambda>(x, xr). if d then pin x xr else x) (zip xs rs))"
  show "lowered n h vs b \<Gamma> D \<Gamma>' D' (lowerStmt (EBind ns es d) b) (pexec F pc n (EBind ns es d))"
  proof (rule args_lowered [OF ts pre, where sts = "\<lambda>xs b. [?st xs]" and fin = "\<lambda>b. b\<lparr>pre := []\<rparr>" and
        k = "\<lambda>\<rho> vs. if length ns = length vs then PNext (\<rho> ++ map_of (rev (zip ns vs))) else PStuck"])
    fix xs b1 \<rho> \<sigma> us
    assume low: "lowerArgs es b = Some (zip xs rs, b1)" and lx: "length xs = length rs"
      and a: "vals \<Gamma> D \<rho> \<sigma>" "only D \<sigma>" and c: "clean S b1 \<sigma>" and us: "list_all2 has rs us" and gd: "goods F b1 \<sigma> xs es us"
    have ne: "\<sigma> \<noteq> []" and fr: "fresh b1 \<sigma>" using c by (auto simp: clean_def)
    have lu: "length ns = length us" using us ns(1) len by (simp add: list_all2_lengthD)
    have "\<exists>\<sigma>'. go_stmt F G n (?st xs) \<sigma> = GNext \<sigma>' \<and> upd b1 \<sigma> \<sigma>' \<and> fresh b1 \<sigma>' \<and> vals \<Gamma>' D' (\<rho> ++ map_of (zip ns us)) \<sigma>' \<and> only D' \<sigma>'"
    proof (cases d)
      case True
      obtain gs where gs: "those (map (go_eval F \<sigma>) (map (\<lambda>(x, r). pin x r) (zip xs rs))) = Some gs" "list_all2 (\<lambda>g u. defaulted g = Some (emb u)) gs us"
        using goods_pins [OF low lx _ gd c] m True by auto
      have md: "list_all (may_declare S h D) ns" using m True by simp
      obtain \<sigma>' where s: "fold_opt (declare_one F) (zip ns gs) \<sigma> = Some \<sigma>'" "upd b1 \<sigma> \<sigma>'" "fresh b1 \<sigma>'"
        "vals \<Gamma>' D' (\<rho> ++ map_of (zip ns us)) \<sigma>'" "only D' \<sigma>'"
        using fold_declare [OF gs(2) lu us ns(2) md ne a fr w] unfolding g by blast
      have "list_ex (\<lambda>n. n \<noteq> ''_'' \<and> hd \<sigma> n = None) ns" using ns(3) md undeclared [OF a(2) _ ne] by (cases ns) auto
      then have "go_declare F ns gs \<sigma> = Some \<sigma>'" using s(1) ns(2) lu list_all2_lengthD [OF gs(2)] by (simp add: go_declare_def)
      moreover have "those (map (ident_of \<circ> GIdent) ns) = Some ns" by (induction ns) simp_all
      ultimately have "go_stmt F G n (?st xs) \<sigma> = GNext \<sigma>'"
        using True gs(1) ns(1) lx len by (simp add: go_assign_def eval_rhs_def next_or_stuck_def)
      then show ?thesis using s by blast
    next
      case False
      have mD: "map D ns = map Some rs" and le: "\<Gamma> \<subseteq>\<^sub>m D" using m False w by (simp_all add: wf_env_def)
      let ?gs = "map (\<lambda>(e, v). embc (is_const e) v) (zip es us)"
      obtain \<sigma>' where s: "fold_opt (assign_one F) (zip (map GIdent ns) ?gs) \<sigma> = Some \<sigma>'" "frames_same \<sigma> \<sigma>'" "vals \<Gamma>' D (\<rho> ++ map_of (zip ns us)) \<sigma>'"
        using fold_assign [OF us consts_typs [OF ts] lu ns(2) mD a(1) le] unfolding g by blast
      have "map (\<lambda>(x, xr). if d then pin x xr else x) (zip xs rs) = xs" using False lx by (intro nth_equalityI) simp_all
      then have "go_stmt F G n (?st xs) \<sigma> = GNext \<sigma>'"
        using False s(1) goods_eval [OF gd, of \<sigma>] ne ns(1) lx len by (simp add: go_assign_def eval_rhs_def next_or_stuck_def)
      moreover have "D' = D" unfolding g using ns(1) len mD by (intro assigns_same) simp_all
      ultimately show ?thesis
        using s(2,3) frames_same_upd [OF s(2) ne] frames_same_fresh [OF s(2) fr ne] only_leave [OF s(2) a(2)] by simp
    qed
    moreover have "map_of (rev (zip ns us)) = map_of (zip ns us)" using ns(2) lu by (intro map_of_rev) simp
    ultimately show "outcome F h vs b1 (b1\<lparr>pre := []\<rparr>) \<sigma> \<Gamma> D \<Gamma>' D' (go_block F G n [?st xs] \<sigma>)
        (if length ns = length us then PNext (\<rho> ++ map_of (rev (zip ns us))) else PStuck)"
      using lu by (auto simp: outcome_def)
  qed (use ns(1) in \<open>auto simp: flushed_eq\<close>)
qed

end

end
