(* ===== verification/Emit_Control.thy ===== *)
theory Emit_Control
  imports Emit_Stmts
begin

text \<open>
  The simulation of blocks, conditionals and loops. Loops of both languages run on the same bound on iterations, so
  that running out of it is an outcome like any other.
\<close>

section \<open>Blocks\<close>

lemma empty_frame [simp]:
  "vals \<Gamma> D \<rho> ((\<lambda>_. None) # \<sigma>) \<longleftrightarrow> vals \<Gamma> D \<rho> \<sigma>" "only D ((\<lambda>_. None) # \<sigma>) \<longleftrightarrow> only D \<sigma>"
  "handoff h vs b ((\<lambda>_. None) # \<sigma>) \<longleftrightarrow> handoff h vs b \<sigma>"
  by (simp_all add: vals_def vars_ok_def only_def handoff_def)

lemma clean_frame: "clean S b \<sigma> \<Longrightarrow> clean S b ((\<lambda>_. None) # \<sigma>)"
  by (simp add: clean_def fresh_def)

lemma clean_adv: "clean S b \<sigma> \<Longrightarrow> adv b b' \<Longrightarrow> clean S b' \<sigma>"
  using fresh_adv by (auto simp: clean_def)

lemma lowerStmt_nonempty: "lowerStmt s b = Some (xs, b') \<Longrightarrow> xs \<noteq> []"
  by (cases s) (auto simp: flushed_eq flush_def Let_def next_stmts_def split: bind_splits if_splits eexpr.splits prod.splits)

lemma wf_names: "wf_env S h \<Gamma> D \<Longrightarrow> D h = None" "wf_env S h \<Gamma> D \<Longrightarrow> S f \<noteq> None \<Longrightarrow> D f = None"
  by (auto simp: wf_env_def)

lemma if_only_append: "if_only (xs @ ys) \<Longrightarrow> xs \<noteq> [] \<Longrightarrow> if_only xs \<and> ys = []"
  by (auto simp: if_only_def append_eq_Cons_conv)

context static_calls
begin

definition bsim :: "nat \<Rightarrow> string \<Rightarrow> gval list \<Rightarrow> estmt list \<Rightarrow> bool" where
  "bsim n h vs ss \<longleftrightarrow>
     (\<forall>lp \<Gamma> D \<Gamma>' D' b. wf_env S h \<Gamma> D \<longrightarrow> block_typ S h (b_ret b) lp ss (\<Gamma>, D) = Some (\<Gamma>', D') \<longrightarrow> pre b = [] \<longrightarrow>
       lowered n h vs b \<Gamma> D \<Gamma>' D' (lowerBlock ss b) (pblock F pc n ss))"

lemma runs_outcome:
  assumes "runs n h vs b b' \<Gamma> D \<Gamma>' D' xs px" and "vals \<Gamma> D \<rho> \<sigma>" and "only D \<sigma>" and "clean S b \<sigma>" and "handoff h vs b' \<sigma>"
  shows "outcome F h vs b b' \<sigma> \<Gamma> D \<Gamma>' D' (go_block F G n xs \<sigma>) (px \<rho>)" and "if_only xs \<Longrightarrow> closed \<sigma> (go_block F G n xs \<sigma>)"
  using assms by (simp_all add: runs_def)

lemma runs_seq:
  assumes r: "runs n h vs b b1 \<Gamma> D \<Gamma>1 D1 xs px" and r': "runs n h vs b1 b2 \<Gamma>1 D1 \<Gamma>2 D2 ys qx" and ad: "adv b b1" "adv b1 b2"
    and g: "grows S h \<Gamma> D \<Gamma>1 D1" and ne: "xs \<noteq> []"
  shows "runs n h vs b b2 \<Gamma> D \<Gamma>2 D2 (xs @ ys) (\<lambda>\<rho>. pseq (px \<rho>) qx)"
  unfolding runs_def
proof (intro allI impI conjI)
  fix \<rho> \<sigma> assume a: "vals \<Gamma> D \<rho> \<sigma>" "only D \<sigma>" "clean S b \<sigma>" and hd: "handoff h vs b2 \<sigma>"
  note o = runs_outcome [OF r a handoff_adv [OF hd ad(2)]]
  have le: "\<Gamma> \<subseteq>\<^sub>m \<Gamma>1" "D \<subseteq>\<^sub>m D1" and d: "D1 h = None" "\<And>f. S f \<noteq> None \<Longrightarrow> D1 f = None" using g by (auto simp: grows_def wf_env_def)
  show "outcome F h vs b b2 \<sigma> \<Gamma> D \<Gamma>2 D2 (go_block F G n (xs @ ys) \<sigma>) (pseq (px \<rho>) qx)"
    unfolding map_append run_block_append
  proof (rule outcome_seq [OF o(1) ad le])
    fix \<sigma>1 \<rho>1 assume u: "upd b \<sigma> \<sigma>1" "fresh b1 \<sigma>1" "vals \<Gamma>1 D1 \<rho>1 \<sigma>1" "only D1 \<sigma>1"
    show "outcome F h vs b1 b2 \<sigma>1 \<Gamma>1 D1 \<Gamma>2 D2 (go_block F G n ys \<sigma>1) (qx \<rho>1)"
      by (rule runs_outcome(1) [OF r' u(3,4) clean_upd [OF a(3) u(1,2,4) d(2)] handoff_upd [OF hd u(1,4) d(1)]])
  qed
  assume "if_only (xs @ ys)"
  then have "if_only xs" "ys = []" using if_only_append ne by blast+
  then show "closed \<sigma> (go_block F G n (xs @ ys) \<sigma>)" using o(2) by simp
qed

lemma block_sim:
  assumes "\<And>s. s \<in> set ss \<Longrightarrow> ssim n h vs s"
  shows "bsim n h vs ss"
  using assms
proof (induction ss)
  case Nil
  show ?case by (auto simp: bsim_def lowered_def runs_def if_only_def outcome_def clean_def)
next
  case (Cons s ss)
  show ?case
    unfolding bsim_def
  proof (intro allI impI)
    fix lp \<Gamma> D \<Gamma>' D' and b :: builder
    assume w: "wf_env S h \<Gamma> D" and t: "block_typ S h (b_ret b) lp (s # ss) (\<Gamma>, D) = Some (\<Gamma>', D')" and pre: "pre b = []"
    from t obtain \<Gamma>1 D1 where t1: "stmt_typ S h (b_ret b) lp s (\<Gamma>, D) = Some (\<Gamma>1, D1)" and t2: "block_typ S h (b_ret b) lp ss (\<Gamma>1, D1) = Some (\<Gamma>', D')"
      by (auto split: bind_splits)
    have g: "grows S h \<Gamma> D \<Gamma>1 D1" by (rule stmt_typ_grows [OF w t1])
    have "ssim n h vs s" using Cons.prems by simp
    then obtain xs b1 where 1: "lowerStmt s b = Some (xs, b1)" "adv b b1" "pre b1 = []" "runs n h vs b b1 \<Gamma> D \<Gamma>1 D1 xs (pexec F pc n s)"
      using w t1 pre unfolding ssim_def lowered_def by blast
    have ih: "bsim n h vs ss" using Cons by simp
    have "b_ret b1 = b_ret b" "wf_env S h \<Gamma>1 D1" using 1(2) g by (simp_all add: adv_def grows_def)
    then obtain ys b2 where 2: "lowerBlock ss b1 = Some (ys, b2)" "adv b1 b2" "pre b2 = []" "runs n h vs b1 b2 \<Gamma>1 D1 \<Gamma>' D' ys (pblock F pc n ss)"
      using ih t2 1(3) unfolding bsim_def lowered_def by metis
    have "runs n h vs b b2 \<Gamma> D \<Gamma>' D' (xs @ ys) (\<lambda>\<rho>. pseq (pexec F pc n s \<rho>) (pblock F pc n ss))"
      by (rule runs_seq [OF 1(4) 2(4) 1(2) 2(2) g lowerStmt_nonempty [OF 1(1)]])
    moreover have "pblock F pc n (s # ss) = (\<lambda>\<rho>. pseq (pexec F pc n s \<rho>) (pblock F pc n ss))" by (simp add: fun_eq_iff)
    ultimately show "lowered n h vs b \<Gamma> D \<Gamma>' D' (lowerBlock (s # ss) b) (pblock F pc n (s # ss))"
      unfolding lowered_def using 1(1) 2(1,3) adv_trans [OF 1(2) 2(2)] by auto
  qed
qed

text \<open>A block run in a scope of its own.\<close>

lemma branch_block:
  assumes r: "runs n h vs b b' \<Gamma> D \<Gamma>' D' xs px" and a: "vals \<Gamma> D \<rho> \<sigma>" "only D \<sigma>" "clean S b \<sigma>" and hd: "handoff h vs b' \<sigma>" and ad: "adv b b'"
    and g: "\<And>\<rho>'. px \<rho> = PNext \<rho>' \<Longrightarrow> \<Gamma>1 \<subseteq>\<^sub>m \<Gamma>'" "\<Gamma>1 \<subseteq>\<^sub>m D" "D \<subseteq>\<^sub>m D'" "\<Gamma> \<subseteq>\<^sub>m D"
  shows "outcome F h vs b b' \<sigma> \<Gamma> D \<Gamma>1 D (in_block (go_block F G n xs) \<sigma>) (px \<rho>)" and "closed \<sigma> (in_block (go_block F G n xs) \<sigma>)"
proof -
  have "outcome F h vs b b' ((\<lambda>_. None) # \<sigma>) \<Gamma> D \<Gamma>' D' (go_block F G n xs ((\<lambda>_. None) # \<sigma>)) (px \<rho>)"
    using runs_outcome(1) [OF r, of \<rho> "(\<lambda>_. None) # \<sigma>"] a hd clean_frame by simp
  note o = outcome_leave [OF this a(1,2) _ ad g]
  have "fresh b \<sigma>" "\<sigma> \<noteq> []" using a(3) by (simp_all add: clean_def)
  then show "outcome F h vs b b' \<sigma> \<Gamma> D \<Gamma>1 D (in_block (go_block F G n xs) \<sigma>) (px \<rho>)" "closed \<sigma> (in_block (go_block F G n xs) \<sigma>)"
    using o by (simp_all add: in_block_def)
qed

section \<open>Conditions\<close>

lemma truthy_ok:
  assumes r: "r \<in> set value_reprs" and c: "c \<Longrightarrow> r \<in> set [intRepr, floatRepr]"
  shows "\<exists>t. truthyExpr x r = Some t \<and>
    (\<forall>b \<sigma> v. clean S b \<sigma> \<longrightarrow> has r v \<longrightarrow> good F b \<sigma> x (embc c v) \<longrightarrow> go_test F t \<sigma> = Some (truth F v))"
  using r
proof (cases rule: value_reprs_cases)
  case 1
  then consider "r = intRepr" | "r = floatRepr" | "r = boolRepr" | "r = strRepr" by (auto simp: scalar_reprs_iff)
  then show ?thesis
  proof cases
    case 1
    have "go_test F (GBinary T_NEQ x (GIntLit 0)) \<sigma> = Some (truth F v)"
      if h: "clean S b \<sigma>" "has r v" "good F b \<sigma> x (embc c v)" for b \<sigma> v
    proof -
      obtain i where i: "v = PInt i" "in64 i" using h(2) 1 by (auto simp: has_scalar)
      moreover have "(word_of_int i :: int64) = 0 \<longleftrightarrow> i = 0" "in64 0" using i(2) by (simp_all add: eq_zero_iff64 in64_def)
      ultimately show ?thesis using h good_eval [OF h(3)]
        by (cases c) (auto simp: go_test_def embc_def clean_def go_bin_def const_bin_def int_bin_def)
    qed
    then show ?thesis using 1 by (simp add: truthyExpr_def)
  next
    case 2
    then show ?thesis
      by (cases c) (auto simp: truthyExpr_def go_test_def embc_def clean_def go_bin_def float_bin_def float_cmp_def has_scalar dest!: good_eval)
  next
    case 3
    then have "\<not> c" using c by (auto simp: repr_defs)
    then show ?thesis using 3 by (auto simp: truthyExpr_def go_test_def clean_def has_scalar embc_def dest!: good_eval)
  next
    case 4
    then have "\<not> c" using c by (auto simp: repr_defs)
    then show ?thesis using 4 by (auto simp: truthyExpr_def go_test_def clean_def has_scalar embc_def go_bin_def dest!: good_eval)
  qed
next
  case (2 el)
  have nc: "\<not> c" using c 2 by (auto simp: repr_defs listRepr_def)
  have "go_test F (GBinary T_NEQ (GCall (GIdent ''len'') [x]) (GIntLit 0)) \<sigma> = Some (truth F v)"
    if h: "clean S b \<sigma>" "has r v" "good F b \<sigma> x (embc c v)" for b \<sigma> v
  proof -
    have ne: "\<sigma> \<noteq> []" using h(1) by (simp add: clean_def)
    obtain us where "v = PList us" using h(2) 2 by (auto simp: has_def split: pval.splits)
    then show ?thesis using good_eval [OF h(3) ne] clean_reserved(4) [OF h(1), of \<sigma>] nc ne
      by (simp add: go_test_def embc_def go_call_def go_bin_def)
  qed
  then show ?thesis using 2 by (simp add: truthyExpr_def)
qed

text \<open>The \<open>else\<close> branch is a block, or the next \<open>if\<close> of the chain.\<close>

lemma branch_else:
  assumes r: "runs n h vs b b' \<Gamma> D \<Gamma>' D' xs px" and a: "vals \<Gamma> D \<rho> \<sigma>" "only D \<sigma>" "clean S b \<sigma>" and hd: "handoff h vs b' \<sigma>" and ad: "adv b b'"
    and g: "\<And>\<rho>'. px \<rho> = PNext \<rho>' \<Longrightarrow> \<Gamma>1 \<subseteq>\<^sub>m \<Gamma>'" "\<Gamma>1 \<subseteq>\<^sub>m D" "D \<subseteq>\<^sub>m D'" "\<Gamma> \<subseteq>\<^sub>m D"
  shows "outcome F h vs b b' \<sigma> \<Gamma> D \<Gamma>1 D (go_stmt F G n (else_stmt xs) \<sigma>) (px \<rho>)"
proof (cases "if_only xs")
  case True
  then obtain s where xs: "xs = [s]" "is_if s" by (auto simp: if_only_def)
  from runs_outcome [OF r a hd] have "outcome F h vs b b' \<sigma> \<Gamma> D \<Gamma>' D' (go_stmt F G n s \<sigma>) (px \<rho>)" "closed \<sigma> (go_stmt F G n s \<sigma>)"
    using True xs by simp_all
  from outcome_closed [OF this a(2) g(1,3)] show ?thesis using xs by (simp add: else_stmt_def)
next
  case False
  then have "else_stmt xs = GBlock xs" by (auto simp: else_stmt_def if_only_def split: list.splits)
  then show ?thesis using branch_block(1) [OF r a hd ad g] by simp
qed

lemma go_if:
  assumes "go_test F t \<sigma> = Some c"
  shows "go_stmt F G n (GIf None t ts els) \<sigma> =
    leave (if c then in_block (go_block F G n ts) ((\<lambda>_. None) # \<sigma>)
           else case els of None \<Rightarrow> GNext ((\<lambda>_. None) # \<sigma>) | Some s \<Rightarrow> go_stmt F G n s ((\<lambda>_. None) # \<sigma>))"
  using assms by (cases els) (simp_all add: in_block_def go_test_def)

text \<open>One branch of an \<open>if\<close>, inside the scope the statement opens.\<close>

lemma if_branch:
  assumes o: "outcome F h vs b1 b2 ((\<lambda>_. None) # \<sigma>) \<Gamma> D \<Gamma>1 D out p" and a: "vals \<Gamma> D \<rho> \<sigma>" "only D \<sigma>" "clean S b \<sigma>"
    and ad: "adv b b1" "adv b1 b2" "adv b2 b'" and g: "\<Gamma>1 \<subseteq>\<^sub>m D" "\<Gamma> \<subseteq>\<^sub>m D"
  shows "outcome F h vs b b' \<sigma> \<Gamma> D \<Gamma>1 D (leave out) p" and "closed \<sigma> (leave out)"
proof -
  have c: "fresh b1 \<sigma>" "\<sigma> \<noteq> []" using clean_adv [OF a(3) ad(1)] by (simp_all add: clean_def)
  note l = outcome_leave [OF o a(1,2) c(1) ad(2) map_le_refl g(1) map_le_refl g(2) c(2)]
  from outcome_adv [OF l(1) ad(1,3)] show "outcome F h vs b b' \<sigma> \<Gamma> D \<Gamma>1 D (leave out) p" .
  from l(2) show "closed \<sigma> (leave out)" .
qed

text \<open>The statement once its condition has a value.\<close>

lemma if_run:
  assumes rt: "runs n h vs b b2 \<Gamma> D \<Gamma>t Dt ts (pblock F pc n th)" and re: "runs n h vs b2 b3 \<Gamma> D \<Gamma>e De es (pblock F pc n el)"
    and ad: "adv b b2" "adv b2 b3" and gr: "grows S h \<Gamma> D \<Gamma>t Dt" "grows S h \<Gamma> D \<Gamma>e De" and w: "wf_env S h \<Gamma> D"
    and els: "els = Some (else_stmt es) \<or> els = None \<and> el = [] \<and> es = [] \<and> \<Gamma>e = \<Gamma>"
    and a: "vals \<Gamma> D \<rho> \<sigma>" "only D \<sigma>" "clean S b \<sigma>" and hd: "handoff h vs b3 \<sigma>" and c: "go_test F t \<sigma> = Some c"
  defines "out \<equiv> go_stmt F G n (GIf None t ts els) \<sigma>" and "p \<equiv> (if c then pblock F pc n th \<rho> else pblock F pc n el \<rho>)"
  shows "outcome F h vs b b3 \<sigma> \<Gamma> D (join_env D th \<Gamma>t el \<Gamma>e) D out p" and "closed \<sigma> out"
proof -
  let ?\<sigma> = "(\<lambda>_. None) # \<sigma>" and ?\<Gamma> = "join_env D th \<Gamma>t el \<Gamma>e"
  have le: "\<Gamma>t \<subseteq>\<^sub>m Dt" "\<Gamma>e \<subseteq>\<^sub>m De" "D \<subseteq>\<^sub>m Dt" "D \<subseteq>\<^sub>m De" "\<Gamma> \<subseteq>\<^sub>m D" using gr w by (auto simp: grows_def wf_env_def)
  note j = join_env_le(1-3) [OF le(1-4), where th = th and el = el]
  have "outcome F h vs b b3 \<sigma> \<Gamma> D ?\<Gamma> D out p \<and> closed \<sigma> out"
  proof (cases c)
    case True
    have "outcome F h vs b b2 ?\<sigma> \<Gamma> D ?\<Gamma> D (in_block (go_block F G n ts) ?\<sigma>) (pblock F pc n th \<rho>)"
      using a hd clean_frame [OF a(3)] handoff_adv [OF hd ad(2)] block_ends [of th F pc n \<rho>] j(1,2) le(3,5)
      by (intro branch_block(1) [OF rt _ _ _ _ ad(1)]) auto
    from if_branch [OF this a adv_refl ad j(1) le(5)] show ?thesis unfolding out_def p_def go_if [OF c] using True by simp
  next
    case False
    have "outcome F h vs b2 b3 ?\<sigma> \<Gamma> D ?\<Gamma> D (case els of None \<Rightarrow> GNext ?\<sigma> | Some s \<Rightarrow> go_stmt F G n s ?\<sigma>) (pblock F pc n el \<rho>)"
      using els
    proof
      assume e: "els = Some (else_stmt es)"
      have "outcome F h vs b2 b3 ?\<sigma> \<Gamma> D ?\<Gamma> D (go_stmt F G n (else_stmt es) ?\<sigma>) (pblock F pc n el \<rho>)"
        using a hd clean_frame [OF clean_adv [OF a(3) ad(1)]] block_ends [of el F pc n \<rho>] j(1,3) le(4,5)
        by (intro branch_else [OF re _ _ _ _ ad(2)]) auto
      then show ?thesis using e by simp
    next
      assume e: "els = None \<and> el = [] \<and> es = [] \<and> \<Gamma>e = \<Gamma>"
      have "?\<Gamma> \<subseteq>\<^sub>m \<Gamma>" using j(3) e by simp
      then have "vals ?\<Gamma> D \<rho> ?\<sigma>" using vals_weaken [OF a(1)] by simp
      then show ?thesis using e a by (simp add: outcome_def fresh_def)
    qed
    from if_branch [OF this a ad adv_refl j(1) le(5)] show ?thesis unfolding out_def p_def go_if [OF c] using False by simp
  qed
  then show "outcome F h vs b b3 \<sigma> \<Gamma> D ?\<Gamma> D out p" and "closed \<sigma> out" by simp_all
qed

text \<open>A condition is computed, then a statement runs on its value.\<close>

lemma cond_lowered:
  assumes te: "typ_of S \<Gamma> e = Some r" and x: "\<And>\<rho>. esim_at n \<Gamma> \<rho> h vs e r b x b1" and pre: "pre b = []" and ad: "adv b1 b'"
    and step: "\<And>\<rho> \<sigma> v. vals \<Gamma> D \<rho> \<sigma> \<Longrightarrow> only D \<sigma> \<Longrightarrow> clean S b1 \<sigma> \<Longrightarrow> handoff h vs b' \<sigma> \<Longrightarrow> has r v \<Longrightarrow> good F b1 \<sigma> x (embc (is_const e) v) \<Longrightarrow>
      outcome F h vs b1 b' \<sigma> \<Gamma> D \<Gamma>' D' (go_stmt F G n st \<sigma>) (k \<rho> v) \<and> closed \<sigma> (go_stmt F G n st \<sigma>)"
  shows "runs n h vs b b' \<Gamma> D \<Gamma>' D' (pre b1 @ [st]) (\<lambda>\<rho>. with_val (peval F pc \<rho> e) (k \<rho>))"
  unfolding runs_def
proof (intro allI impI conjI)
  fix \<rho> \<sigma> assume v: "vals \<Gamma> D \<rho> \<sigma>" "only D \<sigma>" "clean S b \<sigma>" "handoff h vs b' \<sigma>"
  have g: "grow b b1" using x [of Map.empty] by (simp add: esim_at_def)
  have "added b b1 = pre b1" using pre by (simp add: added_def)
  then have s: "sim (GTail h vs) b b1 \<sigma> (quiet e) (\<lambda>\<sigma>' v. has r v \<and> good F b1 \<sigma>' x (embc (is_const e) v)) (go_block F G n (pre b1) \<sigma>) (peval F pc \<rho> e)"
    using x [of \<rho>] v handoff_adv [OF v(4) ad] by (simp add: esim_at_def vals_def)
  have "outcome F h vs b b' \<sigma> \<Gamma> D \<Gamma>' D' (seq (go_block F G n (pre b1) \<sigma>) (go_stmt F G n st))
      (case peval F pc \<rho> e of POk v \<Rightarrow> k \<rho> v | PRaise c m \<Rightarrow> PExc c m | PUndef \<Rightarrow> PStuck)"
  proof (rule outcome_ext [OF s grow_adv [OF g] ad])
    fix \<sigma>1 u assume e: "ext b \<sigma> \<sigma>1" "fresh b1 \<sigma>1" and u: "has r u \<and> good F b1 \<sigma>1 x (embc (is_const e) u)"
    show "outcome F h vs b1 b' \<sigma>1 \<Gamma> D \<Gamma>' D' (go_stmt F G n st \<sigma>1) (k \<rho> u)"
      using step [OF vals_ext [OF v(1) e(1)] only_ext [OF v(2) e(1)] clean_ext [OF v(3) e] handoff_ext [OF v(4) e(1)]] u by blast
  qed
  then show "outcome F h vs b b' \<sigma> \<Gamma> D \<Gamma>' D' (go_block F G n (pre b1 @ [st]) \<sigma>) (with_val (peval F pc \<rho> e) (k \<rho>))"
    by (simp add: with_val_def run_block_append)
  assume "if_only (pre b1 @ [st])"
  then have p: "pre b1 = []" by (auto simp: if_only_def append_eq_Cons_conv)
  then obtain u where u: "has r u" "good F b1 \<sigma> x (embc (is_const e) u)" and fr: "fresh b1 \<sigma>"
    using s by (cases "peval F pc \<rho> e") (auto simp: sim_def)
  have "clean S b1 \<sigma>" using v(3) fr by (simp add: clean_def)
  from step [OF v(1,2) this v(4) u] show "closed \<sigma> (go_block F G n (pre b1 @ [st]) \<sigma>)" using p by simp
qed

lemma ssim_if:
  assumes th: "bsim n h vs th" and el: "bsim n h vs el"
  shows "ssim n h vs (EIf e th el)"
proof (rule ssimI)
  fix lp \<Gamma> D \<Gamma>' D' and b :: builder
  assume w: "wf_env S h \<Gamma> D" and t: "stmt_typ S h (b_ret b) lp (EIf e th el) (\<Gamma>, D) = Some (\<Gamma>', D')" and pre: "pre b = []"
  from t obtain r \<Gamma>t Dt \<Gamma>e De where te: "typ_of S \<Gamma> e = Some r" "r \<in> set value_reprs" and tt: "block_typ S h (b_ret b) lp th (\<Gamma>, D) = Some (\<Gamma>t, Dt)"
    and tl: "block_typ S h (b_ret b) lp el (\<Gamma>, D) = Some (\<Gamma>e, De)" and g: "\<Gamma>' = join_env D th \<Gamma>t el \<Gamma>e" "D' = D"
    by (rule EIf_typE)
  obtain x b1 where x: "\<And>\<rho>. esim_at n \<Gamma> \<rho> h vs e r b x b1" using expr_low [OF te(1), of n h vs b] by blast
  then have low: "lowerExpr e b = Some ((x, r), b1)" and gr: "adv b b1" using grow_adv by (simp_all add: esim_at_def)
  obtain c where c: "truthyExpr x r = Some c"
    "\<And>b \<sigma> v. clean S b \<sigma> \<Longrightarrow> has r v \<Longrightarrow> good F b \<sigma> x (embc (is_const e) v) \<Longrightarrow> go_test F c \<sigma> = Some (truth F v)"
    using truthy_ok [OF te(2), of "is_const e" x] const_typ [OF te(1)] by blast
  let ?b = "b1\<lparr>pre := []\<rparr>"
  have "b_ret ?b = b_ret b" "pre ?b = []" using gr by (simp_all add: adv_def)
  then obtain ts b2 where 2: "lowerBlock th ?b = Some (ts, b2)" "adv ?b b2" "pre b2 = []" "runs n h vs ?b b2 \<Gamma> D \<Gamma>t Dt ts (pblock F pc n th)"
    using th w tt unfolding bsim_def lowered_def by metis
  have "b_ret b2 = b_ret b" using gr 2(2) by (simp add: adv_def)
  then obtain es b3 where 3: "lowerBlock el b2 = Some (es, b3)" "adv b2 b3" "pre b3 = []" "runs n h vs b2 b3 \<Gamma> D \<Gamma>e De es (pblock F pc n el)"
    using el w tl 2(3) unfolding bsim_def lowered_def by metis
  define els where "els = (if el = [] then None else Some (else_stmt es))"
  have els: "els = Some (else_stmt es) \<or> els = None \<and> el = [] \<and> es = [] \<and> \<Gamma>e = \<Gamma>" and e0: "el = [] \<Longrightarrow> b3 = b2"
    using 3(1) tl by (auto simp: els_def)
  have ad: "adv b1 b2" "adv b1 b3" using 2(2) adv_trans [OF _ 3(2)] by simp_all
  have "runs n h vs b b3 \<Gamma> D \<Gamma>' D' (pre b1 @ [GIf None c ts els]) (\<lambda>\<rho>. with_val (peval F pc \<rho> e) (\<lambda>v. if truth F v then pblock F pc n th \<rho> else pblock F pc n el \<rho>))"
    unfolding g
  proof (rule cond_lowered [OF te(1) x pre ad(2)])
    fix \<rho> \<sigma> v assume a: "vals \<Gamma> D \<rho> \<sigma>" "only D \<sigma>" "clean S b1 \<sigma>" "handoff h vs b3 \<sigma>" and v: "has r v" "good F b1 \<sigma> x (embc (is_const e) v)"
    have c': "clean S ?b \<sigma>" using a(3) by simp
    note run = if_run [OF 2(4) 3(4) 2(2) 3(2) block_grows [OF w tt] block_grows [OF w tl] w els a(1,2) c' a(4) c(2) [OF a(3) v]]
    show "outcome F h vs b1 b3 \<sigma> \<Gamma> D (join_env D th \<Gamma>t el \<Gamma>e) D (go_stmt F G n (GIf None c ts els) \<sigma>) (if truth F v then pblock F pc n th \<rho> else pblock F pc n el \<rho>) \<and>
        closed \<sigma> (go_stmt F G n (GIf None c ts els) \<sigma>)"
      using outcome_adv [OF run(1), of b1 b3] run(2) by simp
  qed
  moreover have "lowerStmt (EIf e th el) b = Some (pre b1 @ [GIf None c ts els], b3)"
    using low c(1) 2(1) 3(1) e0 by (auto simp: flush_def els_def)
  moreover have "pexec F pc n (EIf e th el) = (\<lambda>\<rho>. with_val (peval F pc \<rho> e) (\<lambda>v. if truth F v then pblock F pc n th \<rho> else pblock F pc n el \<rho>))"
    by (simp add: fun_eq_iff)
  ultimately show "lowered n h vs b \<Gamma> D \<Gamma>' D' (lowerStmt (EIf e th el) b) (pexec F pc n (EIf e th el))"
    unfolding lowered_def using adv_trans [OF gr ad(2)] 3(3) by auto
qed

section \<open>Loops\<close>

lemma typed_low: "typ_of S \<Gamma> e = Some r \<Longrightarrow> lowerExpr e b = Some ((x, r'), b') \<Longrightarrow> r' = r"
  by (erule expr_low [of \<Gamma> e r 0 "[]" "[]" b]) (simp add: esim_at_def)

lemma lowerBin_pure:
  assumes t: "typ_bin o' lr rr lits = Some r" and q: "bitwise o' \<or> \<not> raising o' \<and> (r = floatRepr \<or> r = strRepr)"
    and low: "lowerBin o' lx lr rx rr b = Some (y, b')"
  shows "b' = b"
proof (cases "lr = strRepr \<and> rr = strRepr")
  case True
  then show ?thesis using low by (simp add: lowerBin_def split: if_splits)
next
  case False
  then have n: "lr = intRepr \<or> lr = floatRepr \<or> lr = boolRepr" "rr = intRepr \<or> rr = floatRepr \<or> rr = boolRepr"
    using t by (auto simp: typ_bin_def split: if_splits)
  show ?thesis
  proof (cases "bitwise o'")
    case True
    then have "o' = OpBitAnd \<or> o' = OpBitOr \<or> o' = OpBitXor" by (simp add: bitwise_def)
    then show ?thesis using low n by (elim disjE) (simp_all add: lowerBin_def Let_def numeric_def)
  next
    case F: False
    then have "o' = OpAdd \<or> o' = OpSub \<or> o' = OpMul" "lr = floatRepr \<or> rr = floatRepr"
      using q t n False by (auto simp: typ_bin_def raising_def split: if_splits)
    then show ?thesis using low n by (elim disjE) (simp_all add: lowerBin_def Let_def numeric_def)
  qed
qed

lemma guard_free_low: "guard_free S \<Gamma> e \<Longrightarrow> typ_of S \<Gamma> e = Some r \<Longrightarrow> lowerExpr e b = Some ((x, r'), b') \<Longrightarrow> b' = b"
proof (induction e arbitrary: r b x r' b')
  case (EBin o' l e)
  from EBin.prems(2) obtain lr rr where t: "typ_of S \<Gamma> l = Some lr" "typ_of S \<Gamma> e = Some rr" "typ_bin o' lr rr (float_lit l \<and> float_lit e) = Some r"
    by (auto split: bind_splits)
  from EBin.prems(3) obtain lx lr' b1 rx rr' b2 where low: "lowerExpr l b = Some ((lx, lr'), b1)" "lowerExpr e b1 = Some ((rx, rr'), b2)"
    "lowerBin o' lx lr' rx rr' b2 = Some ((x, r'), b')" by (auto split: bind_splits)
  have r: "lr' = lr" "rr' = rr" using typed_low t low by blast+
  have "b1 = b" "b2 = b1" using EBin.IH EBin.prems(1) t low by auto
  moreover have "b' = b2" using EBin.prems(1,2) low(3) unfolding r by (intro lowerBin_pure [OF t(3)]) auto
  ultimately show ?case by simp
next
  case (EListLit el es)
  have "b' = b" if "lowerArgs es b = Some (ys, b')" "typs_of S \<Gamma> es = Some rs" "list_all (guard_free S \<Gamma>) es" for b ys rs
    using that EListLit.IH
  proof (induction es arbitrary: b ys rs)
    case (Cons e es)
    from Cons.prems(1,2) obtain y t b1 ys' rr rs' where l: "lowerExpr e b = Some ((y, t), b1)" "lowerArgs es b1 = Some (ys', b')" "typ_of S \<Gamma> e = Some rr" "typs_of S \<Gamma> es = Some rs'"
      by (auto split: bind_splits)
    have "b1 = b" by (rule Cons.prems(4) [OF _ _ l(3,1)]) (use Cons.prems(3) in simp_all)
    moreover have "b' = b1"
      by (rule Cons.IH [OF l(2,4) _ Cons.prems(4) [OF list.set_intros(2)]]) (use Cons.prems(3) in simp_all)
    ultimately show ?case by simp
  qed simp
  then show ?case using EListLit.prems by (auto split: bind_splits if_splits)
next
  case (ECmp o' l e)
  from ECmp.prems(2,3) obtain lr rr y t b1 z u where l: "typ_of S \<Gamma> l = Some lr" "typ_of S \<Gamma> e = Some rr"
    "lowerExpr l b = Some ((y, t), b1)" "lowerExpr e b1 = Some ((z, u), b')"
    by (auto split: bind_splits if_splits)
  show ?case using ECmp.IH(1) [OF _ l(1,3)] ECmp.IH(2) [OF _ l(2,4)] ECmp.prems(1) by simp
next
  case (EAnd l e)
  from EAnd.prems(2,3) obtain lr rr y t b1 z u where l: "typ_of S \<Gamma> l = Some lr" "typ_of S \<Gamma> e = Some rr"
    "lowerExpr l b = Some ((y, t), b1)" "lowerExpr e b1 = Some ((z, u), b')"
    by (auto split: bind_splits if_splits)
  show ?case using EAnd.IH(1) [OF _ l(1,3)] EAnd.IH(2) [OF _ l(2,4)] EAnd.prems(1) by simp
next
  case (EOr l e)
  from EOr.prems(2,3) obtain lr rr y t b1 z u where l: "typ_of S \<Gamma> l = Some lr" "typ_of S \<Gamma> e = Some rr"
    "lowerExpr l b = Some ((y, t), b1)" "lowerExpr e b1 = Some ((z, u), b')"
    by (auto split: bind_splits if_splits)
  show ?case using EOr.IH(1) [OF _ l(1,3)] EOr.IH(2) [OF _ l(2,4)] EOr.prems(1) by simp
qed (auto split: bind_splits if_splits)

lemma guard_free_value:
  assumes "guard_free S \<Gamma> e" and "typ_of S \<Gamma> e = Some r"
  obtains x where "lowerExpr e b = Some ((x, r), b)"
    "\<And>\<rho> \<sigma>. vals \<Gamma> D \<rho> \<sigma> \<Longrightarrow> clean S b \<sigma> \<Longrightarrow> handoff h vs b \<sigma> \<Longrightarrow> \<exists>v. peval F pc \<rho> e = POk v \<and> has r v \<and> good F b \<sigma> x (embc (is_const e) v)"
proof -
  obtain x b' where x: "\<And>\<rho>. esim_at 0 \<Gamma> \<rho> h vs e r b x b'" using expr_low [OF assms(2), of 0 h vs b] by blast
  then have low: "lowerExpr e b = Some ((x, r), b')" by (simp add: esim_at_def)
  have b': "b' = b" by (rule guard_free_low [OF assms low])
  show thesis
  proof (rule that)
    show "lowerExpr e b = Some ((x, r), b)" using low b' by simp
    fix \<rho> \<sigma> assume a: "vals \<Gamma> D \<rho> \<sigma>" "clean S b \<sigma>" "handoff h vs b \<sigma>"
    then have "sim (GTail h vs) b b \<sigma> (quiet e) (\<lambda>\<sigma>' v. has r v \<and> good F b \<sigma>' x (embc (is_const e) v)) (GNext \<sigma>) (peval F pc \<rho> e)"
      using x [of \<rho>] by (simp add: esim_at_def b' vals_def)
    then show "\<exists>v. peval F pc \<rho> e = POk v \<and> has r v \<and> good F b \<sigma> x (embc (is_const e) v)"
      by (cases "peval F pc \<rho> e") (auto simp: sim_def)
  qed
qed

lemma guard_free_any:
  assumes "guard_free S \<Gamma> e" and "typ_of S \<Gamma> e = Some r"
    and "\<And>x. lowerExpr e b = Some ((x, r), b) \<Longrightarrow>
      (\<And>\<rho> \<sigma> D. vals \<Gamma> D \<rho> \<sigma> \<Longrightarrow> clean S b \<sigma> \<Longrightarrow> handoff h vs b \<sigma> \<Longrightarrow> \<exists>v. peval F pc \<rho> e = POk v \<and> has r v \<and> good F b \<sigma> x (embc (is_const e) v)) \<Longrightarrow> thesis"
  shows thesis
proof -
  obtain x where x: "lowerExpr e b = Some ((x, r), b)" using guard_free_value [OF assms(1,2), of b] by blast
  show thesis
  proof (rule assms(3) [OF x])
    fix \<rho> \<sigma> D assume "vals \<Gamma> D \<rho> \<sigma>" "clean S b \<sigma>" "handoff h vs b \<sigma>"
    then show "\<exists>v. peval F pc \<rho> e = POk v \<and> has r v \<and> good F b \<sigma> x (embc (is_const e) v)"
      using guard_free_value [OF assms(1,2), of b D h vs] x by (metis option.inject prod.inject)
  qed
qed

text \<open>What holds at the head of a loop is kept by a block that leaves no declaration behind.\<close>

definition at_head :: "string \<Rightarrow> gval list \<Rightarrow> builder \<Rightarrow> builder \<Rightarrow> tenv \<Rightarrow> tenv \<Rightarrow> penv \<Rightarrow> genv \<Rightarrow> bool" where
  "at_head h vs b b' \<Gamma> D \<rho> \<sigma> \<longleftrightarrow> vals \<Gamma> D \<rho> \<sigma> \<and> only D \<sigma> \<and> clean S b \<sigma> \<and> handoff h vs b' \<sigma>"

lemma at_head_same:
  assumes "at_head h vs b b' \<Gamma> D \<rho> \<sigma>" and "frames_same \<sigma> \<sigma>'" and "vals \<Gamma>' D \<rho>' \<sigma>'" and "wf_env S h \<Gamma> D"
  shows "at_head h vs b b' \<Gamma>' D \<rho>' \<sigma>'"
proof -
  have c: "vals \<Gamma> D \<rho> \<sigma>" "only D \<sigma>" "clean S b \<sigma>" "handoff h vs b' \<sigma>" "\<sigma> \<noteq> []" "fresh b \<sigma>" using assms(1) by (simp_all add: at_head_def clean_def)
  have o: "only D \<sigma>'" by (rule only_leave [OF assms(2) c(2)])
  have d: "D h = None" "\<And>f. S f \<noteq> None \<Longrightarrow> D f = None" using assms(4) by (auto simp: wf_env_def)
  note u = frames_same_upd [OF assms(2) c(5)]
  show ?thesis using assms(3) o clean_upd [OF c(3) u frames_same_fresh [OF assms(2) c(6,5)] o d(2)] handoff_upd [OF c(4) u o d(1)]
    by (simp add: at_head_def)
qed

lemma outcome_shift:
  assumes "frames_same \<sigma> \<sigma>'" and "\<sigma> \<noteq> []" and "outcome F h vs b b' \<sigma>' \<Gamma> D \<Gamma>' D' out p" and "closed \<sigma>' out"
  shows "outcome F h vs b b' \<sigma> \<Gamma> D \<Gamma>' D' out p \<and> closed \<sigma> out"
proof -
  have "upd b \<sigma> \<sigma>''" if "upd b \<sigma>' \<sigma>''" for \<sigma>'' using upd_trans [OF frames_same_upd [OF assms(1,2)] that adv_refl] .
  moreover have "closed \<sigma> out" using assms(4) frames_same_trans [OF assms(1)] by (cases out) simp_all
  ultimately show ?thesis using assms(3) by (cases p) (auto simp: outcome_def)
qed

text \<open>The body of a loop in its own scope, from the head and back.\<close>

lemma body_round:
  assumes r: "runs n h vs b b' \<Gamma> D \<Gamma>' D' xs px" and a: "at_head h vs b b' \<Gamma> D \<rho> \<sigma>" and ad: "adv b b'" and g: "grows S h \<Gamma> D \<Gamma>' D'" and w: "wf_env S h \<Gamma> D"
  shows "outcome F h vs b b' \<sigma> \<Gamma> D \<Gamma> D (in_block (go_block F G n xs) \<sigma>) (px \<rho>)" and "closed \<sigma> (in_block (go_block F G n xs) \<sigma>)"
  using a g w by (auto simp: at_head_def grows_def wf_env_def intro!: branch_block [OF r _ _ _ _ ad])

text \<open>The ways a round ends.\<close>

lemma round_cases:
  assumes o: "outcome F h vs b b' \<sigma> \<Gamma> D \<Gamma> D out p" and c: "closed \<sigma> out"
  obtains (handed) "deoptUsed b'" "out = GTail h vs"
    | (nxt) \<rho>' \<sigma>' where "p = PNext \<rho>'" "out = GNext \<sigma>'" "frames_same \<sigma> \<sigma>'" "vals \<Gamma> D \<rho>' \<sigma>'"
    | (cont) \<rho>' \<sigma>' where "p = PCont \<rho>'" "out = GCont \<sigma>'" "frames_same \<sigma> \<sigma>'" "vals \<Gamma> D \<rho>' \<sigma>'"
    | (brk) \<rho>' \<sigma>' where "p = PBreak \<rho>'" "out = GBreak \<sigma>'" "frames_same \<sigma> \<sigma>'" "vals \<Gamma> D \<rho>' \<sigma>'"
    | (ret) v vs' where "p = PRet v" "out = GRet vs'" | (exc) k m vs' where "p = PExc k m" "out = GRet vs'" | (fuel) "p = PFuel" "out = GFuel"
  using o c by (cases p) (auto simp: outcome_def)

lemma outcome_handed: "deoptUsed b' \<Longrightarrow> outcome F h vs b b' \<sigma> \<Gamma> D \<Gamma>' D' (GTail h vs) p"
  by (simp add: outcome_def)

lemma head_next:
  assumes "at_head h vs b b' \<Gamma> D \<rho> \<sigma>" and "adv b b'" and "frames_same \<sigma>0 \<sigma>" and "\<sigma>0 \<noteq> []"
  shows "outcome F h vs b b' \<sigma>0 \<Gamma>' D' \<Gamma> D (GNext \<sigma>) (PNext \<rho>)"
  using assms fresh_adv [OF _ assms(2), of \<sigma>] frames_same_upd [OF assms(3,4)] by (simp add: at_head_def outcome_def clean_def)

lemma while_sim:
  assumes r: "runs n h vs b b' \<Gamma> D \<Gamma>' D' xs px" and ad: "adv b b'" and g: "grows S h \<Gamma> D \<Gamma>' D'" and w: "wf_env S h \<Gamma> D"
    and c: "\<And>\<rho> \<sigma>. at_head h vs b b' \<Gamma> D \<rho> \<sigma> \<Longrightarrow> \<exists>v. cond \<rho> = POk v \<and> go_test F t \<sigma> = Some (truth F v)"
  shows "at_head h vs b b' \<Gamma> D \<rho> \<sigma> \<Longrightarrow>
    outcome F h vs b b' \<sigma> \<Gamma> D \<Gamma> D (for_loop m (go_test F t) (in_block (go_block F G n xs)) GNext \<sigma>) (while_loop m cond F px \<rho>) \<and>
    closed \<sigma> (for_loop m (go_test F t) (in_block (go_block F G n xs)) GNext \<sigma>)"
proof (induction m arbitrary: \<rho> \<sigma>)
  case 0
  then show ?case by (simp add: outcome_def)
next
  case (Suc m)
  have ne: "\<sigma> \<noteq> []" using Suc.prems by (simp add: at_head_def clean_def)
  obtain v where v: "cond \<rho> = POk v" "go_test F t \<sigma> = Some (truth F v)" using c [OF Suc.prems] by blast
  note o = body_round [OF r Suc.prems ad g w]
  have again: "outcome F h vs b b' \<sigma> \<Gamma> D \<Gamma> D (for_loop m (go_test F t) (in_block (go_block F G n xs)) GNext \<sigma>') (while_loop m cond F px \<rho>') \<and>
    closed \<sigma> (for_loop m (go_test F t) (in_block (go_block F G n xs)) GNext \<sigma>')" if "frames_same \<sigma> \<sigma>'" "vals \<Gamma> D \<rho>' \<sigma>'" for \<rho>' \<sigma>'
    using Suc.IH [OF at_head_same [OF Suc.prems that w]] outcome_shift [OF that(1) ne] by blast
  show ?case
  proof (cases "truth F v")
    case False
    then show ?thesis using v head_next [OF Suc.prems ad _ ne] by (simp add: with_val_def)
  next
    case True
    from o show ?thesis
    proof (cases rule: round_cases)
      case handed
      then show ?thesis using v True by (simp add: with_val_def outcome_handed)
    next
      case (brk \<rho>' \<sigma>')
      then show ?thesis using v True head_next [OF at_head_same [OF Suc.prems brk(3,4) w] ad brk(3) ne] by (simp add: with_val_def)
    qed (use v True o(1) again in \<open>auto simp: with_val_def\<close>)
  qed
qed

lemma ssim_while:
  assumes body: "bsim n h vs body"
  shows "ssim n h vs (EWhile e body)"
proof (rule ssimI)
  fix lp \<Gamma> D \<Gamma>' D' and b :: builder
  assume w: "wf_env S h \<Gamma> D" and t: "stmt_typ S h (b_ret b) lp (EWhile e body) (\<Gamma>, D) = Some (\<Gamma>', D')" and pre: "pre b = []"
  from t obtain r \<Gamma>b Db where te: "typ_of S \<Gamma> e = Some r" "r \<in> set value_reprs" "guard_free S \<Gamma> e"
    and tb: "block_typ S h (b_ret b) True body (\<Gamma>, D) = Some (\<Gamma>b, Db)" and gd: "\<Gamma>' = \<Gamma>" "D' = D"
    by (auto split: bind_splits if_splits)
  obtain x where x: "lowerExpr e b = Some ((x, r), b)"
    "\<And>\<rho> \<sigma>. vals \<Gamma> D \<rho> \<sigma> \<Longrightarrow> clean S b \<sigma> \<Longrightarrow> handoff h vs b \<sigma> \<Longrightarrow> \<exists>v. peval F pc \<rho> e = POk v \<and> has r v \<and> good F b \<sigma> x (embc (is_const e) v)"
    using guard_free_value [OF te(3,1), of b D h vs] by blast
  obtain c where c: "truthyExpr x r = Some c"
    "\<And>b \<sigma> v. clean S b \<sigma> \<Longrightarrow> has r v \<Longrightarrow> good F b \<sigma> x (embc (is_const e) v) \<Longrightarrow> go_test F c \<sigma> = Some (truth F v)"
    using truthy_ok [OF te(2), of "is_const e" x] const_typ [OF te(1)] by blast
  obtain ss b' where s: "lowerBlock body b = Some (ss, b')" "adv b b'" "pre b' = []" "runs n h vs b b' \<Gamma> D \<Gamma>b Db ss (pblock F pc n body)"
    using body w tb pre unfolding bsim_def lowered_def by blast
  have bb: "b\<lparr>pre := []\<rparr> = b" using pre by simp
  have low: "lowerStmt (EWhile e body) b = Some ([GFor None (Some c) None ss], b')" using x(1) c(1) s(1) pre by (simp add: flush_def bb)
  have test: "\<exists>v. peval F pc \<rho> e = POk v \<and> go_test F c \<sigma> = Some (truth F v)" if "at_head h vs b b' \<Gamma> D \<rho> \<sigma>" for \<rho> \<sigma>
    using that x(2) [of \<rho> \<sigma>] c(2) handoff_adv [OF _ s(2)] by (auto simp: at_head_def)
  have "runs n h vs b b' \<Gamma> D \<Gamma> D [GFor None (Some c) None ss] (pexec F pc n (EWhile e body))"
    unfolding runs_def
  proof (intro allI impI conjI)
    fix \<rho> \<sigma> assume a: "vals \<Gamma> D \<rho> \<sigma>" "only D \<sigma>" "clean S b \<sigma>" "handoff h vs b' \<sigma>"
    let ?\<sigma> = "(\<lambda>_. None) # \<sigma>"
    have "at_head h vs b b' \<Gamma> D \<rho> ?\<sigma>" using a clean_frame by (simp add: at_head_def)
    note o = while_sim [where cond = "\<lambda>\<rho>. peval F pc \<rho> e" and m = n, OF s(4,2) block_grows [OF w tb] w test this, THEN conjunct1]
    have ne: "\<sigma> \<noteq> []" "fresh b \<sigma>" using a(3) by (simp_all add: clean_def)
    have "\<Gamma> \<subseteq>\<^sub>m D" using w by (simp add: wf_env_def)
    from outcome_leave(1) [OF o a(1,2) ne(2) s(2) map_le_refl this map_le_refl this ne(1)]
    show "outcome F h vs b b' \<sigma> \<Gamma> D \<Gamma> D (go_block F G n [GFor None (Some c) None ss] \<sigma>) (pexec F pc n (EWhile e body) \<rho>)"
      by (simp add: in_block_def)
  qed (simp add: if_only_def)
  then show "lowered n h vs b \<Gamma> D \<Gamma>' D' (lowerStmt (EWhile e body) b) (pexec F pc n (EWhile e body))"
    unfolding lowered_def low gd using s(2,3) by blast
qed

text \<open>A counted loop: Go's loop variable follows Python's, and stays within 64 bits because the bound does.\<close>

lemma vals_bind:
  assumes "vals \<Gamma> D \<rho> \<sigma>" and "D v = Some r" and "has r x" and "glook \<sigma> v = Some (emb x)"
  shows "vals (\<Gamma>(v \<mapsto> r)) D (\<rho>(v \<mapsto> x)) \<sigma>"
  using assms by (auto simp: vals_def vars_ok_def)

lemma vals_unbind:
  assumes "vals (\<Gamma>(v \<mapsto> r)) D (\<rho>(v \<mapsto> x)) \<sigma>" and "\<Gamma> v = None"
  shows "vals \<Gamma> D \<rho> \<sigma>" and "glook \<sigma> v = Some (emb x)"
proof -
  show "glook \<sigma> v = Some (emb x)" using vals_var [OF assms(1), of v r] by auto
  have "vars_ok \<Gamma> \<rho> \<sigma>"
    unfolding vars_ok_def
  proof (intro allI impI)
    fix n r' assume "\<Gamma> n = Some r'"
    then have "(\<Gamma>(v \<mapsto> r)) n = Some r'" "n \<noteq> v" using assms(2) by auto
    then show "user_name n \<and> (\<exists>w. \<rho> n = Some w \<and> has r' w \<and> glook \<sigma> n = Some (emb w))"
      using assms(1) unfolding vals_def vars_ok_def by fastforce
  qed
  then show "vals \<Gamma> D \<rho> \<sigma>" using assms(1) by (simp add: vals_def)
qed

lemma go_step:
  assumes a: "vals (\<Gamma>(v \<mapsto> intRepr)) D \<rho> \<sigma>" "\<rho> v = Some (PInt i)" "D v = Some intRepr" "\<Gamma> \<subseteq>\<^sub>m D" and j: "j = (if down then i - 1 else i + 1)" "in64 j"
  shows "\<exists>\<sigma>'. go_stmt F G n (GIncDec (GIdent v) (if down then T_DEC else T_INC)) \<sigma> = GNext \<sigma>' \<and> frames_same \<sigma> \<sigma>' \<and>
    vals (\<Gamma>(v \<mapsto> intRepr)) D (\<rho>(v \<mapsto> PInt j)) \<sigma>'"
proof -
  have g: "glook \<sigma> v = Some (VInt (word_of_int i))" using vals_var [OF a(1), of v intRepr] a(2) by simp
  have "\<Gamma>(v \<mapsto> intRepr) \<subseteq>\<^sub>m D" using a(3,4) by (auto simp: map_le_iff)
  then obtain \<sigma>' where s: "assign_one F (GIdent v, embc False (PInt j)) \<sigma> = Some \<sigma>'" "frames_same \<sigma> \<sigma>'" "vals (\<Gamma>(v \<mapsto> intRepr, v \<mapsto> intRepr)) D (\<rho>(v \<mapsto> PInt j)) \<sigma>'"
    using assign_user [OF a(1,3), of "PInt j" False F] j(2) by (auto simp: has_scalar)
  have "in64 1" by (simp add: in64_def)
  then have "go_bin F (if down then T_SUB else T_ADD) (VInt (word_of_int i)) (VConst 1) = Some (VInt (word_of_int j))"
    using j(1) by (simp add: go_bin_def int_bin_def)
  then have "go_stmt F G n (GIncDec (GIdent v) (if down then T_DEC else T_INC)) \<sigma> = GNext \<sigma>'"
    using g s(1) by (cases down) (simp_all add: go_incdec_def next_or_stuck_def embc_def del: assign_one.simps)
  then show ?thesis using s(2,3) by simp
qed

lemma count_sim:
  assumes r: "runs n h vs b b' (\<Gamma>(v \<mapsto> intRepr)) D \<Gamma>' D' xs px" and ad: "adv b b'" and g: "grows S h (\<Gamma>(v \<mapsto> intRepr)) D \<Gamma>' D'"
    and w: "wf_env S h (\<Gamma>(v \<mapsto> intRepr)) D" "\<Gamma> v = None" and keep: "\<And>\<rho>. keeps ns \<rho> (px \<rho>)" "v \<notin> set ns"
    and bnd: "\<And>\<rho> \<rho>'. (\<And>m. m \<notin> set (v # ns) \<Longrightarrow> \<rho>' m = \<rho> m) \<Longrightarrow> pe \<rho>' = pe \<rho>" and z: "in64 z"
    and test: "\<And>\<rho> \<sigma> i. at_head h vs b b' \<Gamma> D \<rho> \<sigma> \<Longrightarrow> glook \<sigma> v = Some (VInt (word_of_int i)) \<Longrightarrow> in64 i \<Longrightarrow> pe \<rho> = POk (PInt z) \<Longrightarrow>
      go_test F t \<sigma> = Some (if down then z < i else i < z)"
  defines "post \<equiv> go_stmt F G n (GIncDec (GIdent v) (if down then T_DEC else T_INC))"
  shows "at_head h vs b b' \<Gamma> D \<rho> \<sigma> \<Longrightarrow> glook \<sigma> v = Some (VInt (word_of_int i)) \<Longrightarrow> in64 i \<Longrightarrow> pe \<rho> = POk (PInt z) \<Longrightarrow>
    outcome F h vs b b' \<sigma> \<Gamma> D \<Gamma> D (for_loop m (go_test F t) (in_block (go_block F G n xs)) post \<sigma>) (count_rounds m v i z down px \<rho>) \<and>
    closed \<sigma> (for_loop m (go_test F t) (in_block (go_block F G n xs)) post \<sigma>)"
proof (induction m arbitrary: \<rho> \<sigma> i)
  case 0
  then show ?case by (simp add: outcome_def)
next
  case (Suc m)
  let ?j = "if down then i - 1 else i + 1" and ?\<rho> = "\<rho>(v \<mapsto> PInt i)"
  have ne: "\<sigma> \<noteq> []" using Suc.prems(1) by (simp add: at_head_def clean_def)
  have le: "\<Gamma>(v \<mapsto> intRepr) \<subseteq>\<^sub>m D" "\<Gamma> \<subseteq>\<^sub>m \<Gamma>(v \<mapsto> intRepr)" using w by (auto simp: wf_env_def map_le_iff)
  have dv: "D v = Some intRepr" "\<Gamma> \<subseteq>\<^sub>m D" using le(1) map_le_trans [OF le(2,1)] by (auto simp: map_le_iff split: if_splits)
  have w': "wf_env S h \<Gamma> D" using w(1) dv(2) by (simp add: wf_env_def)
  note t = test [OF Suc.prems]
  show ?case
  proof (cases "if down then z < i else i < z")
    case False
    then show ?thesis using t head_next [OF Suc.prems(1) ad _ ne] by auto
  next
    case True
    have j: "in64 ?j" using True Suc.prems(3) z by (auto simp: in64_def split: if_splits)
    have a: "at_head h vs b b' (\<Gamma>(v \<mapsto> intRepr)) D ?\<rho> \<sigma>"
      using Suc.prems(1,3) vals_bind [of \<Gamma> D \<rho> \<sigma> v intRepr "PInt i"] dv(1) Suc.prems(2) by (simp add: at_head_def has_scalar)
    note o = body_round [OF r a ad g w(1)]
    have again: "outcome F h vs b b' \<sigma> \<Gamma> D \<Gamma> D (seq (post \<sigma>') (for_loop m (go_test F t) (in_block (go_block F G n xs)) post)) (count_rounds m v ?j z down px \<rho>') \<and>
        closed \<sigma> (seq (post \<sigma>') (for_loop m (go_test F t) (in_block (go_block F G n xs)) post))"
      if f: "frames_same \<sigma> \<sigma>'" "vals (\<Gamma>(v \<mapsto> intRepr)) D \<rho>' \<sigma>'" "px ?\<rho> = PNext \<rho>' \<or> px ?\<rho> = PCont \<rho>'" for \<rho>' \<sigma>'
    proof -
      have k: "\<rho>' m = ?\<rho> m" if "m \<notin> set ns" for m using keep(1) [of ?\<rho>] f(3) that by (auto simp: keeps_def)
      have pe: "pe \<rho>' = POk (PInt z)" using bnd [of \<rho>' \<rho>] k Suc.prems(4) by simp
      have iv: "\<rho>' v = Some (PInt i)" using k [OF keep(2)] by simp
      obtain \<sigma>'' where s: "post \<sigma>' = GNext \<sigma>''" "frames_same \<sigma>' \<sigma>''" "vals (\<Gamma>(v \<mapsto> intRepr)) D (\<rho>'(v \<mapsto> PInt ?j)) \<sigma>''"
        using go_step [OF f(2) iv dv refl j, of n] unfolding post_def by blast
      note u = vals_unbind [OF s(3) w(2)]
      have fs: "frames_same \<sigma> \<sigma>''" by (rule frames_same_trans [OF f(1) s(2)])
      have "glook \<sigma>'' v = Some (VInt (word_of_int ?j))" using u(2) by simp
      from outcome_shift [OF fs ne Suc.IH [OF at_head_same [OF Suc.prems(1) fs u(1) w'] this j pe, THEN conjunct1]
          Suc.IH [OF at_head_same [OF Suc.prems(1) fs u(1) w'] this j pe, THEN conjunct2]]
      show ?thesis using s(1) by simp
    qed
    from o show ?thesis
    proof (cases rule: round_cases)
      case handed
      then show ?thesis using t True by (simp add: outcome_handed)
    next
      case (nxt \<rho>' \<sigma>')
      then show ?thesis using t True again [of \<sigma>' \<rho>'] by auto
    next
      case (cont \<rho>' \<sigma>')
      then show ?thesis using t True again [of \<sigma>' \<rho>'] by auto
    next
      case (brk \<rho>' \<sigma>')
      have "vals \<Gamma> D \<rho>' \<sigma>'" using vals_weaken [OF brk(4), of \<Gamma> D] w(2) by (simp add: map_le_iff)
      then show ?thesis using t True brk head_next [OF at_head_same [OF Suc.prems(1) brk(3) _ w'] ad brk(3) ne] by simp
    qed (use t True o(1) in \<open>auto simp: outcome_def\<close>)
  qed
qed

lemma bound_stable: "bound_ok e ns \<Longrightarrow> (\<And>m. m \<notin> set ns \<Longrightarrow> \<rho>' m = \<rho> m) \<Longrightarrow> peval F pc \<rho>' e = peval F pc \<rho> e"
  by (cases e) auto

lemma bound_guard_free: "bound_ok e ns \<Longrightarrow> guard_free S \<Gamma> e"
  by (cases e) auto

lemma count_test:
  assumes "glook \<sigma> v = Some (VInt (word_of_int i))" and "in64 i" and "in64 z" and "go_eval F \<sigma> x = Some (embc c (PInt z))"
  shows "go_test F (GBinary (if down then T_GTR else T_LSS) (GIdent v) x) \<sigma> = Some (if down then z < i else i < z)"
proof -
  have s: "sint (word_of_int i :: int64) = i" "sint (word_of_int z :: int64) = z" using assms(2,3) by simp_all
  moreover have "(word_of_int i :: int64) = word_of_int z \<longleftrightarrow> i = z" using s by metis
  ultimately show ?thesis using assms by (cases c; cases down) (auto simp: go_test_def embc_def go_bin_def int_bin_def)
qed

lemma outcome_after:
  assumes "upd b \<sigma> \<sigma>1" and "outcome F h vs b b' \<sigma>1 \<Gamma>1 D1 \<Gamma>' D' out p" and "\<Gamma> \<subseteq>\<^sub>m \<Gamma>1" and "D \<subseteq>\<^sub>m D1"
  shows "outcome F h vs b b' \<sigma> \<Gamma> D \<Gamma>' D' out p"
  using assms(2) upd_trans [OF assms(1) _ adv_refl] vals_weaken [OF _ assms(3,4)] by (cases p) (auto simp: outcome_def)

lemma count_run:
  fixes down :: bool
  assumes r: "runs n h vs b b' (\<Gamma>(v \<mapsto> intRepr)) (D(v \<mapsto> intRepr)) \<Gamma>' D' ss (pblock F pc n body)" and ad: "adv b b'"
    and g: "grows S h (\<Gamma>(v \<mapsto> intRepr)) (D(v \<mapsto> intRepr)) \<Gamma>' D'" and w: "wf_env S h \<Gamma> D" and m: "may_declare S h D v"
    and bo: "bound_ok e (v # concat (map assigned body))" "v \<notin> set (concat (map assigned body))"
    and e: "\<forall>\<rho> \<sigma> D. vals \<Gamma> D \<rho> \<sigma> \<longrightarrow> clean S b \<sigma> \<longrightarrow> handoff h vs b \<sigma> \<longrightarrow> (\<exists>u. peval F pc \<rho> e = POk u \<and> has intRepr u \<and> good F b \<sigma> x (embc (is_const e) u))"
    and a: "vals \<Gamma> D \<rho> \<sigma>" "only D \<sigma>" "clean S b \<sigma>" "handoff h vs b' \<sigma>" and i: "in64 i"
    and s: "go_eval F \<sigma> y = Some q" "defaulted q = Some (VInt (word_of_int i))"
  defines "out \<equiv> go_stmt F G n (count_loop v y x down ss) \<sigma>"
  shows "outcome F h vs b b' \<sigma> \<Gamma> D \<Gamma> D out (with_val (peval F pc \<rho> e) (\<lambda>z. case z of PInt z \<Rightarrow> count_rounds n v i z down (pblock F pc n body) \<rho> | _ \<Rightarrow> PStuck))"
    and "closed \<sigma> out"
proof -
  let ?\<sigma> = "(\<lambda>_. None) # \<sigma>" and ?D = "D(v \<mapsto> intRepr)" and ?t = "GBinary (if down then T_GTR else T_LSS) (GIdent v) x"
  let ?\<sigma>1 = "[v \<mapsto> emb (PInt i)] # \<sigma>" and ?post = "go_stmt F G n (GIncDec (GIdent v) (if down then T_DEC else T_INC))"
  have le: "\<Gamma> \<subseteq>\<^sub>m D" "\<Gamma> v = None" "D v = None" using w m by (auto simp: wf_env_def may_declare_def map_le_def dom_def)
  have c: "\<sigma> \<noteq> []" "fresh b \<sigma>" using a(3) by (simp_all add: clean_def)
  have gd: "grows S h \<Gamma> D (\<Gamma>(v \<mapsto> intRepr)) ?D" "grows S h \<Gamma> D \<Gamma> ?D" using grows_declare [OF w m] by blast+
  then have w1: "wf_env S h (\<Gamma>(v \<mapsto> intRepr)) ?D" "wf_env S h \<Gamma> ?D" by (simp_all add: grows_def)
  have hi: "has intRepr (PInt i)" using i by (simp add: has_scalar)
  have c1: "clean S b ?\<sigma>" by (rule clean_frame [OF a(3)])
  then have fr: "fresh b ?\<sigma>" by (simp add: clean_def)
  have o1: "outcome F h vs b (b\<lparr>pre := []\<rparr>) ?\<sigma> \<Gamma> D \<Gamma> ?D (GNext ?\<sigma>1) (PNext \<rho>)"
    using declare_outcome(2) [of ?\<sigma> \<Gamma> D \<rho> b S h v intRepr "PInt i" F vs] a fr m le(1) hi by simp
  then have u: "upd b ?\<sigma> ?\<sigma>1" "fresh b ?\<sigma>1" "vals \<Gamma> ?D \<rho> ?\<sigma>1" "only ?D ?\<sigma>1" by (auto simp: outcome_def)
  note d = wf_names [OF w1(2)]
  have "handoff h vs b' ?\<sigma>" using a(4) by simp
  then have h1: "at_head h vs b b' \<Gamma> ?D \<rho> ?\<sigma>1"
    using u clean_upd [OF c1 u(1,2,4) d(2)] handoff_upd [OF _ u(1,4) d(1), of vs b'] by (simp add: at_head_def)
  obtain z where z: "peval F pc \<rho> e = POk (PInt z)" "in64 z"
    using e [rule_format, OF a(1,3) handoff_adv [OF a(4) ad]] by (auto simp: has_scalar)
  have test: "go_test F ?t \<sigma>' = Some (if down then z < i' else i' < z)"
    if t: "at_head h vs b b' \<Gamma> ?D \<rho>' \<sigma>'" "glook \<sigma>' v = Some (VInt (word_of_int i'))" "in64 i'" "peval F pc \<rho>' e = POk (PInt z)" for \<rho>' \<sigma>' i'
  proof -
    have "good F b \<sigma>' x (embc (is_const e) (PInt z))" using t(1,4) e [rule_format, of ?D \<rho>' \<sigma>'] handoff_adv [OF _ ad] by (auto simp: at_head_def)
    moreover have "\<sigma>' \<noteq> []" using t(1) by (simp add: at_head_def clean_def)
    ultimately show ?thesis using good_eval by (intro count_test [OF t(2,3) z(2)]) blast
  qed
  have o2: "outcome F h vs b b' ?\<sigma>1 \<Gamma> ?D \<Gamma> ?D (for_loop n (go_test F ?t) (in_block (go_block F G n ss)) ?post ?\<sigma>1) (count_rounds n v i z down (pblock F pc n body) \<rho>)"
    using count_sim [where pe = "\<lambda>\<rho>. peval F pc \<rho> e", OF r ad g w1(1) le(2) pblock_keeps bo(2) bound_stable [OF bo(1)] z(2) test h1 _ i z(1)] by simp
  have "go_stmt F G n (define_stmt v y) ?\<sigma> = GNext ?\<sigma>1"
    using go_define [of F ?\<sigma> y q "emb (PInt i)" v G n] s m by (simp add: may_declare_def user_name_def)
  then have out: "out = leave (for_loop n (go_test F ?t) (in_block (go_block F G n ss)) ?post ?\<sigma>1)"
    by (simp add: out_def count_loop_def in_block_def)
  have D: "D \<subseteq>\<^sub>m ?D" using gd(2) by (simp add: grows_def)
  from outcome_leave [OF outcome_after [OF u(1) o2 map_le_refl D] a(1,2) c(2) ad map_le_refl le(1) D le(1) c(1)]
  show "outcome F h vs b b' \<sigma> \<Gamma> D \<Gamma> D out (with_val (peval F pc \<rho> e) (\<lambda>z. case z of PInt z \<Rightarrow> count_rounds n v i z down (pblock F pc n body) \<rho> | _ \<Rightarrow> PStuck))"
    "closed \<sigma> out" unfolding out by (simp_all add: z(1) with_val_def)
qed

lemma ssim_count:
  assumes body: "bsim n h vs body"
  shows "ssim n h vs (EForCount v i e down body res)"
proof (rule ssimI)
  fix lp \<Gamma> D \<Gamma>' D' and b :: builder
  assume w: "wf_env S h \<Gamma> D" and t: "stmt_typ S h (b_ret b) lp (EForCount v i e down body res) (\<Gamma>, D) = Some (\<Gamma>', D')" and pre: "pre b = []"
  let ?\<Gamma> = "\<Gamma>(v \<mapsto> intRepr)" and ?D = "D(v \<mapsto> intRepr)"
  from t obtain \<Gamma>b Db where tb: "block_typ S h (b_ret b) True body (?\<Gamma>, ?D) = Some (\<Gamma>b, Db)" and m: "may_declare S h D v" and res: "res = None"
    and ti: "typ_of S \<Gamma> i = Some intRepr" "definable i" and te: "typ_of S \<Gamma> e = Some intRepr"
    and bo: "bound_ok e (v # concat (map assigned body))" "v \<notin> set (concat (map assigned body))" and gd: "\<Gamma>' = \<Gamma>" "D' = D"
    by (auto split: bind_splits if_splits)
  obtain sx b1 where sx: "\<And>\<rho>. esim_at n \<Gamma> \<rho> h vs i intRepr b sx b1" using expr_low [OF ti(1), of n h vs b] by blast
  then have low: "lowerExpr i b = Some ((sx, intRepr), b1)" and gr: "adv b b1" using grow_adv by (simp_all add: esim_at_def)
  obtain x where x: "lowerExpr e b1 = Some ((x, intRepr), b1)"
    "\<And>\<rho> \<sigma> D. vals \<Gamma> D \<rho> \<sigma> \<Longrightarrow> clean S b1 \<sigma> \<Longrightarrow> handoff h vs b1 \<sigma> \<Longrightarrow> \<exists>u. peval F pc \<rho> e = POk u \<and> has intRepr u \<and> good F b1 \<sigma> x (embc (is_const e) u)"
    by (rule guard_free_any [OF bound_guard_free [OF bo(1)] te]) blast
  let ?b = "b1\<lparr>pre := []\<rparr>"
  have w1: "wf_env S h ?\<Gamma> ?D" using grows_declare(1) [OF w m] by (simp add: grows_def)
  have "b_ret ?b = b_ret b" "pre ?b = []" using gr by (simp_all add: adv_def)
  then obtain ss b' where s: "lowerBlock body ?b = Some (ss, b')" "adv ?b b'" "pre b' = []" "runs n h vs ?b b' ?\<Gamma> ?D \<Gamma>b Db ss (pblock F pc n body)"
    using body w1 tb unfolding bsim_def lowered_def by metis
  have ad: "adv b1 b'" using s(2) by simp
  let ?k = "\<lambda>\<rho> a. with_val (peval F pc \<rho> e) (\<lambda>z. case (a, z) of (PInt a, PInt z) \<Rightarrow> count_rounds n v a z down (pblock F pc n body) \<rho> | _ \<Rightarrow> PStuck)"
  have "runs n h vs b b' \<Gamma> D \<Gamma> D (pre b1 @ [count_loop v (pin sx intRepr) x down ss]) (\<lambda>\<rho>. with_val (peval F pc \<rho> i) (?k \<rho>))"
  proof (rule cond_lowered [OF ti(1) sx pre ad])
    fix \<rho> \<sigma> u assume a: "vals \<Gamma> D \<rho> \<sigma>" "only D \<sigma>" "clean S b1 \<sigma>" "handoff h vs b' \<sigma>" and u: "has intRepr u" "good F b1 \<sigma> sx (embc (is_const i) u)"
    obtain a0 where a0: "u = PInt a0" "in64 a0" using u(1) by (auto simp: has_scalar)
    obtain q where q: "go_eval F \<sigma> (pin sx intRepr) = Some q" "defaulted q = Some (VInt (word_of_int a0))"
      using pin_value [OF low ti(2) u(2) a(3)] a0(1) by auto
    have c: "clean S ?b \<sigma>" "\<forall>\<rho> \<sigma> D. vals \<Gamma> D \<rho> \<sigma> \<longrightarrow> clean S ?b \<sigma> \<longrightarrow> handoff h vs ?b \<sigma> \<longrightarrow> (\<exists>u. peval F pc \<rho> e = POk u \<and> has intRepr u \<and> good F ?b \<sigma> x (embc (is_const e) u))"
      using a(3) x(2) by simp_all
    note run = count_run [OF s(4,2) block_grows [OF w1 tb] w m bo c(2) a(1,2) c(1) a(4) a0(2) q, where down = down]
    have k: "?k \<rho> u = with_val (peval F pc \<rho> e) (\<lambda>z. case z of PInt z \<Rightarrow> count_rounds n v a0 z down (pblock F pc n body) \<rho> | _ \<Rightarrow> PStuck)"
      by (simp add: a0(1))
    from outcome_adv [OF run(1), of b1 b'] run(2)
    show "outcome F h vs b1 b' \<sigma> \<Gamma> D \<Gamma> D (go_stmt F G n (count_loop v (pin sx intRepr) x down ss) \<sigma>) (?k \<rho> u) \<and>
        closed \<sigma> (go_stmt F G n (count_loop v (pin sx intRepr) x down ss) \<sigma>)" unfolding k by simp
  qed
  moreover have "lowerStmt (EForCount v i e down body res) b = Some (pre b1 @ [count_loop v (pin sx intRepr) x down ss], b')"
    using low x(1) s(1) by (simp add: flush_def res push_resume_def pop_resume_def)
  moreover have "pexec F pc n (EForCount v i e down body res) = (\<lambda>\<rho>. with_val (peval F pc \<rho> i) (?k \<rho>))" by (simp add: fun_eq_iff)
  ultimately show "lowered n h vs b \<Gamma> D \<Gamma>' D' (lowerStmt (EForCount v i e down body res) b) (pexec F pc n (EForCount v i e down body res))"
    unfolding lowered_def gd using adv_trans [OF gr ad] s(3) by metis
qed

text \<open>Every typed statement and block.\<close>

theorem stmt_sim: "ssim n h vs s"
proof (induction s)
  case (EIf e th el)
  then show ?case by (intro ssim_if block_sim)
next
  case (EWhile e body)
  then show ?case by (intro ssim_while block_sim)
next
  case (EForCount v i e down body res)
  then show ?case by (intro ssim_count block_sim)
qed (simp_all add: ssim_define ssim_assign ssim_aug ssim_var ssim_bind ssim_return ssim_discard ssim_jump, simp_all add: ssim_def)

theorem block_correct:
  assumes "wf_env S h \<Gamma> D" and "block_typ S h (b_ret b) lp ss (\<Gamma>, D) = Some (\<Gamma>', D')" and "pre b = []"
  obtains xs b' where "lowerBlock ss b = Some (xs, b')" "adv b b'" "runs n h vs b b' \<Gamma> D \<Gamma>' D' xs (pblock F pc n ss)"
  using block_sim [OF stmt_sim, where ss = ss and n = n and h = h and vs = vs] assms unfolding bsim_def lowered_def by blast

end

end
