(* ===== verification/Emit_Link.thy ===== *)
theory Emit_Link
  imports Emit_Control
begin

text \<open>
  The functions \<^verbatim>\<open>EmitFunc\<close> emits (\<^verbatim>\<open>pkg/emit/func.go\<close>), and modules of functions that call one another directly
  (\<^verbatim>\<open>staticForms\<close> in \<^verbatim>\<open>pkg/build/static.go\<close> lets a form call only forms that carry no guard).
\<close>

section \<open>Typed functions\<close>

text \<open>A parameter may also be an instance of a fixed-shape class.\<close>

definition param_repr :: "repr \<Rightarrow> bool" where
  "param_repr r \<longleftrightarrow>
     r \<in> set value_reprs \<or>
     repr_Elem r = None \<and> repr_Shape r \<noteq> None \<and>
     (case goType r of GIdent n \<Rightarrow> n \<notin> set [''int64'', ''float64'', ''bool'', ''string'', ''error''] | _ \<Rightarrow> False)"

lemma conv_param:
  assumes "param_repr r" and "has r v"
  shows "conv_type F (goType r) (emb v) = Some (emb v)"
proof (cases "r \<in> set value_reprs")
  case True
  then show ?thesis using conv_value [of r v False F] assms(2) by (simp add: embc_def)
next
  case False
  then show ?thesis using assms by (cases v) (auto simp: param_repr_def has_def split: gexpr.splits)
qed

text \<open>The names a body sees on entry: the shadows of the globals it reads, its version counters and its parameters.\<close>

definition entry_typ :: "(string \<times> repr) list \<Rightarrow> efunc \<Rightarrow> tenv" where
  "entry_typ gl f = map_of gl ++ map_of (zip (map ep_Name (ef_Params f)) (map ep_Repr (ef_Params f)))"

definition global_typ :: "(string \<times> repr) list \<Rightarrow> efunc \<Rightarrow> tenv" where
  "global_typ gl f = map_of gl ++ map_of (map (\<lambda>g. (VerVar g, intRepr)) (BindingGuards f))"

definition entry_decl :: "(string \<times> repr) list \<Rightarrow> efunc \<Rightarrow> tenv" where
  "entry_decl gl f = global_typ gl f ++ map_of (zip (map ep_Name (ef_Params f)) (map ep_Repr (ef_Params f)))"

definition func_typ :: "sigs \<Rightarrow> (string \<times> repr) list \<Rightarrow> efunc \<Rightarrow> bool" where
  "func_typ S gl f \<longleftrightarrow>
     (let ps = map ep_Name (ef_Params f); vers = map VerVar (BindingGuards f) in
      distinct ps \<and>
      list_all (\<lambda>n. user_name n \<and> S n = None \<and> n \<noteq> DeoptHandler f) (ps @ vers @ map fst gl) \<and>
      list_all (\<lambda>n. n \<notin> set vers) (ps @ map fst gl) \<and>
      list_all (\<lambda>p. param_repr (ep_Repr p)) (ef_Params f) \<and> ef_Ret f \<in> set value_reprs \<and>
      DeoptHandler f \<noteq> [] \<and> user_name (DeoptHandler f) \<and> list_ex ends (ef_Body f) \<and>
      block_typ S (DeoptHandler f) (ef_Ret f) False (ef_Body f) (entry_typ gl f, entry_decl gl f) \<noteq> None)"

text \<open>The frame of package-level variables: typed, and naming nothing else.\<close>

definition frame_typ :: "(string \<times> repr) list \<Rightarrow> efunc \<Rightarrow> (string \<Rightarrow> gval option) \<Rightarrow> bool" where
  "frame_typ gl f \<gamma> \<longleftrightarrow>
     (\<forall>n r. global_typ gl f n = Some r \<longrightarrow> (\<exists>v. has r v \<and> \<gamma> n = Some (emb v))) \<and> (\<forall>n. \<gamma> n \<noteq> None \<longrightarrow> global_typ gl f n \<noteq> None)"

text \<open>Every version counter still has the version the form was specialised against.\<close>

definition current :: "efunc \<Rightarrow> (string \<Rightarrow> gval option) \<Rightarrow> bool" where
  "current f \<gamma> \<longleftrightarrow> list_all (\<lambda>g. \<gamma> (VerVar g) = Some (VInt (bg_Version g))) (BindingGuards f)"

text \<open>The world-age contract: while the versions are current, each shadow holds the global's Python value.\<close>

definition shadows :: "(string \<times> repr) list \<Rightarrow> (string \<Rightarrow> gval option) \<Rightarrow> penv \<Rightarrow> bool" where
  "shadows gl \<gamma> \<rho> \<longleftrightarrow> list_all (\<lambda>(n, r). \<exists>v. \<rho> n = Some v \<and> has r v \<and> \<gamma> n = Some (emb v)) gl"

lemma map_add_le: "(\<And>n r. G n = Some r \<Longrightarrow> V n = None) \<Longrightarrow> G ++ P \<subseteq>\<^sub>m (G ++ V) ++ P"
  by (auto simp: map_le_iff map_add_def split: option.splits)

lemma func_wf:
  assumes "func_typ S gl f"
  shows "wf_env S (DeoptHandler f) (entry_typ gl f) (entry_decl gl f)"
proof -
  let ?P = "map_of (zip (map ep_Name (ef_Params f)) (map ep_Repr (ef_Params f)))"
  let ?V = "map_of (map (\<lambda>g. (VerVar g, intRepr)) (BindingGuards f))"
  let ?ok = "\<lambda>n. user_name n \<and> S n = None \<and> n \<noteq> DeoptHandler f"
  have a: "list_all ?ok (map ep_Name (ef_Params f) @ map VerVar (BindingGuards f) @ map fst gl)"
    and v: "list_all (\<lambda>n. n \<notin> set (map VerVar (BindingGuards f))) (map ep_Name (ef_Params f) @ map fst gl)"
    using assms by (simp_all add: func_typ_def Let_def)
  have ok: "n \<in> set (map ep_Name (ef_Params f)) \<union> set (map VerVar (BindingGuards f)) \<union> set (map fst gl) \<Longrightarrow> ?ok n" for n
    using a unfolding list_all_iff set_append by blast
  have P: "?P n = Some r \<Longrightarrow> n \<in> set (map ep_Name (ef_Params f))" for n r by (auto dest!: map_of_SomeD set_zip_leftD)
  have V: "?V n = Some r \<Longrightarrow> n \<in> set (map VerVar (BindingGuards f))" for n r by (auto dest!: map_of_SomeD)
  have gl: "map_of gl n = Some r \<Longrightarrow> n \<in> set (map fst gl)" for n r by (force dest!: map_of_SomeD)
  have "?V n = None" if "map_of gl n = Some r" for n r
    using v gl [OF that] V [of n] unfolding list_all_iff set_append by (cases "?V n") blast+
  then have "entry_typ gl f \<subseteq>\<^sub>m entry_decl gl f"
    unfolding entry_typ_def entry_decl_def global_typ_def by (intro map_add_le) auto
  moreover have "?ok n" if "entry_decl gl f n \<noteq> None" for n
  proof -
    have "?P n \<noteq> None \<or> ?V n \<noteq> None \<or> map_of gl n \<noteq> None"
      using that unfolding entry_decl_def global_typ_def by (auto simp: map_add_None simp del: map_of_eq_None_iff map_of_zip_is_None)
    then have "n \<in> set (map ep_Name (ef_Params f)) \<union> set (map VerVar (BindingGuards f)) \<union> set (map fst gl)"
      using P [of n] V [of n] gl [of n] by (metis UnCI option.exhaust)
    then show ?thesis by (rule ok)
  qed
  ultimately show ?thesis by (simp add: wf_env_def)
qed

section \<open>Entry\<close>

lemma map_of_args:
  assumes "list_all2 has rs vs" and "length ns = length rs"
  shows "map_of (zip ns rs) n = Some r \<Longrightarrow> \<exists>v. map_of (zip ns vs) n = Some v \<and> has r v \<and> map_of (zip ns (map emb vs)) n = Some (emb v)"
    and "map_of (zip ns rs) n = None \<Longrightarrow> map_of (zip ns vs) n = None \<and> map_of (zip ns (map emb vs)) n = None"
proof -
  have "(case map_of (zip ns rs) n of
      Some r \<Rightarrow> \<exists>v. map_of (zip ns vs) n = Some v \<and> has r v \<and> map_of (zip ns (map emb vs)) n = Some (emb v)
    | None \<Rightarrow> map_of (zip ns vs) n = None \<and> map_of (zip ns (map emb vs)) n = None)"
    using assms
  proof (induction rs vs arbitrary: ns rule: list_all2_induct)
    case (Cons r rs v vs)
    then obtain m ms where ns: "ns = m # ms" "length ms = length rs" by (cases ns) auto
    show ?case using Cons.IH [OF ns(2)] Cons.hyps(1) unfolding ns(1) by (cases "n = m") (simp_all split: option.splits)
  qed simp
  then show "map_of (zip ns rs) n = Some r \<Longrightarrow> \<exists>v. map_of (zip ns vs) n = Some v \<and> has r v \<and> map_of (zip ns (map emb vs)) n = Some (emb v)"
    "map_of (zip ns rs) n = None \<Longrightarrow> map_of (zip ns vs) n = None \<and> map_of (zip ns (map emb vs)) n = None"
    by simp_all
qed

text \<open>The function's first frame: its parameters, with the snapshot of them when a hand-off may need it.\<close>

definition params_frame :: "efunc \<Rightarrow> pval list \<Rightarrow> string \<Rightarrow> gval option" where
  "params_frame f vs = map_of (zip (map ep_Name (ef_Params f)) (map emb vs))"

definition snap_frame :: "efunc \<Rightarrow> pval list \<Rightarrow> string \<Rightarrow> gval option" where
  "snap_frame f vs = params_frame f vs ++ map_of (zip (map deoptParam [0..<length (ef_Params f)]) (map emb vs))"

definition py_entry :: "penv \<Rightarrow> efunc \<Rightarrow> pval list \<Rightarrow> penv" where
  "py_entry \<rho> f vs = \<rho> ++ map_of (zip (map ep_Name (ef_Params f)) vs)"

lemma deoptParam_not_user: "\<not> user_name (deoptParam i)"
  by (simp add: user_name_def)

lemma zip_none: "n \<notin> set ns \<Longrightarrow> map_of (zip ns xs) n = None"
  by (auto simp: map_of_eq_None_iff dest: set_zip_leftD)

lemma snap_user: "user_name n \<Longrightarrow> snap_frame f vs n = params_frame f vs n"
  using deoptParam_not_user by (auto simp: snap_frame_def map_add_def split: option.splits dest!: map_of_SomeD set_zip_leftD)

lemma snap_reserved: "gen_like n \<or> n \<in> set reserved \<Longrightarrow> \<not> (\<exists>i. n = deoptParam i) \<Longrightarrow> list_all user_name (map ep_Name (ef_Params f)) \<Longrightarrow> snap_frame f vs n = None"
  unfolding snap_frame_def params_frame_def map_add_None by (intro conjI zip_none) (auto simp: list_all_iff user_name_def)

text \<open>What the two frames have in common.\<close>

definition entry_frame :: "efunc \<Rightarrow> pval list \<Rightarrow> (string \<Rightarrow> gval option) \<Rightarrow> bool" where
  "entry_frame f vs p \<longleftrightarrow> p = params_frame f vs \<or> p = snap_frame f vs"

lemma entry_user: "entry_frame f vs p \<Longrightarrow> user_name n \<Longrightarrow> p n = params_frame f vs n"
  by (auto simp: entry_frame_def snap_user)

lemma entry_vals:
  assumes t: "func_typ S gl f" and fr: "frame_typ gl f \<gamma>" and sh: "shadows gl \<gamma> \<rho>" and vs: "list_all2 has (map ep_Repr (ef_Params f)) vs"
    and p: "entry_frame f vs p"
  shows "vals (entry_typ gl f) (entry_decl gl f) (py_entry \<rho> f vs) [p, \<gamma>]"
proof -
  let ?ns = "map ep_Name (ef_Params f)" and ?rs = "map ep_Repr (ef_Params f)"
  note a = map_of_args [OF vs, of ?ns, simplified length_map, OF refl]
  have wf: "wf_env S (DeoptHandler f) (entry_typ gl f) (entry_decl gl f)" by (rule func_wf [OF t])
  then have un: "user_name n" if "entry_decl gl f n = Some r" for n r using that by (auto simp: wf_env_def)
  have look: "glook [p, \<gamma>] n = (case params_frame f vs n of Some v \<Rightarrow> Some v | None \<Rightarrow> \<gamma> n)" if "user_name n" for n
    using entry_user [OF p that] by (simp split: option.splits)
  have "user_name n \<and> (\<exists>v. py_entry \<rho> f vs n = Some v \<and> has r v \<and> glook [p, \<gamma>] n = Some (emb v))" if n: "entry_typ gl f n = Some r" for n r
  proof -
    have u: "user_name n" using un wf n by (auto simp: wf_env_def map_le_iff)
    show ?thesis
    proof (cases "map_of (zip ?ns ?rs) n")
      case None
      then have "map_of gl n = Some r" using n by (simp add: entry_typ_def map_add_def del: map_of_zip_is_None)
      from map_of_SomeD [OF this] have "\<exists>v. \<rho> n = Some v \<and> has r v \<and> \<gamma> n = Some (emb v)" using sh by (auto simp: shadows_def list_all_iff)
      then show ?thesis using u a(2) [OF None] by (auto simp: look params_frame_def py_entry_def map_add_def simp del: glook.simps)
    next
      case (Some r')
      then have "r' = r" using n by (simp add: entry_typ_def map_add_def)
      then show ?thesis using u a(1) [OF Some] by (auto simp: look params_frame_def py_entry_def map_add_def simp del: glook.simps)
    qed
  qed
  moreover have "user_name n \<and> (\<exists>v. has r v \<and> glook [p, \<gamma>] n = Some (emb v))" if n: "entry_decl gl f n = Some r" for n r
  proof (cases "map_of (zip ?ns ?rs) n")
    case None
    then have "global_typ gl f n = Some r" using n by (simp add: entry_decl_def map_add_def del: map_of_zip_is_None)
    then obtain v where "has r v" "\<gamma> n = Some (emb v)" using fr unfolding frame_typ_def by blast
    then show ?thesis using un [OF n] a(2) [OF None] by (auto simp: look params_frame_def simp del: glook.simps)
  next
    case (Some r')
    then have "r' = r" using n by (simp add: entry_decl_def map_add_def)
    then show ?thesis using un [OF n] a(1) [OF Some] by (auto simp: look params_frame_def simp del: glook.simps)
  qed
  ultimately show ?thesis by (simp only: vals_def vars_ok_def) blast
qed

lemma frame_none:
  assumes "func_typ S gl f" and "frame_typ gl f \<gamma>" and "\<not> user_name n"
  shows "\<gamma> n = None"
proof (rule ccontr)
  assume "\<gamma> n \<noteq> None"
  then have "entry_decl gl f n \<noteq> None" using assms(2) unfolding frame_typ_def entry_decl_def map_add_None by blast
  then show False using func_wf [OF assms(1)] assms(3) by (auto simp: wf_env_def)
qed

lemma params_user: "func_typ S gl f \<Longrightarrow> list_all user_name (map ep_Name (ef_Params f))"
  by (auto simp: func_typ_def Let_def list_all_iff)

lemma entry_none:
  assumes "func_typ S gl f" and "entry_frame f vs p" and "gen_like n \<or> n \<in> set reserved" and "\<not> (\<exists>i. n = deoptParam i)"
  shows "p n = None"
proof -
  have "params_frame f vs n = None"
    unfolding params_frame_def using params_user [OF assms(1)] assms(3) by (intro zip_none) (auto simp: list_all_iff user_name_def)
  then show ?thesis using assms(2) snap_reserved [OF assms(3,4) params_user [OF assms(1)]] by (auto simp: entry_frame_def)
qed

lemma entry_only:
  assumes t: "func_typ S gl f" and fr: "frame_typ gl f \<gamma>" and p: "entry_frame f vs p"
  shows "only (entry_decl gl f) [p, \<gamma>]"
  unfolding only_def
proof (intro allI impI)
  fix n assume u: "user_name n" and g: "glook [p, \<gamma>] n \<noteq> None"
  show "entry_decl gl f n \<noteq> None"
  proof (cases "params_frame f vs n")
    case None
    then have "\<gamma> n \<noteq> None" using g entry_user [OF p u] by (auto split: option.splits)
    then show ?thesis using fr unfolding frame_typ_def entry_decl_def map_add_None by blast
  next
    case (Some v)
    then have "n \<in> set (map ep_Name (ef_Params f))" by (auto simp: params_frame_def dest!: map_of_SomeD set_zip_leftD)
    then have "map_of (zip (map ep_Name (ef_Params f)) (map ep_Repr (ef_Params f))) n \<noteq> None" by simp
    then show ?thesis unfolding entry_decl_def map_add_None by blast
  qed
qed

lemma names_not_deopt: "later b n \<or> n \<in> set reserved \<Longrightarrow> \<not> (\<exists>i. n = deoptParam i)"
  using reserved_not_gen [of n] gen_like_names(4) by auto

lemma entry_clean:
  assumes t: "func_typ S gl f" and fr: "frame_typ gl f \<gamma>" and p: "entry_frame f vs p" and S: "\<And>g sg. S g = Some sg \<Longrightarrow> user_name g"
  shows "clean S b [p, \<gamma>]"
proof -
  have "p n = None" if "later b n \<or> n \<in> set reserved" for n
    using that by (intro entry_none [OF t p _ names_not_deopt [of b]]) (auto dest: later_gen_like)
  moreover have "\<gamma> n = None" if "n \<in> set reserved" for n
    using that by (intro frame_none [OF t fr]) (simp add: user_name_def)
  moreover have "user_name g \<and> glook [p, \<gamma>] g = None" if "S g \<noteq> None" for g
    using that S only_glook [OF entry_only [OF t fr p] wf_names(2) [OF func_wf [OF t] that]] by auto
  ultimately show ?thesis unfolding clean_def fresh_def by simp
qed

section \<open>The snapshot and the version guards\<close>

lemma declare_fresh:
  assumes "length ns = length gs" and "distinct ns" and "\<forall>n\<in>set ns. f n = None \<and> n \<noteq> ''_''" and "\<forall>g\<in>set gs. defaulted g = Some g"
  shows "fold_opt (declare_one F) (zip ns gs) (f # fs) = Some ((f ++ map_of (zip ns gs)) # fs)"
  using assms
proof (induction ns gs arbitrary: f rule: list_induct2)
  case (Cons n ns g gs)
  have "declare_one F (n, g) (f # fs) = Some (f(n \<mapsto> g) # fs)" using Cons.prems by (simp add: declare_one_def)
  moreover have "fold_opt (declare_one F) (zip ns gs) (f(n \<mapsto> g) # fs) = Some ((f(n \<mapsto> g) ++ map_of (zip ns gs)) # fs)"
    using Cons.prems by (intro Cons.IH) auto
  moreover have n: "n \<notin> set ns" using Cons.prems by simp
  ultimately show ?case unfolding add_zip_Cons [OF n] by simp
qed simp

lemma snapshot_run:
  assumes t: "func_typ S gl f" and fr: "frame_typ gl f \<gamma>" and len: "length vs = length (ef_Params f)" and ne: "ef_Params f \<noteq> []"
  shows "go_stmt F G n (snapshot f) [params_frame f vs, \<gamma>] = GNext [snap_frame f vs, \<gamma>]"
proof -
  let ?\<sigma> = "[params_frame f vs, \<gamma>]" and ?ds = "map deoptParam [0..<length (ef_Params f)]" and ?ns = "map ep_Name (ef_Params f)"
  have d: "distinct ?ns" using t by (simp add: func_typ_def Let_def)
  have "map (glook ?\<sigma>) ?ns = map Some (map emb vs)"
  proof (intro nth_equalityI)
    fix i assume "i < length (map (glook ?\<sigma>) ?ns)"
    then show "map (glook ?\<sigma>) ?ns ! i = map Some (map emb vs) ! i"
      using d len map_of_zip_nth [of ?ns "map emb vs" i] by (simp add: params_frame_def)
  qed (use len in simp)
  then have "map (go_eval F ?\<sigma>) (map (GIdent \<circ> ep_Name) (ef_Params f)) = map Some (map emb vs)"
    by (auto simp: list_eq_iff_nth_eq simp del: glook.simps)
  moreover have "those (map (Some \<circ> emb) xs) = Some (map emb xs)" for xs by (induction xs) simp_all
  ultimately have ev: "eval_rhs F G ?\<sigma> (length ?ds) (map (GIdent \<circ> ep_Name) (ef_Params f)) = Some (map emb vs)"
    by (simp add: eval_rhs_def)
  have none: "params_frame f vs n = None" if "n \<in> set ?ds" for n
  proof -
    have "\<not> user_name n" using that deoptParam_not_user by (auto simp del: upt_Suc)
    then show ?thesis unfolding params_frame_def using params_user [OF t] by (intro zip_none) (auto simp: list_all_iff)
  qed
  have "list_ex (\<lambda>n. n \<noteq> ''_'' \<and> hd ?\<sigma> n = None) ?ds" using none ne by (cases "ef_Params f") (auto simp: list_ex_iff upt_conv_Cons simp del: upt_Suc)
  moreover have "distinct ?ds" by (simp add: distinct_map inj_on_def)
  ultimately have "go_declare F ?ds (map emb vs) ?\<sigma> = Some [snap_frame f vs, \<gamma>]"
    using declare_fresh [of ?ds "map emb vs" "params_frame f vs" F "[\<gamma>]"] none len by (simp add: go_declare_def snap_frame_def)
  moreover have "those (map (ident_of \<circ> GIdent \<circ> deoptParam) xs) = Some (map deoptParam xs)" for xs by (induction xs) simp_all
  ultimately show ?thesis using ev by (simp add: snapshot_def go_assign_def next_or_stuck_def comp_def)
qed

lemma guards_adv: "binding_guards gs b = (ss, b') \<Longrightarrow> adv b b'"
proof (induction gs arbitrary: b ss)
  case (Cons g gs)
  then show ?case using adv_trans [OF deoptEdge_adv(1)] by (auto simp: Let_def split: prod.splits)
qed simp

lemma guards_run:
  assumes "binding_guards gs b = (ss, b')" and "handoff h vs b' \<sigma>" and "\<sigma> \<noteq> []" and "\<forall>g\<in>set gs. \<exists>w. glook \<sigma> (VerVar g) = Some (VInt w)"
  shows "go_block F G n ss \<sigma> = (if list_all (\<lambda>g. glook \<sigma> (VerVar g) = Some (VInt (bg_Version g))) gs then GNext \<sigma> else GTail h vs)"
  using assms
proof (induction gs arbitrary: b ss)
  case (Cons g gs)
  let ?c = "GBinary T_NEQ (GIdent (VerVar g)) (GIntLit (bg_Version g))"
  obtain ss' where ss: "binding_guards gs (snd (deoptEdge b)) = (ss', b')" "ss = ifStmt ?c [fst (deoptEdge b)] # ss'"
    using Cons.prems(1) by (auto simp: Let_def split: prod.splits)
  have hd: "handoff h vs (snd (deoptEdge b)) \<sigma>" by (rule handoff_adv [OF Cons.prems(2) guards_adv [OF ss(1)]])
  obtain w where w: "glook \<sigma> (VerVar g) = Some (VInt w)" using Cons.prems(4) by auto
  then have "go_eval F \<sigma> ?c = Some (VBool (w \<noteq> bg_Version g))" by (simp add: go_bin_def int_bin_def)
  then have "go_stmt F G n (ifStmt ?c [fst (deoptEdge b)]) \<sigma> = (if w \<noteq> bg_Version g then GTail h vs else GNext \<sigma>)"
    using Cons.prems(3) by (intro go_edge(2) [OF hd, of b]) simp_all
  then show ?case using Cons.IH [OF ss(1) Cons.prems(2,3)] Cons.prems(4) w by (simp add: ss(2))
qed simp

lemma guards_used:
  assumes "binding_guards gs b = (ss, b')" and "gs \<noteq> []" and "b_deopt b \<noteq> []"
  shows "deoptUsed b'"
proof (cases gs)
  case (Cons g gs')
  then obtain ss' where "binding_guards gs' (snd (deoptEdge b)) = (ss', b')" using assms(1) by (auto simp: Let_def split: prod.splits)
  then show ?thesis using guards_adv assms(3) by (fastforce simp: adv_def deoptEdge_def)
qed (use assms(2) in simp)

section \<open>No jump leaves a function\<close>

lemma while_no_jump: "while_loop k c F body \<rho> \<noteq> PBreak \<rho>'" "while_loop k c F body \<rho> \<noteq> PCont \<rho>'"
  by (induction k arbitrary: \<rho>) (auto simp: with_val_def split: pres.splits pout.splits)

lemma count_no_jump: "count_rounds k v i e down body \<rho> \<noteq> PBreak \<rho>'" "count_rounds k v i e down body \<rho> \<noteq> PCont \<rho>'"
  by (induction k arbitrary: \<rho> i) (auto split: pout.splits)

definition stays :: "pout \<Rightarrow> bool" where
  "stays p \<longleftrightarrow> (\<forall>\<rho>. p \<noteq> PBreak \<rho> \<and> p \<noteq> PCont \<rho>)"

lemma block_stays:
  assumes "\<And>s \<Gamma> D st \<rho>. s \<in> set ss \<Longrightarrow> stmt_typ S h rt False s (\<Gamma>, D) = Some st \<Longrightarrow> stays (pexec F pc n s \<rho>)"
    and "block_typ S h rt False ss (\<Gamma>, D) = Some st"
  shows "stays (pblock F pc n ss \<rho>)"
  using assms
proof (induction ss arbitrary: \<Gamma> D \<rho>)
  case (Cons s ss)
  obtain \<Gamma>1 D1 where t: "stmt_typ S h rt False s (\<Gamma>, D) = Some (\<Gamma>1, D1)" "block_typ S h rt False ss (\<Gamma>1, D1) = Some st"
    using Cons.prems(2) by (cases "stmt_typ S h rt False s (\<Gamma>, D)") auto
  have "stays (pexec F pc n s \<rho>)" by (rule Cons.prems(1) [OF _ t(1)]) simp
  moreover have "stays (pblock F pc n ss \<rho>1)" for \<rho>1 by (rule Cons.IH [OF Cons.prems(1) [OF list.set_intros(2)] t(2)])
  ultimately show ?case by (cases "pexec F pc n s \<rho>") (simp_all add: stays_def)
qed (simp add: stays_def)

lemma stmt_stays: "stmt_typ S h rt False s (\<Gamma>, D) = Some st \<Longrightarrow> stays (pexec F pc n s \<rho>)"
proof (induction s arbitrary: \<Gamma> D st \<rho>)
  case (EIf c th el)
  obtain \<Gamma>' D' where "stmt_typ S h rt False (EIf c th el) (\<Gamma>, D) = Some (\<Gamma>', D')" using EIf.prems by (cases st) blast
  then obtain r \<Gamma>t Dt \<Gamma>e De where "block_typ S h rt False th (\<Gamma>, D) = Some (\<Gamma>t, Dt)" "block_typ S h rt False el (\<Gamma>, D) = Some (\<Gamma>e, De)"
    by (rule EIf_typE)
  from block_stays [OF EIf.IH(1) this(1)] block_stays [OF EIf.IH(2) this(2)] show ?case
    by (auto simp: with_val_def stays_def split: pres.splits)
next
  case (EForCount v i e down body res)
  show ?case using count_no_jump by (auto simp: with_val_def stays_def split: pres.splits pval.splits)
qed (use while_no_jump in \<open>auto simp: with_val_def with_vals_def stays_def split: pres.splits\<close>)

section \<open>The emitted function refines the Python function\<close>

text \<open>Whether the lowering placed a failure edge, which is what keeps a form off the direct-call path.\<close>

definition guarded :: "efunc \<Rightarrow> bool" where
  "guarded f =
     (case lowerBlock (ef_Body f) (new_builder f) of
        Some (_, b) \<Rightarrow> deoptUsed (snd (binding_guards (BindingGuards f) b))
      | None \<Rightarrow> True)"

text \<open>How the emitted function answers the Python function: with a hand-off of the arguments it was called with, or
  with the same value, the same exception on the error channel, or the same exhaustion of the iteration bound.\<close>

definition answers :: "efunc \<Rightarrow> pval list \<Rightarrow> gout \<Rightarrow> pout \<Rightarrow> bool" where
  "answers f vs out p \<longleftrightarrow>
     guarded f \<and> out = GTail (DeoptHandler f) (map emb vs) \<or>
     (case p of
        PRet v \<Rightarrow> has (ef_Ret f) v \<and> out = GRet [emb v, VNil]
      | PExc c m \<Rightarrow> \<exists>z. zero_type (goType (ef_Ret f)) = Some z \<and> out = GRet [z, VErr c m]
      | PFuel \<Rightarrow> out = GFuel
      | _ \<Rightarrow> False)"

lemma zero_conv:
  assumes "r \<in> set value_reprs"
  obtains z where "conv_type F (goType r) (zero_val r) = Some z" "zero_type (goType r) = Some z" "defaulted z = Some z"
  using assms
proof (cases rule: value_reprs_cases)
  case 1
  then show ?thesis using that by (auto simp: scalar_reprs_iff zero_val_def in64_def)
next
  case (2 el)
  then show ?thesis using that by (simp add: zero_val_def)
qed

lemma go_params:
  assumes "length gs = length vs" and "list_all2 (\<lambda>(r, g) v. conv_type F (goType r) g = Some (emb v)) (zip (map ep_Repr ps) gs) vs" and "length vs = length ps"
  shows "those (map (\<lambda>(p, v). conv_type F (snd p) v) (zip (map (\<lambda>p. (ep_Name p, goType (ep_Repr p))) ps) gs)) = Some (map emb vs)"
  using assms(3,1,2)
proof (induction vs ps arbitrary: gs rule: list_induct2)
  case (Cons v vs p ps)
  then obtain g gs' where "gs = g # gs'" by (cases gs) auto
  then show ?case using Cons by simp
qed simp

lemma handoff_entry:
  assumes t: "func_typ S gl f" and fr: "frame_typ gl f \<gamma>" and p: "entry_frame f vs p" and b: "adv (new_builder f) b"
    and sn: "deoptUsed b \<Longrightarrow> ef_Params f \<noteq> [] \<Longrightarrow> p = snap_frame f vs" and len: "length vs = length (ef_Params f)"
  shows "handoff (DeoptHandler f) (map emb vs) b [p, \<gamma>]"
proof -
  have h: "DeoptHandler f \<noteq> []" "user_name (DeoptHandler f)" "ef_Ret f \<in> set value_reprs" using t by (simp_all add: func_typ_def Let_def)
  have "glook [p, \<gamma>] (DeoptHandler f) = None" by (rule only_glook [OF entry_only [OF t fr p] wf_names(1) [OF func_wf [OF t]] h(2)])
  moreover have "map (\<lambda>i. glook [p, \<gamma>] (deoptParam i)) [0..<length (b_params b)] = map Some (map emb vs)" if "deoptUsed b"
  proof (cases "ef_Params f = []")
    case True
    then show ?thesis using b len by (simp add: adv_def new_builder_def)
  next
    case False
    let ?ds = "map deoptParam [0..<length (ef_Params f)]"
    have "distinct ?ds" by (simp add: distinct_map inj_on_def)
    then have d: "snap_frame f vs (deoptParam i) = Some (emb (vs ! i))" if "i < length (ef_Params f)" for i
      using that len map_of_zip_nth [of ?ds "map emb vs" i] by (simp add: snap_frame_def map_add_def)
    have n: "length (b_params b) = length (ef_Params f)" using b by (simp add: adv_def new_builder_def)
    show ?thesis unfolding n sn [OF that False] by (intro nth_equalityI) (simp_all add: len d)
  qed
  ultimately show ?thesis using b h by (simp add: handoff_def adv_def new_builder_def)
qed

lemma version_look:
  assumes t: "func_typ S gl f" and fr: "frame_typ gl f \<gamma>" and p: "entry_frame f vs p" and g: "g \<in> set (BindingGuards f)"
  shows "glook [p, \<gamma>] (VerVar g) = \<gamma> (VerVar g)" and "\<exists>w. \<gamma> (VerVar g) = Some (VInt w)"
proof -
  have u: "user_name (VerVar g)" and np: "VerVar g \<notin> set (map ep_Name (ef_Params f))" and ng: "VerVar g \<notin> set (map fst gl)"
    using t g unfolding func_typ_def Let_def list_all_iff set_append set_map by blast+
  have "p (VerVar g) = None" using entry_user [OF p u] zip_none [OF np, of "map emb vs"] by (simp only: params_frame_def)
  then show "glook [p, \<gamma>] (VerVar g) = \<gamma> (VerVar g)" by (simp split: option.splits)
  have "g \<in> set bs \<Longrightarrow> map_of (map (\<lambda>g. (VerVar g, intRepr)) bs) (VerVar g) = Some intRepr" for bs by (induction bs) auto
  from this [OF g] have "global_typ gl f (VerVar g) = Some intRepr" by (simp add: global_typ_def map_add_def)
  then obtain v where "has intRepr v" "\<gamma> (VerVar g) = Some (emb v)" using fr unfolding frame_typ_def by blast
  then show "\<exists>w. \<gamma> (VerVar g) = Some (VInt w)" by (auto simp: has_scalar)
qed

lemma go_fun_run:
  assumes t: "func_typ S gl f" and fr: "frame_typ gl f \<gamma>" and vs: "length gs = length vs" "length vs = length (ef_Params f)"
      "list_all2 (\<lambda>(r, g) v. conv_type F (goType r) g = Some (emb v)) (zip (map ep_Repr (ef_Params f)) gs) vs"
    and low: "lowerBlock (ef_Body f) (new_builder f) = Some (xs, b1)" and ad: "adv (new_builder f) b1"
  obtains d p b2 where "EmitFunc f = Some d" "entry_frame f vs p" "adv b1 b2" "deoptUsed b2 \<longleftrightarrow> guarded f" "handoff (DeoptHandler f) (map emb vs) b2 [p, \<gamma>]"
    "\<not> current f \<gamma> \<longrightarrow> deoptUsed b2"
    "go_fun F G n [\<gamma>] d gs =
       (if current f \<gamma> then go_results F [goType (ef_Ret f), GIdent ''error''] (go_block F G n xs [p, \<gamma>]) else GTail (DeoptHandler f) (map emb vs))"
proof -
  obtain ss b2 where g: "binding_guards (BindingGuards f) b1 = (ss, b2)" by (cases "binding_guards (BindingGuards f) b1")
  let ?sn = "deoptUsed b2 \<and> ef_Params f \<noteq> []" and ?rt = "[goType (ef_Ret f), GIdent ''error'']"
  define p where "p = (if ?sn then snap_frame f vs else params_frame f vs)"
  let ?st = "(if ?sn then [snapshot f] else []) @ ss @ xs"
  let ?d = "\<lparr>gf_Func = ef_Name f, gf_Params = map (\<lambda>p. (ep_Name p, goType (ep_Repr p))) (ef_Params f), gf_Results = ?rt, gf_Stmts = ?st\<rparr>"
  have d: "EmitFunc f = Some ?d" by (simp add: EmitFunc_def low g Let_def)
  have p: "entry_frame f vs p" by (simp add: entry_frame_def p_def)
  have ad2: "adv b1 b2" by (rule guards_adv [OF g])
  have hd: "handoff (DeoptHandler f) (map emb vs) b2 [p, \<gamma>]"
    by (rule handoff_entry [OF t fr p adv_trans [OF ad ad2] _ vs(2)]) (simp add: p_def)
  have sn: "go_block F G n (if ?sn then [snapshot f] else []) [params_frame f vs, \<gamma>] = GNext [p, \<gamma>]"
    using snapshot_run [OF t fr vs(2), of F G n] by (simp add: p_def)
  have gd: "go_block F G n ss [p, \<gamma>] = (if current f \<gamma> then GNext [p, \<gamma>] else GTail (DeoptHandler f) (map emb vs))"
    using guards_run [OF g hd, of F G n] version_look [OF t fr p] by (simp add: current_def list_all_iff del: glook.simps)
  have st: "go_block F G n ?st [params_frame f vs, \<gamma>] = seq (if current f \<gamma> then GNext [p, \<gamma>] else GTail (DeoptHandler f) (map emb vs)) (go_block F G n xs)"
    unfolding map_append run_block_append sn seq.simps gd ..
  have "go_fun F G n [\<gamma>] ?d gs = go_results F ?rt (go_block F G n ?st [params_frame f vs, \<gamma>])"
    unfolding go_fun_def using go_params [OF vs(1,3,2)] vs by (simp add: params_frame_def comp_def)
  then have run: "go_fun F G n [\<gamma>] ?d gs =
      (if current f \<gamma> then go_results F ?rt (go_block F G n xs [p, \<gamma>]) else GTail (DeoptHandler f) (map emb vs))"
    unfolding st by (simp add: go_results_def)
  have "b_deopt b1 \<noteq> []" using ad t by (simp add: adv_def new_builder_def func_typ_def Let_def)
  then have used: "\<not> current f \<gamma> \<longrightarrow> deoptUsed b2" using guards_used [OF g] by (cases "BindingGuards f") (auto simp: current_def)
  have "deoptUsed b2 \<longleftrightarrow> guarded f" by (simp add: guarded_def low g)
  then show thesis using that [OF d p ad2 _ hd used run] by blast
qed

context static_calls
begin

theorem func_correct:
  assumes t: "func_typ S gl f" and fr: "frame_typ gl f \<gamma>" and vs: "list_all2 has (map ep_Repr (ef_Params f)) vs"
    and gs: "length gs = length vs" "list_all2 (\<lambda>(r, g) v. conv_type F (goType r) g = Some (emb v)) (zip (map ep_Repr (ef_Params f)) gs) vs"
  shows "\<exists>d. EmitFunc f = Some d \<and>
    (if current f \<gamma> then shadows gl \<gamma> \<rho> \<longrightarrow> answers f vs (go_fun F G n [\<gamma>] d gs) (py_fun F pc n \<rho> f vs)
     else guarded f \<and> go_fun F G n [\<gamma>] d gs = GTail (DeoptHandler f) (map emb vs))"
proof -
  let ?h = "DeoptHandler f" and ?b = "new_builder f"
  have w: "wf_env S ?h (entry_typ gl f) (entry_decl gl f)" by (rule func_wf [OF t])
  have ret: "b_ret ?b = ef_Ret f" "pre ?b = []" "ef_Ret f \<in> set value_reprs" and en: "list_ex ends (ef_Body f)"
    using t by (simp_all add: new_builder_def func_typ_def Let_def)
  obtain \<Gamma>' D' where bt: "block_typ S ?h (b_ret ?b) False (ef_Body f) (entry_typ gl f, entry_decl gl f) = Some (\<Gamma>', D')"
    using t ret(1) by (auto simp: func_typ_def Let_def)
  obtain xs b1 where low: "lowerBlock (ef_Body f) ?b = Some (xs, b1)" "adv ?b b1"
    and run: "runs n ?h (map emb vs) ?b b1 (entry_typ gl f) (entry_decl gl f) \<Gamma>' D' xs (pblock F pc n (ef_Body f))"
    by (rule block_correct [OF w bt ret(2)])
  have len: "length vs = length (ef_Params f)" using list_all2_lengthD [OF vs] by simp
  obtain d p b2 where d: "EmitFunc f = Some d" and p: "entry_frame f vs p" and ad: "adv b1 b2" and u: "deoptUsed b2 \<longleftrightarrow> guarded f"
    and hd: "handoff ?h (map emb vs) b2 [p, \<gamma>]" and used: "\<not> current f \<gamma> \<longrightarrow> deoptUsed b2"
    and go: "go_fun F G n [\<gamma>] d gs =
       (if current f \<gamma> then go_results F [goType (ef_Ret f), GIdent ''error''] (go_block F G n xs [p, \<gamma>]) else GTail ?h (map emb vs))"
    by (rule go_fun_run [OF t fr gs(1) len gs(2) low, where G = G and n = n])
  have "answers f vs (go_fun F G n [\<gamma>] d gs) (py_fun F pc n \<rho> f vs)" if c: "current f \<gamma>" and sh: "shadows gl \<gamma> \<rho>"
  proof -
    let ?out = "go_block F G n xs [p, \<gamma>]" and ?p = "pblock F pc n (ef_Body f) (py_entry \<rho> f vs)"
    have py: "py_fun F pc n \<rho> f vs = ?p" by (simp add: py_fun_def py_entry_def)
    have "clean S ?b [p, \<gamma>]" by (rule entry_clean [OF t fr p]) (use call_name in blast)
    from runs_outcome(1) [OF run entry_vals [OF t fr sh vs p] entry_only [OF t fr p] this handoff_adv [OF hd ad]]
    have o: "outcome F ?h (map emb vs) ?b b1 [p, \<gamma>] (entry_typ gl f) (entry_decl gl f) \<Gamma>' D' ?out ?p" .
    have stay: "stays ?p" by (rule block_stays [OF stmt_stays bt])
    have nx: "?p \<noteq> PNext \<rho>'" for \<rho>' by (rule block_ends [OF en])
    obtain z where z: "conv_type F (goType (ef_Ret f)) (zero_val (ef_Ret f)) = Some z" "zero_type (goType (ef_Ret f)) = Some z"
      by (rule zero_conv [OF ret(3)])
    have "deoptUsed b1 \<Longrightarrow> guarded f" using u ad by (auto simp: adv_def)
    then show ?thesis
      unfolding go py using c o stay nx z ret(1) by (cases ?p) (auto simp: outcome_def answers_def go_results_def stays_def)
  qed
  then show ?thesis using d go used u by auto
qed

end

section \<open>Linking\<close>

text \<open>A module of emitted forms, latest first: a form may call the forms after it in the list.\<close>

primrec loop_free :: "estmt \<Rightarrow> bool" where
  "loop_free (EDefine n v) = True"
| "loop_free (EAssign n v) = True"
| "loop_free (EAugAssign n o' r v) = True"
| "loop_free (EVarDecl n r) = True"
| "loop_free (EBind ns vs d) = True"
| "loop_free (EReturn v) = True"
| "loop_free (EDiscard v) = True"
| "loop_free (EIf c th el) = (list_all id (map loop_free th) \<and> list_all id (map loop_free el))"
| "loop_free (EWhile c body) = False"
| "loop_free (EForCount v i e down body res) = False"
| "loop_free EBreak = True"
| "loop_free EContinue = True"
| "loop_free (EForRange bnd idx over body) = False"
| "loop_free (EForGen bnd el gen body deopt) = False"

definition signature :: "efunc \<Rightarrow> repr list \<times> repr" where
  "signature f = (map ep_Repr (ef_Params f), ef_Ret f)"

primrec module_sigs :: "efunc list \<Rightarrow> sigs" where
  "module_sigs [] = Map.empty"
| "module_sigs (f # fs) = (module_sigs fs)(ef_Name f \<mapsto> signature f)"

definition call_result :: "pout \<Rightarrow> pval pres" where
  "call_result p = (case p of PRet v \<Rightarrow> POk v | PExc c m \<Rightarrow> PRaise c m | _ \<Rightarrow> PUndef)"

primrec module_py :: "fops \<Rightarrow> efunc list \<Rightarrow> pcalls" where
  "module_py F [] = (\<lambda>g vs. PUndef)"
| "module_py F (f # fs) =
     (\<lambda>g vs. if g = ef_Name f then call_result (py_fun F (module_py F fs) 0 Map.empty f vs) else module_py F fs g vs)"

definition go_result :: "gout \<Rightarrow> gval list option" where
  "go_result r = (case r of GRet vs \<Rightarrow> Some vs | _ \<Rightarrow> None)"

primrec module_go :: "fops \<Rightarrow> efunc list \<Rightarrow> gfuns" where
  "module_go F [] = (\<lambda>g gs. None)"
| "module_go F (f # fs) =
     (\<lambda>g gs. if g = ef_Name f
             then Option.bind (EmitFunc f) (\<lambda>d. go_result (go_fun F (module_go F fs) 0 [Map.empty] d gs))
             else module_go F fs g gs)"

text \<open>The forms other forms may call: typed, without loops, and lowered without a failure edge.\<close>

definition direct_ok :: "sigs \<Rightarrow> efunc \<Rightarrow> bool" where
  "direct_ok S f \<longleftrightarrow>
     func_typ S [] f \<and> BindingGuards f = [] \<and> \<not> guarded f \<and> list_all loop_free (ef_Body f) \<and>
     user_name (ef_Name f) \<and> CHR ''.'' \<notin> set (ef_Name f) \<and> S (ef_Name f) = None"

primrec linkable :: "efunc list \<Rightarrow> efunc list" where
  "linkable [] = []"
| "linkable (f # fs) = (if direct_ok (module_sigs (linkable fs)) f then f # linkable fs else linkable fs)"

lemma prun_fuel:
  assumes "\<And>s \<rho>. s \<in> set ss \<Longrightarrow> pexec F pc n s \<rho> \<noteq> PFuel"
  shows "pblock F pc n ss \<rho> \<noteq> PFuel"
  using assms
proof (induction ss arbitrary: \<rho>)
  case (Cons s ss)
  then show ?case by (cases "pexec F pc n s \<rho>") auto
qed simp

lemma loop_free_fuel: "loop_free s \<Longrightarrow> pexec F pc n s \<rho> \<noteq> PFuel"
proof (induction s arbitrary: \<rho>)
  case (EIf c th el)
  have "pblock F pc n th \<rho> \<noteq> PFuel" "pblock F pc n el \<rho> \<noteq> PFuel"
    using EIf by (auto intro!: prun_fuel simp: list_all_iff)
  then show ?case by (auto simp: with_val_def split: pres.splits)
qed (auto simp: with_val_def with_vals_def split: pres.splits)

context static_calls
begin

lemma direct_call:
  assumes d: "direct_ok S f" and vs: "list_all2 has (map ep_Repr (ef_Params f)) vs"
    and gs: "list_all2 (\<lambda>(r, g) v. conv_type F (goType r) g = Some (emb v)) (zip (map ep_Repr (ef_Params f)) gs) vs" "length gs = length vs"
  shows "case call_result (py_fun F pc 0 Map.empty f vs) of
      POk v \<Rightarrow> has (ef_Ret f) v \<and> Option.bind (EmitFunc f) (\<lambda>d. go_result (go_fun F G 0 [Map.empty] d gs)) = Some [emb v, VNil]
    | PRaise c m \<Rightarrow> \<exists>z. Option.bind (EmitFunc f) (\<lambda>d. go_result (go_fun F G 0 [Map.empty] d gs)) = Some [z, VErr c m] \<and> defaulted z = Some z
    | PUndef \<Rightarrow> False"
proof -
  have t: "func_typ S [] f" "\<not> guarded f" "BindingGuards f = []" "ef_Ret f \<in> set value_reprs" "list_all loop_free (ef_Body f)"
    using d by (auto simp: direct_ok_def func_typ_def Let_def)
  have fr: "frame_typ [] f Map.empty" using t(3) by (simp add: frame_typ_def global_typ_def)
  obtain D where D: "EmitFunc f = Some D" "answers f vs (go_fun F G 0 [Map.empty] D gs) (py_fun F pc 0 Map.empty f vs)"
    using func_correct [OF t(1) fr vs gs(2,1), of Map.empty 0] t(3) by (auto simp: current_def shadows_def)
  have "py_fun F pc 0 Map.empty f vs \<noteq> PFuel" unfolding py_fun_def
    using t(5) loop_free_fuel by (intro prun_fuel) (auto simp: list_all_iff)
  moreover obtain z where "zero_type (goType (ef_Ret f)) = Some z" "defaulted z = Some z" by (rule zero_conv [OF t(4)])
  ultimately show ?thesis
    using D t(2) by (cases "py_fun F pc 0 Map.empty f vs") (auto simp: answers_def call_result_def go_result_def)
qed

lemma static_extend:
  assumes d: "direct_ok S f"
  shows "static_calls F (\<lambda>g gs. if g = ef_Name f then Option.bind (EmitFunc f) (\<lambda>d. go_result (go_fun F G 0 [Map.empty] d gs)) else G g gs)
    (\<lambda>g vs. if g = ef_Name f then call_result (py_fun F pc 0 Map.empty f vs) else pc g vs) (S(ef_Name f \<mapsto> signature f))"
proof (unfold_locales, goal_cases)
  case (1 g sg)
  then show ?case using d call_name by (auto simp: direct_ok_def split: if_splits)
next
  case (2 g rs r vs gs)
  show ?case
  proof (cases "g = ef_Name f")
    case True
    then have sg: "rs = map ep_Repr (ef_Params f)" "r = ef_Ret f" using 2(1) by (auto simp: signature_def)
    show ?thesis unfolding sg True if_P [OF refl] by (rule direct_call [OF d 2(2-4) [unfolded sg]])
  next
    case False
    then show ?thesis using 2 call_ok [of g rs r vs gs] by simp
  qed
qed

end

lemma static_linkable: "static_calls F (module_go F (linkable fs)) (module_py F (linkable fs)) (module_sigs (linkable fs))"
proof (induction fs)
  case Nil
  show ?case by unfold_locales simp_all
next
  case (Cons f fs)
  show ?case
  proof (cases "direct_ok (module_sigs (linkable fs)) f")
    case True
    show ?thesis unfolding linkable.simps if_P [OF True] module_go.simps module_py.simps module_sigs.simps
      by (rule static_calls.static_extend [OF Cons.IH True])
  next
    case False
    then show ?thesis using Cons.IH by simp
  qed
qed

interpretation linked: static_calls F "module_go F (linkable fs)" "module_py F (linkable fs)" "module_sigs (linkable fs)"
  for F fs
  by (rule static_linkable)

section \<open>What the emitted code does\<close>

lemma args_emb:
  assumes "func_typ S gl f" and "list_all2 has (map ep_Repr (ef_Params f)) vs"
  shows "list_all2 (\<lambda>(r, g) v. conv_type F (goType r) g = Some (emb v)) (zip (map ep_Repr (ef_Params f)) (map emb vs)) vs"
proof -
  have "list_all param_repr (map ep_Repr (ef_Params f))" using assms(1) by (simp add: func_typ_def Let_def list_all_iff)
  with assms(2) show ?thesis by (induction rule: list_all2_induct) (simp_all add: conv_param)
qed

text \<open>A module with a form that another one calls, and the form that calls it.\<close>

definition mask_form :: efunc where
  "mask_form = \<lparr>ef_Name = ''mask'', ef_Params = [\<lparr>ep_Name = ''x'', ep_Repr = intRepr\<rparr>], ef_Ret = intRepr,
     ef_Body = [EReturn (EBin OpMod (EBin OpBitAnd (EVar ''x'' intRepr) (EInt 255)) (EInt 7))], DeoptHandler = ''mask_deopt'', BindingGuards = []\<rparr>"

definition scale_form :: efunc where
  "scale_form = \<lparr>ef_Name = ''scale'', ef_Params = [\<lparr>ep_Name = ''a'', ep_Repr = intRepr\<rparr>, \<lparr>ep_Name = ''b'', ep_Repr = intRepr\<rparr>], ef_Ret = intRepr,
     ef_Body =
       [EIf (ECmp ECmpGt (EVar ''a'' intRepr) (EVar ''b'' intRepr)) [EAugAssign ''a'' OpSub intRepr (EVar ''b'' intRepr)] [],
        EForCount ''i'' (EInt 0) (EVar ''b'' intRepr) False
          [EAssign ''a'' (EBin OpAdd (EVar ''a'' intRepr) (ECall ''mask'' [EVar ''i'' intRepr] intRepr))] None,
        EReturn (EBin OpMul (EVar ''a'' intRepr) (EVar ''b'' intRepr))],
     DeoptHandler = ''scale_deopt'', BindingGuards = []\<rparr>"

lemma demo_typed: "func_typ (module_sigs (linkable [mask_form])) [] scale_form"
  by code_simp

lemma demo_direct: "direct_ok (module_sigs (linkable [])) mask_form"
  by code_simp

lemma demo_guarded: "guarded scale_form"
  by code_simp

definition rate_form :: efunc where
  "rate_form = \<lparr>ef_Name = ''rate'', ef_Params = [\<lparr>ep_Name = ''x'', ep_Repr = floatRepr\<rparr>], ef_Ret = floatRepr,
     ef_Body = [EReturn (EBin OpMul (EVar ''x'' floatRepr) (EVar ''RATE'' floatRepr))], DeoptHandler = ''rate_deopt'',
     BindingGuards = [\<lparr>VerVar = ''RATE_ver'', bg_Version = 1\<rparr>]\<rparr>"

lemma rate_typed: "func_typ (module_sigs (linkable [])) [(''RATE'', floatRepr)] rate_form"
  by code_simp

definition sum_expr :: eexpr where
  "sum_expr = EBin OpFloorDiv (EBin OpAdd (EVar ''a'' intRepr) (EBool True)) (EIndex (EVar ''xs'' (listRepr intRepr)) (EVar ''a'' intRepr))"

definition index_form :: efunc where
  "index_form = \<lparr>ef_Name = ''f'', ef_Params = [\<lparr>ep_Name = ''a'', ep_Repr = intRepr\<rparr>, \<lparr>ep_Name = ''xs'', ep_Repr = listRepr intRepr\<rparr>], ef_Ret = intRepr,
     ef_Body = [EReturn sum_expr], DeoptHandler = ''f_deopt'', BindingGuards = []\<rparr>"

definition index_args :: "pval list" where
  "index_args = [PInt 1, PList [PInt 4, PInt 6]]"

lemma index_typed: "func_typ (module_sigs (linkable [])) [] index_form"
  by code_simp

text \<open>C1: for the functions \<open>func_typ\<close> types, the function \<^verbatim>\<open>EmitFunc\<close> emits refines the Python function. These are the
  functions over scalars, lists of scalars and fixed-shape parameters, with direct calls, conditionals, \<open>while\<close> loops and
  counting loops, that have: no loop over a list or a generator and no resume frame; no check and no call in a \<open>while\<close>
  condition, and none that raises or calls to the right of \<open>and\<close> or \<open>or\<close>; no true division of two ints, no arithmetic on
  two float literals, no bitwise operator on two bools, no comparison of an int with a float and no literal list index;
  every counting bound a literal or a name the body leaves alone; and no name spelled like a temporary of the emitter or a
  Go name it relies on. Given arguments of the declared representations, a frame of package variables of the declared
  representations (\<open>frame_typ\<close>) that holds the Python globals (\<open>shadows\<close>), and current version counters, lowering
  succeeds, and the emitted Go function, linked with the forms it calls directly, returns the value the Python function
  returns, or its exception on the error channel, or uses up the same bound on iterations, or hands off to the deopt
  handler with exactly the arguments it was called with, whatever the body has since done to its parameters; it never
  gets stuck.\<close>

theorem EmitFunc_refines:
  assumes "func_typ (module_sigs (linkable fs)) gl f" and "list_all2 has (map ep_Repr (ef_Params f)) vs"
    and "frame_typ gl f \<gamma>" and "current f \<gamma>" and "shadows gl \<gamma> \<rho>"
  shows "\<exists>d. EmitFunc f = Some d \<and>
    answers f vs (go_fun F (module_go F (linkable fs)) n [\<gamma>] d (map emb vs)) (py_fun F (module_py F (linkable fs)) n \<rho> f vs)"
  using linked.func_correct [OF assms(1,3,2) _ args_emb [OF assms(1,2)], where \<rho> = \<rho> and F = F and n = n] assms(4,5) by simp

theorem EmitFunc_refines_witness:
  "\<forall>F. func_typ (module_sigs (linkable [mask_form])) [] scale_form \<and>
    (\<exists>d. EmitFunc scale_form = Some d \<and>
      answers scale_form [PInt 3, PInt 5] (go_fun F (module_go F (linkable [mask_form])) 9 [Map.empty] d (map emb [PInt 3, PInt 5]))
        (py_fun F (module_py F (linkable [mask_form])) 9 Map.empty scale_form [PInt 3, PInt 5]))"
proof
  fix F
  have "list_all2 has (map ep_Repr (ef_Params scale_form)) [PInt 3, PInt 5]" by (simp add: scale_form_def has_scalar in64_def)
  moreover have "frame_typ [] scale_form Map.empty" "current scale_form Map.empty" "shadows [] Map.empty Map.empty"
    by (simp_all add: frame_typ_def global_typ_def current_def shadows_def scale_form_def)
  ultimately show "func_typ (module_sigs (linkable [mask_form])) [] scale_form \<and>
    (\<exists>d. EmitFunc scale_form = Some d \<and>
      answers scale_form [PInt 3, PInt 5] (go_fun F (module_go F (linkable [mask_form])) 9 [Map.empty] d (map emb [PInt 3, PInt 5]))
        (py_fun F (module_py F (linkable [mask_form])) 9 Map.empty scale_form [PInt 3, PInt 5]))"
    using EmitFunc_refines [OF demo_typed] demo_typed by blast
qed

text \<open>C5: a form a direct call may target (\<open>direct_ok\<close>: typed by \<open>func_typ\<close>, without loops, binding guards and references to
  package variables, lowered without a failure edge, and with a name that is neither qualified nor spelled like a
  temporary nor taken by another form) never hands off: for arguments of the declared representations the emitted function
  returns exactly what the Python function returns, a value of the declared representation with a nil error, or its
  exception with the zero value.\<close>

theorem EmitFunc_direct:
  assumes "direct_ok (module_sigs (linkable fs)) f" and "list_all2 has (map ep_Repr (ef_Params f)) vs"
  shows "\<exists>d. EmitFunc f = Some d \<and>
    (let out = go_fun F (module_go F (linkable fs)) 0 [Map.empty] d (map emb vs) in
     case py_fun F (module_py F (linkable fs)) 0 Map.empty f vs of
       PRet v \<Rightarrow> has (ef_Ret f) v \<and> out = GRet [emb v, VNil]
     | PExc c m \<Rightarrow> \<exists>z. zero_type (goType (ef_Ret f)) = Some z \<and> out = GRet [z, VErr c m]
     | _ \<Rightarrow> False)"
proof -
  have t: "func_typ (module_sigs (linkable fs)) [] f" "\<not> guarded f" "BindingGuards f = []" "list_all loop_free (ef_Body f)"
    using assms(1) by (simp_all add: direct_ok_def)
  have fr: "frame_typ [] f Map.empty" and c: "current f Map.empty" using t(3) by (simp_all add: frame_typ_def global_typ_def current_def)
  obtain d where "EmitFunc f = Some d"
    "answers f vs (go_fun F (module_go F (linkable fs)) 0 [Map.empty] d (map emb vs)) (py_fun F (module_py F (linkable fs)) 0 Map.empty f vs)"
    using linked.func_correct [OF t(1) fr assms(2) _ args_emb [OF t(1) assms(2)], where \<rho> = Map.empty and F = F and n = 0] c by (auto simp: shadows_def)
  moreover have "py_fun F (module_py F (linkable fs)) 0 Map.empty f vs \<noteq> PFuel"
    unfolding py_fun_def using t(4) loop_free_fuel by (intro prun_fuel) (auto simp: list_all_iff)
  ultimately show ?thesis using t(2)
    by (cases "py_fun F (module_py F (linkable fs)) 0 Map.empty f vs") (auto simp: answers_def)
qed

theorem EmitFunc_direct_witness:
  "\<forall>F. direct_ok (module_sigs (linkable [])) mask_form \<and> (\<exists>d. EmitFunc mask_form = Some d \<and>
    (let out = go_fun F (module_go F (linkable [])) 0 [Map.empty] d (map emb [PInt (- 3)]) in
     case py_fun F (module_py F (linkable [])) 0 Map.empty mask_form [PInt (- 3)] of
       PRet v \<Rightarrow> has (ef_Ret mask_form) v \<and> out = GRet [emb v, VNil]
     | PExc c m \<Rightarrow> \<exists>z. zero_type (goType (ef_Ret mask_form)) = Some z \<and> out = GRet [z, VErr c m]
     | _ \<Rightarrow> False))"
proof (intro allI conjI)
  have "list_all2 has (map ep_Repr (ef_Params mask_form)) [PInt (- 3)]" by (simp add: mask_form_def has_scalar in64_def)
  from EmitFunc_direct [OF demo_direct this]
  show "\<exists>d. EmitFunc mask_form = Some d \<and>
    (let out = go_fun F (module_go F (linkable [])) 0 [Map.empty] d (map emb [PInt (- 3)]) in
     case py_fun F (module_py F (linkable [])) 0 Map.empty mask_form [PInt (- 3)] of
       PRet v \<Rightarrow> has (ef_Ret mask_form) v \<and> out = GRet [emb v, VNil]
     | PExc c m \<Rightarrow> \<exists>z. zero_type (goType (ef_Ret mask_form)) = Some z \<and> out = GRet [z, VErr c m]
     | _ \<Rightarrow> False)" for F .
qed (rule demo_direct)

text \<open>C6: a stale version counter is caught before anything else runs: if one of the counters a form was specialised
  against has moved, the emitted function hands off with the arguments it was called with, whatever the body is.\<close>

theorem EmitFunc_stale:
  assumes "func_typ (module_sigs (linkable fs)) gl f" and "list_all2 has (map ep_Repr (ef_Params f)) vs"
    and "frame_typ gl f \<gamma>" and "\<not> current f \<gamma>"
  shows "\<exists>d. EmitFunc f = Some d \<and> go_fun F (module_go F (linkable fs)) n [\<gamma>] d (map emb vs) = GTail (DeoptHandler f) (map emb vs)"
  using linked.func_correct [OF assms(1,3,2) _ args_emb [OF assms(1,2)], where \<rho> = Map.empty and F = F and n = n] assms(4) by auto

theorem EmitFunc_stale_witness:
  "\<forall>F. \<exists>d. EmitFunc rate_form = Some d \<and>
    go_fun F (module_go F (linkable [])) 0 [[''RATE'' \<mapsto> VFloat 7, ''RATE_ver'' \<mapsto> VInt 2]] d (map emb [PFloat 5]) = GTail ''rate_deopt'' (map emb [PFloat 5])"
proof
  fix F
  let ?\<gamma> = "[''RATE'' \<mapsto> VFloat 7, ''RATE_ver'' \<mapsto> VInt 2]"
  have a: "list_all2 has (map ep_Repr (ef_Params rate_form)) [PFloat 5]" by (simp add: rate_form_def has_scalar)
  have "has floatRepr (PFloat 7)" "has intRepr (PInt 2)" by (simp_all add: has_scalar in64_def)
  moreover have "VFloat 7 = emb (PFloat 7)" "VInt 2 = emb (PInt 2)" by simp_all
  ultimately have f: "frame_typ [(''RATE'', floatRepr)] rate_form ?\<gamma>" unfolding frame_typ_def global_typ_def rate_form_def
    by (auto simp: map_add_def simp del: emb.simps)
  have c: "\<not> current rate_form ?\<gamma>" by (simp add: current_def rate_form_def)
  have "DeoptHandler rate_form = ''rate_deopt''" by (simp add: rate_form_def)
  then show "\<exists>d. EmitFunc rate_form = Some d \<and> go_fun F (module_go F (linkable [])) 0 [?\<gamma>] d (map emb [PFloat 5]) = GTail ''rate_deopt'' (map emb [PFloat 5])"
    using EmitFunc_stale [OF rate_typed a f c, of F 0] by simp
qed

text \<open>C7: expressions are lowered in a type-preserving way. Every typed expression lowers, to a Go expression that the
  builder gives the same representation; and in an environment that holds typed values, the statements emitted ahead of
  it never get stuck on a Go type error or a panic: they run through and leave the expression with a Go value that
  converts to its Go type, or return the zero value with an exception, or hand off.\<close>

theorem lowerExpr_typed:
  assumes "typ_of (module_sigs (linkable fs)) \<Gamma> e = Some r"
  shows "\<exists>x b'. lowerExpr e b = Some ((x, r), b') \<and> grow b b' \<and>
    (\<forall>\<rho> \<sigma>. clean (module_sigs (linkable fs)) b \<sigma> \<and> vars_ok \<Gamma> \<rho> \<sigma> \<and> handoff h vs b' \<sigma> \<longrightarrow>
      (let out = go_block F (module_go F (linkable fs)) n (added b b') \<sigma> in
       (\<exists>\<sigma>' v. out = GNext \<sigma>' \<and> has r v \<and> go_eval F \<sigma>' x = Some (embc (is_const e) v)) \<or>
       (\<exists>c m. out = GRet [zero_val (b_ret b), VErr c m]) \<or> out = GTail h vs))"
proof -
  obtain x b' where x: "\<And>\<rho>. linked.esim_at F fs n \<Gamma> \<rho> h vs e r b x b'" using linked.expr_low [OF assms, of F n h vs b] by blast
  have "(\<exists>\<sigma>' v. out = GNext \<sigma>' \<and> has r v \<and> go_eval F \<sigma>' x = Some (embc (is_const e) v)) \<or>
      (\<exists>c m. out = GRet [zero_val (b_ret b), VErr c m]) \<or> out = GTail h vs"
    if a: "clean (module_sigs (linkable fs)) b \<sigma>" "vars_ok \<Gamma> \<rho> \<sigma>" "handoff h vs b' \<sigma>"
      and out: "out = go_block F (module_go F (linkable fs)) n (added b b') \<sigma>" for \<rho> \<sigma> out
  proof -
    have "sim (GTail h vs) b b' \<sigma> (quiet e) (\<lambda>\<sigma>' v. has r v \<and> good F b' \<sigma>' x (embc (is_const e) v)) out (peval F (module_py F (linkable fs)) \<rho> e)"
      using x [of \<rho>] a out by (simp add: linked.esim_at_def)
    then show ?thesis by (cases "peval F (module_py F (linkable fs)) \<rho> e") (auto simp: sim_def good_eval ext_nonempty)
  qed
  note key = this [OF _ _ _ refl]
  have "lowerExpr e b = Some ((x, r), b')" "grow b b'" using x [of Map.empty] by (simp_all add: linked.esim_at_def)
  then show ?thesis unfolding Let_def using key by blast
qed

theorem lowerExpr_typed_witness:
  "\<forall>F. \<exists>x b' out. lowerExpr sum_expr (new_builder index_form) = Some ((x, intRepr), b') \<and> grow (new_builder index_form) b' \<and>
    out = go_block F (module_go F (linkable [])) 0 (added (new_builder index_form) b') [snap_frame index_form index_args, Map.empty] \<and>
    ((\<exists>\<sigma>' v. out = GNext \<sigma>' \<and> has intRepr v \<and> go_eval F \<sigma>' x = Some (embc (is_const sum_expr) v)) \<or>
     (\<exists>c m. out = GRet [zero_val (b_ret (new_builder index_form)), VErr c m]) \<or> out = GTail ''f_deopt'' (map emb index_args))"
proof
  fix F
  let ?S = "module_sigs (linkable [])" and ?b = "new_builder index_form" and ?\<sigma> = "[snap_frame index_form index_args, Map.empty]"
  have ty: "typ_of ?S (entry_typ [] index_form) sum_expr = Some intRepr" by code_simp
  have fr: "frame_typ [] index_form Map.empty" by (simp add: frame_typ_def global_typ_def index_form_def)
  have vs: "list_all2 has (map ep_Repr (ef_Params index_form)) index_args" by (simp add: index_form_def index_args_def has_scalar has_list in64_def)
  have p: "entry_frame index_form index_args (snap_frame index_form index_args)" by (simp add: entry_frame_def)
  have c: "clean ?S ?b ?\<sigma>" by (rule entry_clean [OF index_typed fr p]) simp
  have "shadows [] Map.empty Map.empty" by (simp add: shadows_def)
  then have v: "vars_ok (entry_typ [] index_form) (py_entry Map.empty index_form index_args) ?\<sigma>"
    using entry_vals [OF index_typed fr _ vs p] by (simp add: vals_def)
  have h: "handoff ''f_deopt'' (map emb index_args) b' ?\<sigma>" if "grow ?b b'" for b'
    using handoff_entry [OF index_typed fr p grow_adv [OF that]] by (simp add: index_form_def index_args_def)
  obtain x b' where x: "lowerExpr sum_expr ?b = Some ((x, intRepr), b')" "grow ?b b'"
    and all: "\<forall>\<rho> \<sigma>. clean ?S ?b \<sigma> \<and> vars_ok (entry_typ [] index_form) \<rho> \<sigma> \<and> handoff ''f_deopt'' (map emb index_args) b' \<sigma> \<longrightarrow>
      (let out = go_block F (module_go F (linkable [])) 0 (added ?b b') \<sigma> in
       (\<exists>\<sigma>' v. out = GNext \<sigma>' \<and> has intRepr v \<and> go_eval F \<sigma>' x = Some (embc (is_const sum_expr) v)) \<or>
       (\<exists>c m. out = GRet [zero_val (b_ret ?b), VErr c m]) \<or> out = GTail ''f_deopt'' (map emb index_args))"
    using lowerExpr_typed [OF ty, of ?b "''f_deopt''" "map emb index_args" F 0] by blast
  from all [rule_format, OF conjI [OF c conjI [OF v h [OF x(2)]]], unfolded Let_def] x
  show "\<exists>x b' out. lowerExpr sum_expr ?b = Some ((x, intRepr), b') \<and> grow ?b b' \<and>
    out = go_block F (module_go F (linkable [])) 0 (added ?b b') ?\<sigma> \<and>
    ((\<exists>\<sigma>' v. out = GNext \<sigma>' \<and> has intRepr v \<and> go_eval F \<sigma>' x = Some (embc (is_const sum_expr) v)) \<or>
     (\<exists>c m. out = GRet [zero_val (b_ret ?b), VErr c m]) \<or> out = GTail ''f_deopt'' (map emb index_args))"
    by blast
qed

end
