(* ===== verification/Spec2Isabelle.thy ===== *)
theory Spec2Isabelle
  imports Key_Identity Narrow Contagion Partitioner Ast Ir_Cost Emit_Link
begin

text \<open>
  Verification of the unagi compiler.

  unagi compiles Python to Go in two tiers. A function whose types the compiler can prove is emitted in the \<^emph>\<open>static
  tier\<close>, as Go code on \<open>int64\<close>, \<open>float64\<close>, \<open>bool\<close>, \<open>string\<close> and slices of them; everything else runs in the
  \<^emph>\<open>boxed tier\<close>, on an object runtime. A static function may meet a value it cannot represent, an overflow for instance; it
  then hands off (\<^emph>\<open>deopts\<close>) to its boxed twin. What makes the compiler correct is that the type lattice never claims too
  much, that the partitioner sends a unit to the static tier only when it may, and that the Go the static tier emits
  computes what Python computes or hands off.

  \<^bold>\<open>The parts of the program and the theories that model them\<close> (paths are relative to \<^verbatim>\<open>src/pkg\<close>).

  \<^item> Shared vocabulary: \<open>Prelude\<close> (Go strings, sorting, joining, option folds).
  \<^item> Type inference, \<^verbatim>\<open>types/\<close>. \<open>Lattice\<close> (\<^verbatim>\<open>lattice.go\<close>: \<open>Type\<close>, the canonical key, rendering), \<open>Interner\<close>
    (\<^verbatim>\<open>interner.go\<close>: the hash-consing table as a record, every constructor), \<open>Join\<close> and \<open>Meet\<close> (\<^verbatim>\<open>join.go\<close>),
    \<open>Evidence\<close> (\<^verbatim>\<open>evidence.go\<close>), \<open>Env\<close> (\<^verbatim>\<open>env.go\<close>), \<open>Narrow\<close> (\<^verbatim>\<open>narrow.go\<close>), \<open>Contagion\<close>
    (\<^verbatim>\<open>contagion.go\<close>). \<open>Semantics\<close> says what a type claims about a Python value, \<open>Type_Api\<close> is the interner as a
    state machine driven by its clients, \<open>Key_Identity\<close> the key as an encoding.
  \<^item> Partitioning, \<^verbatim>\<open>partition/\<close>. \<open>Rules\<close> (\<^verbatim>\<open>rule.go\<close>, \<^verbatim>\<open>state.go\<close>), \<open>Census\<close> (\<^verbatim>\<open>census.go\<close>), \<open>Guards\<close>
    (\<^verbatim>\<open>cost.go\<close>, \<^verbatim>\<open>guard.go\<close>), \<open>Deopt\<close> (\<^verbatim>\<open>deopt.go\<close>), \<open>Decision\<close> (\<^verbatim>\<open>decision.go\<close>), \<open>Partitioner\<close>
    (\<^verbatim>\<open>partition.go\<close>).
  \<^item> Syntax, \<^verbatim>\<open>frontend/ast.go\<close>: \<open>Ast\<close>.
  \<^item> The typed model between the bridge and the emitter: \<open>Emit_Model\<close> (the node types of \<^verbatim>\<open>emit/\<close>), \<open>Ir_Cost\<close>
    (\<^verbatim>\<open>ir/cost.go\<close>, \<^verbatim>\<open>ir/deopt.go\<close>).
  \<^item> The emitter, \<^verbatim>\<open>emit/\<close>: \<open>Emit_Lower\<close> (\<^verbatim>\<open>expr.go\<close>, \<^verbatim>\<open>cmp.go\<close>, \<^verbatim>\<open>call.go\<close>, \<^verbatim>\<open>stmt.go\<close>, \<^verbatim>\<open>func.go\<close>), the
    builder threaded as a state.
  \<^item> The runtime the emitted code calls, \<^verbatim>\<open>runtime/statictier.go\<close>: \<open>Static_Tier\<close>.

  \<^bold>\<open>Go and Python.\<close> \<open>Go_Lang\<close> is an executable semantics of the fragment of Go the emitter prints: block scopes and
  shadowing, untyped constants, multiple results, \<open>for\<close> loops with per-iteration variables. \<open>Py_Sem\<close> is what the typed
  model means in Python: unbounded ints, exceptions, one scope per function. The operations of IEEE arithmetic are a
  record of functions, a parameter of both.

  \<^bold>\<open>What the theorems show.\<close>

  \<^item> \<open>Static_Tier\<close>: every checked \<open>int64\<close> helper reports overflow exactly when Python's result leaves the range, and
    otherwise returns Python's result; floor division and modulo follow the divisor's sign; \<open>PowInt64\<close> terminates.
  \<^item> \<open>Interner\<close>, \<open>Type_Api\<close>, \<open>Key_Identity\<close>: in every state a client can reach, a type is in the table once and
    its key identifies it. \<open>Join\<close> is an upper bound; \<open>Meet\<close> keeps every value of both arguments on the \<open>separable\<close> pairs
    and lies within both arguments on the \<open>tight\<close> ones; both return on every pair of table types. The soundness theorems of
    the lattice, the environments and narrowing are for types without the exact-type bit (\<open>plain\<close>) and for class tables
    that are \<open>linear_ok\<close>: every tail of a recorded linearisation is the linearisation of the class it starts at, which
    holds under single inheritance. \<open>commonAncestor\<close> relies on it, and the findings show what goes wrong without.
  \<^item> \<open>Env\<close>, \<open>Narrow\<close>, \<open>Evidence\<close>, \<open>Contagion\<close>: assignments, calls, yields, merges and branch conditions keep flow
    environments sound; no annotation is reachable from a proof without crossing a guard; the poison set of an origin is what
    it reaches, and the named cause of a poisoned slot reaches it.
  \<^item> \<open>Rules\<close> to \<open>Partitioner\<close>: no fire site panics, facts only demote, guard planning keeps the first guard of each
    assumption and, short of overflow, never costs more, the verifier accepts exactly the well-formed deopt plans, and the
    verdict of every unit in every mode is characterised down to its reasons. Counts and scores are 64-bit words; the
    percentages of the budgets are read off them for counts below two to the fortieth and weights below two to the
    sixteenth, where no product wraps.
  \<^item> \<open>Emit_Correct\<close>, \<open>Emit_Exprs\<close>, \<open>Emit_Sim\<close> simulate expressions; \<open>Emit_Typing\<close>, \<open>Emit_Env\<close>, \<open>Emit_Stmts\<close>,
    \<open>Emit_Control\<close> statements, conditionals and loops; \<open>Emit_Link\<close> functions and modules of functions that call one
    another. An emitted function returns Python's value, or Python's exception on the error channel, or hands off with
    the arguments it was called with, and never gets stuck.

  The interfaces are locales: \<open>consing\<close> (what interning promises a client, interpreted on \<open>intern\<close>), \<open>join_order\<close>
  and \<open>meet_sem\<close> (what a reading of types as sets has to satisfy, interpreted on Python's values), and \<open>static_calls\<close>
  (what a direct call may rely on, interpreted on linked modules).

  \<^bold>\<open>Bounds and fuel.\<close> \<open>Join\<close> and \<open>Meet\<close> recurse on fuel; \<open>Join_total\<close> and \<open>Meet_total\<close> show that fuel above the depth,
  respectively the size, of the arguments always returns. A Python \<open>while\<close> may run forever, so the two semantics bound
  the number of iterations of a loop by the same number, and using it up is an outcome that must be reached by both or
  by neither; the theorems hold for every bound. The forms a direct call may target are loop-free here, run with the bound 0,
  and are shown never to use it up.

  \<^bold>\<open>The functions the emission theorems cover.\<close> \<open>func_typ\<close> types them: scalars, lists of scalars and parameters that are
  instances of fixed-shape classes; conditionals, \<open>while\<close> loops, counting loops; direct calls. It leaves out

  \<^item> forms on which the emitted code differs from Python or does not compile, each reported as a finding: \<open>&\<close>, \<open>|\<close> and \<open>^\<close> on
    two bools, true division of two ints, arithmetic on two float literals, comparing an int with a float, an
    \<open>and\<close>/\<open>or\<close> whose right operand can raise or calls (\<open>quiet\<close>), a \<open>while\<close> condition with a check or a call, an augmented
    assignment that changes the representation, a literal list index, and names spelled like the emitter's temporaries
    or like the Go names it relies on;
  \<^item> forms the bridge refuses to build: \<open>not\<close> on anything but a bool, ordering of bools, an augmented assignment other than
    \<open>+=\<close>, \<open>-=\<close>, \<open>*=\<close> to a float, infinite and negative-zero literals, a counting loop whose bound is neither a literal nor a
    name its body leaves alone;
  \<^item> loops over lists and generators and the resume frames they carry, which have no Go semantics here.

  \<^bold>\<open>Not modelled.\<close>

  \<^item> \<^verbatim>\<open>ir/bridge.go\<close> (all but \<open>binResult\<close>), \<^verbatim>\<open>ir/fold.go\<close>, \<^verbatim>\<open>ir/generator.go\<close>, \<^verbatim>\<open>ir/genresolve.go\<close>, \<^verbatim>\<open>ir/globals.go\<close>,
    \<^verbatim>\<open>ir/shapes.go\<close>: the passage from syntax trees to the typed model. The emission theorems start at the typed model.
  \<^item> \<^verbatim>\<open>emit/gen.go\<close> and \<^verbatim>\<open>emit/shape.go\<close>: structs with methods, of which only the data types of a generator are here.
  \<^item> \<^verbatim>\<open>partition/driver.go\<close>, \<^verbatim>\<open>partition/cycles.go\<close>, \<^verbatim>\<open>partition/resolve.go\<close>: the walk that fills the census and the
    fixpoint over callees.
  \<^item> \<open>EForRange\<close> and \<open>EForGen\<close> lower in the model but have no Go semantics here (slices that share storage, methods), so
    the emission theorems exclude them and the resume hand-offs they carry. That Go rejects an unused variable is not part
    of \<open>Go_Lang\<close>: a program that reads fewer names means the same.
  \<^item> \<open>Density\<close>, \<open>StaticPercent\<close> and the renderers of percentages format a \<open>float64\<close>.
  \<^item> \<^verbatim>\<open>types/annotation.go\<close>, \<^verbatim>\<open>types/stub.go\<close>: they read annotation syntax against an embedded typeshed table.
  \<^item> The lexer and parser (\<^verbatim>\<open>frontend/\<close>, \<^verbatim>\<open>pylexer/\<close>): the development starts from the tree.
  \<^item> The boxed tier (\<^verbatim>\<open>lower/\<close>, \<^verbatim>\<open>objects/\<close>, the library modules in \<^verbatim>\<open>runtime/\<close>, \<^verbatim>\<open>sre/\<close>): Python's object model
    and library. The static tier meets it only at the hand-off, which is where the theorems end.
  \<^item> \<^verbatim>\<open>report/\<close>, \<^verbatim>\<open>vet/\<close>, \<^verbatim>\<open>build/\<close>, \<^verbatim>\<open>conformance/\<close>, \<^verbatim>\<open>cli/\<close>, \<^verbatim>\<open>floor/\<close>: reports for people, warnings,
    and I/O.
\<close>

end
